(* ===== verification/Godis_Prelude.thy ===== *)
theory Godis_Prelude
  imports Main "HOL-Library.Word" "HOL-Library.Char_ord" "HOL-Library.List_Lexorder"
    "HOL-Library.Multiset" "HOL-Library.Monad_Syntax"
begin

text \<open>
  Shared vocabulary of the development: how the values of the Go language that the sources
  use are represented, and the lemmas on them that every component needs.

  \<^item> A Go \<^verbatim>\<open>string\<close> is a list of bytes, HOL's \<open>string\<close>. A Go \<^verbatim>\<open>[]byte\<close> is an optional
    \<open>string\<close>: \<open>None\<close> is the nil slice, which the code tells apart from an empty one.
  \<^item> Go's \<^verbatim>\<open>int\<close> and \<^verbatim>\<open>int64\<close> are \<open>int\<close>; \<open>wrap64\<close> is written wherever a 64-bit
    operation can overflow. Unsigned 32-bit hashes and counters are \<open>32 word\<close>.
  \<^item> A run-time panic is \<open>None\<close> of an option type, so that the option monad propagates it.
  \<^item> A Go \<^verbatim>\<open>map\<close> is an association list with distinct keys. Go leaves the order in which
    \<^verbatim>\<open>range\<close> visits a map unspecified: the list's order stands for the order of the next
    traversal, and the theorems quantify over every such list.
\<close>

named_theorems go_simps

type_synonym bytes = "string option"
type_synonym cmdline = "bytes list"

text \<open>The conversion \<^verbatim>\<open>string(b)\<close> of a byte slice: nil and empty both give the empty string.\<close>

definition str :: "bytes \<Rightarrow> string" where
  "str b = (case b of None \<Rightarrow> [] | Some s \<Rightarrow> s)"

text \<open>Two's complement wrap-around of 64-bit signed arithmetic.\<close>

definition wrap64 :: "int \<Rightarrow> int" where
  "wrap64 x = (x + 2 ^ 63) mod 2 ^ 64 - 2 ^ 63"

definition int64_range :: "int \<Rightarrow> bool" where
  "int64_range x \<longleftrightarrow> - (2 ^ 63) \<le> x \<and> x < 2 ^ 63"

text \<open>Go's integer division and remainder truncate towards zero.\<close>

definition quot :: "int \<Rightarrow> int \<Rightarrow> int" where
  "quot a b = sgn a * sgn b * (\<bar>a\<bar> div \<bar>b\<bar>)"

definition rem :: "int \<Rightarrow> int \<Rightarrow> int" where
  "rem a b = a - quot a b * b"

text \<open>Indexing with Go's bounds check.\<close>

definition go_index :: "'a list \<Rightarrow> int \<Rightarrow> 'a option" where
  "go_index xs i = (if 0 \<le> i \<and> i < int (length xs) then Some (xs ! nat i) else None)"

definition go_update :: "'a list \<Rightarrow> int \<Rightarrow> 'a \<Rightarrow> 'a list option" where
  "go_update xs i v = (if 0 \<le> i \<and> i < int (length xs) then Some (xs[nat i := v]) else None)"

text \<open>The slice expression \<^verbatim>\<open>xs[i:j]\<close> for bounds within the length.\<close>

definition go_slice :: "'a list \<Rightarrow> int \<Rightarrow> int \<Rightarrow> 'a list option" where
  "go_slice xs i j = (if 0 \<le> i \<and> i \<le> j \<and> j \<le> int (length xs)
     then Some (take (nat j - nat i) (drop (nat i) xs)) else None)"

text \<open>
  \<^verbatim>\<open>make([]T, n)\<close> panics when \<open>n\<close> is negative or the allocation exceeds the address space;
  \<open>maxAlloc\<close> is the limit of the 64-bit run time.
\<close>

definition maxAlloc :: int where
  "maxAlloc = 2 ^ 48"

definition make_ok :: "int \<Rightarrow> int \<Rightarrow> bool" where
  "make_ok elemSize n \<longleftrightarrow> 0 \<le> n \<and> elemSize * n \<le> maxAlloc"

text \<open>
  The capacity after an \<^verbatim>\<open>append\<close> that needs \<open>need\<close> cells: unchanged when it is enough, and
  otherwise whatever the run time picks, which is at least \<open>need\<close>. The choice \<open>g\<close> is an
  arbitrary function, so every policy of the run time is covered.
\<close>

definition append_cap :: "(nat \<Rightarrow> nat \<Rightarrow> nat) \<Rightarrow> nat \<Rightarrow> nat \<Rightarrow> nat" where
  "append_cap g old need = (if need \<le> old then old else max need (g old need))"

subsection \<open>Maps\<close>

type_synonym ('k, 'v) gomap = "('k \<times> 'v) list"

fun map_put :: "'k \<Rightarrow> 'v \<Rightarrow> ('k, 'v) gomap \<Rightarrow> ('k, 'v) gomap" where
  "map_put k v [] = [(k, v)]"
| "map_put k v ((k', v') # m) = (if k = k' then (k, v) # m else (k', v') # map_put k v m)"

definition map_del :: "'k \<Rightarrow> ('k, 'v) gomap \<Rightarrow> ('k, 'v) gomap" where
  "map_del k m = filter (\<lambda>(k', v). k' \<noteq> k) m"

definition map_ok :: "('k, 'v) gomap \<Rightarrow> bool" where
  "map_ok m \<longleftrightarrow> distinct (map fst m)"

subsection \<open>Strings\<close>

definition lower_char :: "char \<Rightarrow> char" where
  "lower_char c = (if CHR ''A'' \<le> c \<and> c \<le> CHR ''Z'' then char_of (of_char c + (32::nat)) else c)"

definition upper_char :: "char \<Rightarrow> char" where
  "upper_char c = (if CHR ''a'' \<le> c \<and> c \<le> CHR ''z'' then char_of (of_char c - (32::nat)) else c)"

text \<open>\<^verbatim>\<open>strings.ToLower\<close> and \<^verbatim>\<open>strings.ToUpper\<close> on ASCII; bytes above 127 are left alone.\<close>

definition ToLower :: "string \<Rightarrow> string" where
  "ToLower s = map lower_char s"

definition ToUpper :: "string \<Rightarrow> string" where
  "ToUpper s = map upper_char s"

text \<open>Splitting at every occurrence of one byte, as \<^verbatim>\<open>bytes.Split\<close> does.\<close>

fun split_at :: "char \<Rightarrow> string \<Rightarrow> string list" where
  "split_at d [] = [[]]"
| "split_at d (c # s) = (if c = d then [] # split_at d s
     else (case split_at d s of [] \<Rightarrow> [[c]] | w # ws \<Rightarrow> (c # w) # ws))"

section \<open>Lemmas\<close>

lemma str_simps [simp]: "str None = []" "str (Some s) = s"
  by (simp_all add: str_def)

lemma wrap64_id [simp]: "int64_range x \<Longrightarrow> wrap64 x = x"
  by (auto simp: wrap64_def int64_range_def)

lemma wrap64_range: "int64_range (wrap64 x)"
proof -
  have "0 \<le> (x + 2 ^ 63) mod 2 ^ 64" "(x + 2 ^ 63) mod 2 ^ 64 < (2::int) ^ 64"
    by simp_all
  then show ?thesis by (simp add: wrap64_def int64_range_def)
qed

lemma wrap64_add: "wrap64 (wrap64 a + b) = wrap64 (a + b)"
proof -
  have "wrap64 a + b + 2 ^ 63 = (a + 2 ^ 63) mod 2 ^ 64 + b" by (simp add: wrap64_def)
  then have "(wrap64 a + b + 2 ^ 63) mod 2 ^ 64 = (a + 2 ^ 63 + b) mod 2 ^ 64" by (simp only: mod_add_left_eq)
  moreover have "a + 2 ^ 63 + b = a + b + 2 ^ 63" by simp
  ultimately show ?thesis unfolding wrap64_def [of "wrap64 a + b"] wrap64_def [of "a + b"] by (simp only:)
qed

lemma wrap64_overflow: "wrap64 (2 ^ 63) = - (2 ^ 63)"
  by (simp add: wrap64_def)

lemma quot_nonneg: "0 \<le> a \<Longrightarrow> 0 < b \<Longrightarrow> quot a b = a div b"
  by (cases "a = 0") (auto simp: quot_def)

lemma rem_nonneg: "0 \<le> a \<Longrightarrow> 0 < b \<Longrightarrow> rem a b = a mod b"
  by (simp add: rem_def quot_nonneg minus_div_mult_eq_mod)

lemma go_index_Some [simp]:
  "go_index xs i = Some x \<longleftrightarrow> 0 \<le> i \<and> i < int (length xs) \<and> xs ! nat i = x"
  by (auto simp: go_index_def)

lemma go_index_nat [simp]: "n < length xs \<Longrightarrow> go_index xs (int n) = Some (xs ! n)"
  by simp

lemma go_index_0 [simp]: "0 < length xs \<Longrightarrow> go_index xs 0 = Some (xs ! 0)"
  by (simp add: go_index_def)

lemma go_index_None: "go_index xs i = None \<longleftrightarrow> i < 0 \<or> int (length xs) \<le> i"
  by (auto simp: go_index_def)

lemma append_cap_ge [simp]: "need \<le> append_cap g old need"
  by (simp add: append_cap_def)

lemma take_drop_join: "k \<le> n \<Longrightarrow> take (n - k) (drop k xs) @ drop n xs = drop k xs"
  by (metis append_take_drop_id drop_drop le_add_diff_inverse2)

lemma take_take_join: "n \<le> k \<Longrightarrow> take n xs @ take (k - n) (drop n xs) = take k xs"
  by (simp flip: take_add)

lemma drop_last_cell: "xs \<noteq> [] \<Longrightarrow> drop (length xs - Suc 0) xs = [xs ! (length xs - Suc 0)]"
  by (cases xs rule: rev_cases) auto

lemma map_of_put [simp]: "map_of (map_put k v m) = (map_of m)(k \<mapsto> v)"
  by (induction m) auto

lemma fst_map_put: "fst ` set (map_put k v m) = insert k (fst ` set m)"
  by (simp flip: dom_map_of_conv_image_fst)

lemma map_ok_Nil [simp]: "map_ok []"
  by (simp add: map_ok_def)

lemma map_ok_put [simp]: "map_ok m \<Longrightarrow> map_ok (map_put k v m)"
proof (induction m)
  case (Cons p m)
  obtain k' v' where p: "p = (k', v')" by (cases p)
  have "fst ` set (map_put k v m) = insert k (fst ` set m)" by (rule fst_map_put)
  with Cons p show ?case by (auto simp: map_ok_def image_iff)
qed (simp add: map_ok_def)

lemma length_map_put:
  "length (map_put k v m) = (if map_of m k = None then Suc (length m) else length m)"
  by (induction m) auto

lemma map_of_del [simp]: "map_of (map_del k m) = (map_of m)(k := None)"
  by (induction m) (auto simp: map_del_def)

lemma map_ok_del [simp]: "map_ok m \<Longrightarrow> map_ok (map_del k m)"
  by (induction m) (auto simp: map_ok_def map_del_def)

lemma map_del_absent: "map_of m k = None \<Longrightarrow> map_del k m = m"
  by (induction m) (auto simp: map_del_def split: if_splits)

lemma length_map_del:
  "map_ok m \<Longrightarrow> length (map_del k m) = (if map_of m k = None then length m else length m - 1)"
proof (induction m)
  case (Cons p m)
  obtain k' v' where p: "p = (k', v')" by (cases p)
  show ?case
  proof (cases "k' = k")
    case True
    with Cons.prems p have "map_of m k = None"
      by (auto simp: map_ok_def map_of_eq_None_iff image_iff)
    with True p show ?thesis
      using map_del_absent [of m k] by (auto simp: map_del_def)
  next
    case False
    moreover have "map_of m k \<noteq> None \<Longrightarrow> 0 < length m" by (cases m) auto
    ultimately show ?thesis using Cons p by (auto simp: map_ok_def map_del_def)
  qed
qed (simp add: map_del_def)

lemma map_of_dom: "dom (map_of m) = fst ` set m"
  by (rule dom_map_of_conv_image_fst)

lemma map_ok_card: "map_ok m \<Longrightarrow> card (dom (map_of m)) = length m"
  by (metis distinct_card length_map list.set_map map_of_dom map_ok_def)

lemma map_ok_in_set: "map_ok m \<Longrightarrow> (k, v) \<in> set m \<longleftrightarrow> map_of m k = Some v"
  by (simp add: map_ok_def)

end
