(* ===== verification/Dict.thy ===== *)
theory Dict
  imports Godis_Prelude
begin

unbundle bit_operations_syntax

text \<open>
  The dictionaries of \<^verbatim>\<open>datastruct/dict\<close>: the interface \<^verbatim>\<open>Dict\<close> as a locale with its laws over a
  partial map, \<open>SimpleDict\<close> (a wrapped Go map) and \<open>ConcurrentDict\<close> (a table of shards chosen by
  the FNV hash of the key, with an atomic 32-bit counter). The mutexes of the shards are taken
  and released inside each operation; they are modelled in the theory of the lock protocol, and
  here an operation is one atomic step. The \<^verbatim>\<open>...WithLock\<close> variants have the same body as the
  operation they are named after, without the mutex.
\<close>

subsection \<open>SimpleDict\<close>

record 'v SimpleDict =
  sd_m :: "(string, 'v) gomap"

definition MakeSimple :: "'v SimpleDict" where
  "MakeSimple = \<lparr>sd_m = []\<rparr>"

definition SD_Get :: "'v SimpleDict \<Rightarrow> string \<Rightarrow> 'v option" where
  "SD_Get d key = map_of (sd_m d) key"

definition SD_Len :: "'v SimpleDict \<Rightarrow> int" where
  "SD_Len d = int (length (sd_m d))"

definition SD_Put :: "'v SimpleDict \<Rightarrow> string \<Rightarrow> 'v \<Rightarrow> 'v SimpleDict \<times> int" where
  "SD_Put d key val = (d\<lparr>sd_m := map_put key val (sd_m d)\<rparr>, if map_of (sd_m d) key \<noteq> None then 0 else 1)"

definition SD_PutIfAbsent :: "'v SimpleDict \<Rightarrow> string \<Rightarrow> 'v \<Rightarrow> 'v SimpleDict \<times> int" where
  "SD_PutIfAbsent d key val = (if map_of (sd_m d) key \<noteq> None then (d, 0)
     else (d\<lparr>sd_m := map_put key val (sd_m d)\<rparr>, 1))"

definition SD_PutIfExists :: "'v SimpleDict \<Rightarrow> string \<Rightarrow> 'v \<Rightarrow> 'v SimpleDict \<times> int" where
  "SD_PutIfExists d key val = (if map_of (sd_m d) key \<noteq> None
     then (d\<lparr>sd_m := map_put key val (sd_m d)\<rparr>, 1) else (d, 0))"

definition SD_Remove :: "'v SimpleDict \<Rightarrow> string \<Rightarrow> 'v SimpleDict \<times> 'v option \<times> int" where
  "SD_Remove d key = (let val = map_of (sd_m d) key; d' = d\<lparr>sd_m := map_del key (sd_m d)\<rparr> in
     if val \<noteq> None then (d', val, 1) else (d', None, 0))"

definition SD_Keys :: "'v SimpleDict \<Rightarrow> string list" where
  "SD_Keys d = map fst (sd_m d)"

text \<open>
  A traversal calls the consumer on one entry after the other, threading the state \<open>s\<close> of its
  closure, until it answers false.
\<close>

fun range_map :: "('s \<Rightarrow> 'k \<Rightarrow> 'v \<Rightarrow> bool \<times> 's) \<Rightarrow> ('k, 'v) gomap \<Rightarrow> 's \<Rightarrow> bool \<times> 's" where
  "range_map f [] s = (True, s)"
| "range_map f ((k, v) # kvs) s =
     (case f s k v of (True, s') \<Rightarrow> range_map f kvs s' | (False, s') \<Rightarrow> (False, s'))"

definition SD_ForEach :: "'v SimpleDict \<Rightarrow> ('s \<Rightarrow> string \<Rightarrow> 'v \<Rightarrow> bool \<times> 's) \<Rightarrow> 's \<Rightarrow> 's" where
  "SD_ForEach d consumer s = snd (range_map consumer (sd_m d) s)"

text \<open>
  \<^verbatim>\<open>RandomKeys\<close> takes the first key of \<open>limit\<close> traversals, each in an order of its own:
  \<open>pick i\<close> is the position of that key. On an empty map the slots keep the empty string.
\<close>

definition SD_RandomKeys :: "'v SimpleDict \<Rightarrow> (nat \<Rightarrow> nat) \<Rightarrow> int \<Rightarrow> string list option" where
  "SD_RandomKeys d pick limit = (if \<not> make_ok 16 limit then None
     else Some (map (\<lambda>i. if sd_m d = [] then [] else fst (sd_m d ! (pick i mod length (sd_m d)))) [0..<nat limit]))"

definition SD_RandomDistinctKeys :: "'v SimpleDict \<Rightarrow> int \<Rightarrow> string list option" where
  "SD_RandomDistinctKeys d limit =
     (let size = (if limit > int (length (sd_m d)) then int (length (sd_m d)) else limit) in
      if \<not> make_ok 16 size then None else Some (take (nat size) (map fst (sd_m d))))"

definition SD_Clear :: "'v SimpleDict \<Rightarrow> 'v SimpleDict" where
  "SD_Clear d = MakeSimple"

subsection \<open>ConcurrentDict\<close>

record 'v ConcurrentDict =
  table :: "(string, 'v) gomap list"
  cd_count :: "32 word"
  shardCount :: int

definition computeCapacity :: "int \<Rightarrow> int" where
  "computeCapacity param =
     (if param \<le> 16 then 16
      else let n = param - 1;
               n = n OR drop_bit 1 n;
               n = n OR drop_bit 2 n;
               n = n OR drop_bit 4 n;
               n = n OR drop_bit 8 n;
               n = n OR drop_bit 16 n
           in if n < 0 then 2 ^ 31 - 1 else wrap64 (n + 1))"

definition MakeConcurrent :: "int \<Rightarrow> 'v ConcurrentDict" where
  "MakeConcurrent sc =
     (if sc = 1 then \<lparr>table = [[]], cd_count = 0, shardCount = sc\<rparr>
      else let sc' = computeCapacity sc
           in \<lparr>table = replicate (nat sc') [], cd_count = 0, shardCount = sc'\<rparr>)"

definition prime32 :: "32 word" where
  "prime32 = 16777619"

fun fnv32_loop :: "32 word \<Rightarrow> string \<Rightarrow> 32 word" where
  "fnv32_loop hash [] = hash"
| "fnv32_loop hash (c # key) = fnv32_loop ((hash * prime32) XOR of_nat (of_char c)) key"

definition fnv32 :: "string \<Rightarrow> 32 word" where
  "fnv32 key = fnv32_loop 2166136261 key"

definition CD_spread :: "'v ConcurrentDict \<Rightarrow> string \<Rightarrow> 32 word" where
  "CD_spread d key = (if length (table d) = 1 then 0
     else (of_nat (length (table d)) - 1) AND fnv32 key)"

text \<open>The shard of a key; \<open>CD_spread_less\<close> below shows that the index is within the table.\<close>

definition CD_getShard :: "'v ConcurrentDict \<Rightarrow> string \<Rightarrow> (string, 'v) gomap" where
  "CD_getShard d key = table d ! unat (CD_spread d key)"

definition CD_setShard :: "'v ConcurrentDict \<Rightarrow> string \<Rightarrow> (string, 'v) gomap \<Rightarrow> 'v ConcurrentDict" where
  "CD_setShard d key s = d\<lparr>table := (table d)[unat (CD_spread d key) := s]\<rparr>"

definition addCount :: "'v ConcurrentDict \<Rightarrow> 'v ConcurrentDict" where
  "addCount d = d\<lparr>cd_count := cd_count d + 1\<rparr>"

definition decreaseCount :: "'v ConcurrentDict \<Rightarrow> 'v ConcurrentDict" where
  "decreaseCount d = d\<lparr>cd_count := cd_count d - 1\<rparr>"

definition CD_Get :: "'v ConcurrentDict \<Rightarrow> string \<Rightarrow> 'v option" where
  "CD_Get d key = map_of (CD_getShard d key) key"

definition CD_Len :: "'v ConcurrentDict \<Rightarrow> int" where
  "CD_Len d = sint (cd_count d)"

definition CD_Put :: "'v ConcurrentDict \<Rightarrow> string \<Rightarrow> 'v \<Rightarrow> 'v ConcurrentDict \<times> int" where
  "CD_Put d key val = (let s = CD_getShard d key in
     if map_of s key \<noteq> None then (CD_setShard d key (map_put key val s), 0)
     else (CD_setShard (addCount d) key (map_put key val s), 1))"

definition CD_PutIfAbsent :: "'v ConcurrentDict \<Rightarrow> string \<Rightarrow> 'v \<Rightarrow> 'v ConcurrentDict \<times> int" where
  "CD_PutIfAbsent d key val = (let s = CD_getShard d key in
     if map_of s key \<noteq> None then (d, 0)
     else (addCount (CD_setShard d key (map_put key val s)), 1))"

definition CD_PutIfExists :: "'v ConcurrentDict \<Rightarrow> string \<Rightarrow> 'v \<Rightarrow> 'v ConcurrentDict \<times> int" where
  "CD_PutIfExists d key val = (let s = CD_getShard d key in
     if map_of s key \<noteq> None then (CD_setShard d key (map_put key val s), 1) else (d, 0))"

definition CD_Remove :: "'v ConcurrentDict \<Rightarrow> string \<Rightarrow> 'v ConcurrentDict \<times> 'v option \<times> int" where
  "CD_Remove d key = (let s = CD_getShard d key in
     case map_of s key of
       Some val \<Rightarrow> (decreaseCount (CD_setShard d key (map_del key s)), Some val, 1)
     | None \<Rightarrow> (d, None, 0))"

text \<open>The variants for callers that already hold the lock of the key's shard.\<close>

definition CD_GetWithLock :: "'v ConcurrentDict \<Rightarrow> string \<Rightarrow> 'v option" where
  "CD_GetWithLock d key = map_of (CD_getShard d key) key"

definition CD_PutWithLock :: "'v ConcurrentDict \<Rightarrow> string \<Rightarrow> 'v \<Rightarrow> 'v ConcurrentDict \<times> int" where
  "CD_PutWithLock d key val = (let s = CD_getShard d key in
     if map_of s key \<noteq> None then (CD_setShard d key (map_put key val s), 0)
     else (CD_setShard (addCount d) key (map_put key val s), 1))"

definition CD_PutIfAbsentWithLock :: "'v ConcurrentDict \<Rightarrow> string \<Rightarrow> 'v \<Rightarrow> 'v ConcurrentDict \<times> int" where
  "CD_PutIfAbsentWithLock d key val = (let s = CD_getShard d key in
     if map_of s key \<noteq> None then (d, 0)
     else (addCount (CD_setShard d key (map_put key val s)), 1))"

definition CD_PutIfExistsWithLock :: "'v ConcurrentDict \<Rightarrow> string \<Rightarrow> 'v \<Rightarrow> 'v ConcurrentDict \<times> int" where
  "CD_PutIfExistsWithLock d key val = (let s = CD_getShard d key in
     if map_of s key \<noteq> None then (CD_setShard d key (map_put key val s), 1) else (d, 0))"

definition CD_RemoveWithLock :: "'v ConcurrentDict \<Rightarrow> string \<Rightarrow> 'v ConcurrentDict \<times> 'v option \<times> int" where
  "CD_RemoveWithLock d key = (let s = CD_getShard d key in
     case map_of s key of
       Some val \<Rightarrow> (decreaseCount (CD_setShard d key (map_del key s)), Some val, 1)
     | None \<Rightarrow> (d, None, 0))"

fun range_shards :: "('s \<Rightarrow> string \<Rightarrow> 'v \<Rightarrow> bool \<times> 's) \<Rightarrow> (string, 'v) gomap list \<Rightarrow> 's \<Rightarrow> 's" where
  "range_shards f [] s = s"
| "range_shards f (sh # shs) s =
     (case range_map f sh s of (True, s') \<Rightarrow> range_shards f shs s' | (False, s') \<Rightarrow> s')"

definition CD_ForEach :: "'v ConcurrentDict \<Rightarrow> ('s \<Rightarrow> string \<Rightarrow> 'v \<Rightarrow> bool \<times> 's) \<Rightarrow> 's \<Rightarrow> 's" where
  "CD_ForEach d consumer s = range_shards consumer (table d) s"

text \<open>
  \<^verbatim>\<open>Keys\<close> fills a slice of \<^verbatim>\<open>Len()\<close> cells and appends what does not fit; the closure's state is
  the slice and the index of the next free cell.
\<close>

fun fill_key :: "string list \<times> nat \<Rightarrow> string \<Rightarrow> string list \<times> nat" where
  "fill_key (keys, i) key = (if i < length keys then (keys[i := key], Suc i) else (keys @ [key], i))"

definition CD_Keys :: "'v ConcurrentDict \<Rightarrow> string list option" where
  "CD_Keys d = (if \<not> make_ok 16 (CD_Len d) then None
     else Some (fst (CD_ForEach d (\<lambda>s key val. (True, fill_key s key))
       (replicate (nat (CD_Len d)) [], 0))))"

definition CD_Clear :: "'v ConcurrentDict \<Rightarrow> 'v ConcurrentDict" where
  "CD_Clear d = MakeConcurrent (shardCount d)"

subsection \<open>Abstraction and invariant\<close>

definition SD_inv :: "'v SimpleDict \<Rightarrow> bool" where
  "SD_inv d \<longleftrightarrow> map_ok (sd_m d)"

text \<open>
  Every shard is a map, every key is in the shard its hash selects, and the counter is the
  number of entries modulo the counter's width.
\<close>

definition CD_inv :: "'v ConcurrentDict \<Rightarrow> bool" where
  "CD_inv d \<longleftrightarrow> table d \<noteq> [] \<and> length (table d) \<le> 2 ^ 32 \<and> shardCount d \<le> 2 ^ 32 \<and>
     (\<forall>i < length (table d). map_ok (table d ! i) \<and>
        (\<forall>k \<in> fst ` set (table d ! i). unat (CD_spread d k) = i)) \<and>
     cd_count d = of_nat (sum_list (map length (table d)))"

subsection \<open>The interface\<close>

text \<open>
  The methods of the interface \<^verbatim>\<open>Dict\<close>. \<open>iEntries\<close> lists the entries in the order in which
  \<^verbatim>\<open>ForEach\<close> visits them, so that a traversal with any consumer is \<open>range_map\<close> over it.
\<close>

record ('d, 'v) DictI =
  iMake :: 'd
  iGet :: "'d \<Rightarrow> string \<Rightarrow> 'v option"
  iLen :: "'d \<Rightarrow> int"
  iPut :: "'d \<Rightarrow> string \<Rightarrow> 'v \<Rightarrow> 'd \<times> int"
  iPutIfAbsent :: "'d \<Rightarrow> string \<Rightarrow> 'v \<Rightarrow> 'd \<times> int"
  iPutIfExists :: "'d \<Rightarrow> string \<Rightarrow> 'v \<Rightarrow> 'd \<times> int"
  iRemove :: "'d \<Rightarrow> string \<Rightarrow> 'd \<times> 'v option \<times> int"
  iEntries :: "'d \<Rightarrow> (string, 'v) gomap"
  iClear :: "'d \<Rightarrow> 'd"

definition SimpleDictI :: "('v SimpleDict, 'v) DictI" where
  "SimpleDictI = \<lparr>iMake = MakeSimple, iGet = SD_Get, iLen = SD_Len, iPut = SD_Put,
     iPutIfAbsent = SD_PutIfAbsent, iPutIfExists = SD_PutIfExists, iRemove = SD_Remove,
     iEntries = sd_m, iClear = SD_Clear\<rparr>"

definition ConcurrentDictI :: "int \<Rightarrow> ('v ConcurrentDict, 'v) DictI" where
  "ConcurrentDictI sc = \<lparr>iMake = MakeConcurrent sc, iGet = CD_Get, iLen = CD_Len, iPut = CD_Put,
     iPutIfAbsent = CD_PutIfAbsent, iPutIfExists = CD_PutIfExists, iRemove = CD_Remove,
     iEntries = (\<lambda>d. concat (table d)), iClear = CD_Clear\<rparr>"

text \<open>Calls on a dictionary, their answers, and a client that makes a sequence of calls.\<close>

datatype 'v dict_op = OpGet string | OpLen | OpPut string 'v | OpPutIfAbsent string 'v
  | OpPutIfExists string 'v | OpRemove string | OpClear

datatype 'v dict_ans = AVal "'v option" | ANum int | ABoth "'v option" int | ANone

fun dict_exec :: "('d, 'v) DictI \<Rightarrow> 'd \<Rightarrow> 'v dict_op \<Rightarrow> 'd \<times> 'v dict_ans" where
  "dict_exec I d (OpGet k) = (d, AVal (iGet I d k))"
| "dict_exec I d OpLen = (d, ANum (iLen I d))"
| "dict_exec I d (OpPut k v) = (case iPut I d k v of (d', n) \<Rightarrow> (d', ANum n))"
| "dict_exec I d (OpPutIfAbsent k v) = (case iPutIfAbsent I d k v of (d', n) \<Rightarrow> (d', ANum n))"
| "dict_exec I d (OpPutIfExists k v) = (case iPutIfExists I d k v of (d', n) \<Rightarrow> (d', ANum n))"
| "dict_exec I d (OpRemove k) = (case iRemove I d k of (d', v, n) \<Rightarrow> (d', ABoth v n))"
| "dict_exec I d OpClear = (iClear I d, ANone)"

fun dict_run :: "('d, 'v) DictI \<Rightarrow> 'd \<Rightarrow> 'v dict_op list \<Rightarrow> 'd \<times> 'v dict_ans list" where
  "dict_run I d [] = (d, [])"
| "dict_run I d (c # cs) = (case dict_exec I d c of (d', a) \<Rightarrow>
     (case dict_run I d' cs of (d'', as) \<Rightarrow> (d'', a # as)))"

text \<open>What the same calls mean on a partial map: the contract of the interface.\<close>

fun spec_exec :: "(string \<rightharpoonup> 'v) \<Rightarrow> 'v dict_op \<Rightarrow> (string \<rightharpoonup> 'v) \<times> 'v dict_ans" where
  "spec_exec f (OpGet k) = (f, AVal (f k))"
| "spec_exec f OpLen = (f, ANum (int (card (dom f))))"
| "spec_exec f (OpPut k v) = (f(k \<mapsto> v), ANum (if f k = None then 1 else 0))"
| "spec_exec f (OpPutIfAbsent k v) =
     (if f k = None then (f(k \<mapsto> v), ANum 1) else (f, ANum 0))"
| "spec_exec f (OpPutIfExists k v) =
     (if f k = None then (f, ANum 0) else (f(k \<mapsto> v), ANum 1))"
| "spec_exec f (OpRemove k) = (f(k := None), ABoth (f k) (if f k = None then 0 else 1))"
| "spec_exec f OpClear = (Map.empty, ANone)"

fun spec_run :: "(string \<rightharpoonup> 'v) \<Rightarrow> 'v dict_op list \<Rightarrow> (string \<rightharpoonup> 'v) \<times> 'v dict_ans list" where
  "spec_run f [] = (f, [])"
| "spec_run f (c # cs) = (case spec_exec f c of (f', a) \<Rightarrow>
     (case spec_run f' cs of (f'', as) \<Rightarrow> (f'', a # as)))"

text \<open>
  The laws of the interface over the map that the entries denote. \<open>cap\<close> bounds the number of
  entries up to which \<^verbatim>\<open>Len\<close> is exact.
\<close>

locale dict =
  fixes I :: "('d, 'v) DictI" and inv :: "'d \<Rightarrow> bool" and cap :: nat
  assumes make_ok: "inv (iMake I)" "iEntries I (iMake I) = []"
    and entries_ok: "inv d \<Longrightarrow> map_ok (iEntries I d)"
    and get_law: "inv d \<Longrightarrow> iGet I d k = map_of (iEntries I d) k"
    and len_law: "inv d \<Longrightarrow> length (iEntries I d) < cap \<Longrightarrow> iLen I d = int (length (iEntries I d))"
    and put_law: "inv d \<Longrightarrow> iPut I d k v = (d', n) \<Longrightarrow>
      inv d' \<and> map_of (iEntries I d') = (map_of (iEntries I d))(k \<mapsto> v) \<and>
      n = (if map_of (iEntries I d) k = None then 1 else 0)"
    and absent_law: "inv d \<Longrightarrow> iPutIfAbsent I d k v =
      (if map_of (iEntries I d) k = None then (fst (iPut I d k v), 1) else (d, 0))"
    and exists_law: "inv d \<Longrightarrow> iPutIfExists I d k v =
      (if map_of (iEntries I d) k = None then (d, 0) else (fst (iPut I d k v), 1))"
    and remove_law: "inv d \<Longrightarrow> iRemove I d k = (d', r, n) \<Longrightarrow>
      inv d' \<and> map_of (iEntries I d') = (map_of (iEntries I d))(k := None) \<and>
      r = map_of (iEntries I d) k \<and> n = (if map_of (iEntries I d) k = None then 0 else 1)"
    and clear_law: "inv d \<Longrightarrow> inv (iClear I d) \<and> iEntries I (iClear I d) = []"
begin

lemma put_fst: "inv d \<Longrightarrow> inv (fst (iPut I d k v)) \<and>
    map_of (iEntries I (fst (iPut I d k v))) = (map_of (iEntries I d))(k \<mapsto> v)"
  using put_law [of d k v "fst (iPut I d k v)" "snd (iPut I d k v)"] by simp

lemma len_card: "inv d \<Longrightarrow> card (dom (map_of (iEntries I d))) < cap \<Longrightarrow>
    iLen I d = int (card (dom (map_of (iEntries I d))))"
  by (simp add: map_ok_card entries_ok len_law)

lemma exec_refines:
  assumes "inv d" and "dict_exec I d c = (d', a)" and "card (dom (map_of (iEntries I d))) < cap"
  shows "inv d' \<and> spec_exec (map_of (iEntries I d)) c = (map_of (iEntries I d'), a)"
proof (cases c)
  case (OpRemove k)
  obtain d'' r n where "iRemove I d k = (d'', r, n)" by (metis prod_cases3)
  with OpRemove assms remove_law [of d k d'' r n] show ?thesis by auto
next
  case (OpPut k v)
  obtain d'' n where "iPut I d k v = (d'', n)" by (metis prod.exhaust)
  with OpPut assms put_law [of d k v d'' n] show ?thesis by auto
qed (use assms put_fst len_card in
    \<open>auto simp: get_law absent_law exists_law clear_law split: if_splits prod.splits\<close>)

lemma exec_grows: "spec_exec f c = (f', a) \<Longrightarrow> finite (dom f) \<Longrightarrow>
    finite (dom f') \<and> card (dom f') \<le> Suc (card (dom f))"
  by (cases c) (auto simp: card_insert_if card_Diff_singleton_if split: if_splits)

lemma run_refines:
  assumes "inv d" and "card (dom (map_of (iEntries I d))) + length cs \<le> cap"
    and "dict_run I d cs = (d', as)"
  shows "inv d' \<and> spec_run (map_of (iEntries I d)) cs = (map_of (iEntries I d'), as)"
  using assms
proof (induction cs arbitrary: d d' as)
  case (Cons c cs)
  obtain d1 a1 where e: "dict_exec I d c = (d1, a1)" by (cases "dict_exec I d c")
  obtain d2 as2 where r: "dict_run I d1 cs = (d2, as2)" by (cases "dict_run I d1 cs")
  have x: "inv d1 \<and> spec_exec (map_of (iEntries I d)) c = (map_of (iEntries I d1), a1)"
    using Cons.prems e by (intro exec_refines) auto
  then have "card (dom (map_of (iEntries I d1))) \<le> Suc (card (dom (map_of (iEntries I d))))"
    using exec_grows finite_dom_map_of by metis
  with Cons.prems x have "inv d2 \<and> spec_run (map_of (iEntries I d1)) cs = (map_of (iEntries I d2), as2)"
    by (intro Cons.IH [OF _ _ r]) auto
  with x e r Cons.prems show ?case by simp
qed simp

lemma fresh_run_refines:
  assumes "length cs \<le> cap"
  shows "snd (dict_run I (iMake I) cs) = snd (spec_run Map.empty cs)"
proof -
  obtain d' as where r: "dict_run I (iMake I) cs = (d', as)" by (cases "dict_run I (iMake I) cs")
  with run_refines [OF make_ok(1) _ r] make_ok(2) assms show ?thesis by simp
qed

end

section \<open>Lemmas\<close>

subsection \<open>SimpleDict provides the interface\<close>

lemmas SD_defs = SimpleDictI_def SD_inv_def MakeSimple_def SD_Get_def SD_Len_def SD_Put_def
  SD_PutIfAbsent_def SD_PutIfExists_def SD_Remove_def SD_Clear_def

interpretation sd: dict "SimpleDictI :: ('v SimpleDict, 'v) DictI" SD_inv n for n
  by unfold_locales (auto simp: SD_defs Let_def split: if_splits)

subsection \<open>ConcurrentDict provides the interface\<close>

lemma CD_spread_less:
  assumes "table d \<noteq> []" and "length (table d) \<le> 2 ^ 32"
  shows "unat (CD_spread d k) < length (table d)"
proof (cases "length (table d) = 1")
  case False
  have "CD_spread d k \<le> of_nat (length (table d)) - 1"
    using False by (simp add: CD_spread_def word_and_le2)
  moreover have "unat (of_nat (length (table d)) - 1 :: 32 word) = length (table d) - 1"
  proof -
    have "(of_nat (length (table d)) - 1 :: 32 word) = of_nat (length (table d) - 1)"
      using assms(1) by (simp add: of_nat_diff Suc_le_eq)
    moreover have "length (table d) - 1 < 2 ^ 32" using assms by (cases "table d") auto
    ultimately show ?thesis by (simp add: unat_of_nat)
  qed
  moreover have "0 < length (table d)" using assms(1) by simp
  ultimately show ?thesis by (metis Suc_pred' le_imp_less_Suc word_le_nat_alt)
qed (simp add: CD_spread_def)

lemma CD_spread_cong: "length (table d) = length (table d') \<Longrightarrow> CD_spread d k = CD_spread d' k"
  by (simp add: CD_spread_def)

lemma CD_spread_upd [simp]:
  "CD_spread (CD_setShard d k s) k' = CD_spread d k'"
  "CD_spread (addCount d) k' = CD_spread d k'"
  "CD_spread (decreaseCount d) k' = CD_spread d k'"
  by (simp_all add: CD_spread_def CD_setShard_def addCount_def decreaseCount_def)

lemma CD_table_upd [simp]:
  "table (addCount d) = table d" "table (decreaseCount d) = table d"
  "table (CD_setShard d k s) = (table d)[unat (CD_spread d k) := s]"
  "cd_count (CD_setShard d k s) = cd_count d"
  "cd_count (addCount d) = cd_count d + 1" "cd_count (decreaseCount d) = cd_count d - 1"
  "shardCount (CD_setShard d k s) = shardCount d"
  "shardCount (addCount d) = shardCount d" "shardCount (decreaseCount d) = shardCount d"
  by (simp_all add: CD_setShard_def addCount_def decreaseCount_def)

lemma map_ok_concat:
  assumes "\<And>i. i < length T \<Longrightarrow> map_ok (T ! i) \<and> (\<forall>k \<in> fst ` set (T ! i). idx k = i)"
  shows "map_ok (concat T)"
  using assms
proof (induction T rule: rev_induct)
  case (snoc x T)
  have "\<And>i. i < length T \<Longrightarrow> map_ok (T ! i) \<and> (\<forall>k \<in> fst ` set (T ! i). idx k = i)"
    using snoc.prems by (metis length_append_singleton less_Suc_eq nth_append)
  then have T: "map_ok (concat T)" and i: "\<And>i k. i < length T \<Longrightarrow> k \<in> fst ` set (T ! i) \<Longrightarrow> idx k < length T"
    using snoc.IH by fastforce+
  have x: "map_ok x" "\<And>k. k \<in> fst ` set x \<Longrightarrow> idx k = length T"
    using snoc.prems [of "length T"] by auto
  have "k \<notin> fst ` set (concat T)" if "k \<in> fst ` set x" for k
  proof
    assume "k \<in> fst ` set (concat T)"
    then obtain t where "t \<in> set T" "k \<in> fst ` set t" by auto
    with i have "idx k < length T" by (metis in_set_conv_nth)
    with x(2) [OF that] show False by simp
  qed
  with T x(1) show ?case by (auto simp: map_ok_def)
qed simp

lemma CD_inv_entries: "CD_inv d \<Longrightarrow> map_ok (concat (table d))"
  by (rule map_ok_concat [where idx = "\<lambda>k. unat (CD_spread d k)"]) (simp add: CD_inv_def)

lemma CD_inv_index: "CD_inv d \<Longrightarrow> unat (CD_spread d k) < length (table d)"
  by (rule CD_spread_less) (auto simp: CD_inv_def)

lemma CD_inv_shard: "CD_inv d \<Longrightarrow> map_ok (CD_getShard d k)"
  using CD_inv_index by (auto simp: CD_inv_def CD_getShard_def)

lemma CD_lookup: "CD_inv d \<Longrightarrow> map_of (concat (table d)) k = map_of (CD_getShard d k) k"
proof -
  assume inv: "CD_inv d"
  have "map_of (concat (table d)) k = Some v \<longleftrightarrow> map_of (CD_getShard d k) k = Some v" for v
  proof -
    have "(k, v) \<in> set (concat (table d)) \<longleftrightarrow> (\<exists>i < length (table d). (k, v) \<in> set (table d ! i))"
      by (auto simp: in_set_conv_nth) (metis nth_mem)+
    also have "\<dots> \<longleftrightarrow> (k, v) \<in> set (CD_getShard d k)"
    proof -
      have "i = unat (CD_spread d k)" if "i < length (table d)" "(k, v) \<in> set (table d ! i)" for i
        using inv that by (force simp: CD_inv_def)
      then show ?thesis using CD_inv_index [OF inv] by (auto simp: CD_getShard_def)
    qed
    finally show ?thesis using map_ok_in_set [OF CD_inv_entries [OF inv]] map_ok_in_set [OF CD_inv_shard [OF inv]] by blast
  qed
  then show ?thesis by (metis not_Some_eq)
qed

text \<open>Replacing one shard by a map over keys of the same shard.\<close>

lemma CD_replace_shard:
  assumes inv: "CD_inv d" and ok: "map_ok s"
    and keys: "\<And>k'. k' \<in> fst ` set s \<Longrightarrow> CD_spread d k' = CD_spread d k"
    and table: "table d' = (table d)[unat (CD_spread d k) := s]"
    and sc: "shardCount d' = shardCount d"
    and cnt: "cd_count d' = cd_count d + of_nat (length s) - of_nat (length (CD_getShard d k))"
  shows "CD_inv d'"
    and "map_of (concat (table d')) k' =
      (if CD_spread d k' = CD_spread d k then map_of s k' else map_of (concat (table d)) k')"
proof -
  let ?i = "unat (CD_spread d k)"
  have i: "?i < length (table d)" by (rule CD_inv_index [OF inv])
  have spread: "CD_spread d' k = CD_spread d k" for k by (rule CD_spread_cong) (simp add: table)
  have "sum_list (map length (table d')) + length (table d ! ?i) = sum_list (map length (table d)) + length s"
    using i elem_le_sum_list [of ?i "map length (table d)"]
    by (simp add: table map_update sum_list_update)
  then have "(of_nat (sum_list (map length (table d'))) :: 32 word) + of_nat (length (table d ! ?i))
      = of_nat (sum_list (map length (table d))) + of_nat (length s)"
    by (metis of_nat_add)
  then have "cd_count d' = of_nat (sum_list (map length (table d')))"
    using inv by (simp add: cnt CD_getShard_def CD_inv_def algebra_simps)
  then show inv': "CD_inv d'"
    using inv ok keys i spread by (auto simp: CD_inv_def table sc nth_list_update)
  show "map_of (concat (table d')) k' =
      (if CD_spread d k' = CD_spread d k then map_of s k' else map_of (concat (table d)) k')"
    unfolding CD_lookup [OF inv'] CD_lookup [OF inv] CD_getShard_def spread
    using i by (auto simp: table nth_list_update word_unat_eq_iff)
qed

lemma CD_shard_keys:
  assumes "CD_inv d" and "k' \<in> fst ` set (CD_getShard d k)"
  shows "CD_spread d k' = CD_spread d k"
  using assms CD_inv_index [OF assms(1), of k] by (auto simp: CD_inv_def CD_getShard_def word_unat_eq_iff)

lemma CD_Put_law:
  assumes inv: "CD_inv d" and put: "CD_Put d k v = (d', n)"
  shows "CD_inv d' \<and> map_of (concat (table d')) = (map_of (concat (table d)))(k \<mapsto> v) \<and>
    n = (if map_of (concat (table d)) k = None then 1 else 0)"
proof -
  let ?s = "map_put k v (CD_getShard d k)"
  have keys: "\<And>k'. k' \<in> fst ` set ?s \<Longrightarrow> CD_spread d k' = CD_spread d k"
    using CD_shard_keys [OF inv] by (auto simp: fst_map_put)
  have "table d' = (table d)[unat (CD_spread d k) := ?s]"
    and "shardCount d' = shardCount d"
    and "cd_count d' = cd_count d + of_nat (length ?s) - of_nat (length (CD_getShard d k))"
    and n: "n = (if map_of (concat (table d)) k = None then 1 else 0)"
    using put by (auto simp: CD_Put_def Let_def length_map_put CD_lookup [OF inv] split: if_splits)
  note r = CD_replace_shard [OF inv map_ok_put [OF CD_inv_shard [OF inv]] keys this(1,2,3)]
  have "map_of (concat (table d')) k' = ((map_of (concat (table d)))(k \<mapsto> v)) k'" for k'
    using r(2) [of k'] by (auto simp: CD_lookup [OF inv] CD_getShard_def)
  with r(1) n show ?thesis by blast
qed

lemma CD_Remove_law:
  assumes inv: "CD_inv d" and rem: "CD_Remove d k = (d', r, n)"
  shows "CD_inv d' \<and> map_of (concat (table d')) = (map_of (concat (table d)))(k := None) \<and>
    r = map_of (concat (table d)) k \<and> n = (if map_of (concat (table d)) k = None then 0 else 1)"
proof (cases "map_of (CD_getShard d k) k")
  case None
  with rem inv show ?thesis by (auto simp: CD_Remove_def CD_lookup fun_upd_idem)
next
  case (Some v)
  let ?s = "map_del k (CD_getShard d k)"
  have ok: "map_ok ?s" by (simp add: CD_inv_shard [OF inv])
  have keys: "\<And>k'. k' \<in> fst ` set ?s \<Longrightarrow> CD_spread d k' = CD_spread d k"
    using CD_shard_keys [OF inv] by (auto simp: map_del_def)
  have "0 < length (CD_getShard d k)" using Some by (cases "CD_getShard d k") auto
  then have "table d' = (table d)[unat (CD_spread d k) := ?s]"
    and "shardCount d' = shardCount d"
    and "cd_count d' = cd_count d + of_nat (length ?s) - of_nat (length (CD_getShard d k))"
    and n: "n = 1" "r = Some v"
    using rem Some by (auto simp: CD_Remove_def length_map_del CD_inv_shard [OF inv] of_nat_diff Suc_le_eq)
  note r = CD_replace_shard [OF inv ok keys this(1,2,3)]
  have "map_of (concat (table d')) k' = ((map_of (concat (table d)))(k := None)) k'" for k'
    using r(2) [of k'] by (auto simp: CD_lookup [OF inv] CD_getShard_def)
  with r(1) n Some show ?thesis by (auto simp: CD_lookup [OF inv])
qed

subsection \<open>The table size is the next power of two\<close>

lemma smear_step:
  fixes x n :: int
  assumes "\<And>j. bit x j \<longleftrightarrow> (\<exists>i < s. bit n (j + i))"
  shows "bit (x OR drop_bit s x) j \<longleftrightarrow> (\<exists>i < 2 * s. bit n (j + i))"
proof -
  have "(\<exists>i < 2 * s. bit n (j + i)) \<longleftrightarrow> (\<exists>i < s. bit n (j + i)) \<or> (\<exists>i < s. bit n (j + s + i))"
    (is "?l \<longleftrightarrow> ?r")
  proof
    assume ?l
    then obtain i where i: "i < 2 * s" "bit n (j + i)" by blast
    show ?r
    proof (cases "i < s")
      case False
      with i have "i - s < s" "bit n (j + s + (i - s))" by auto
      then show ?thesis by blast
    qed (use i in blast)
  next
    assume ?r
    then show ?l
    proof
      assume "\<exists>i < s. bit n (j + s + i)"
      then obtain i where "i < s" "bit n (j + (s + i))" by (auto simp: add.assoc)
      then show ?l by (intro exI [of _ "s + i"]) simp
    next
      assume "\<exists>i < s. bit n (j + i)"
      then obtain i where "i < s" "bit n (j + i)" by blast
      then show ?l by (intro exI [of _ i]) simp
    qed
  qed
  then show ?thesis by (auto simp: bit_or_iff bit_drop_bit_eq assms add.commute add.left_commute)
qed

lemma smear:
  fixes n :: int
  shows "bit (let n = n OR drop_bit 1 n; n = n OR drop_bit 2 n; n = n OR drop_bit 4 n;
      n = n OR drop_bit 8 n in n OR drop_bit 16 n) j \<longleftrightarrow> (\<exists>i < 32. bit n (j + i))"
proof -
  have "\<And>j. bit n j \<longleftrightarrow> (\<exists>i < (1::nat). bit n (j + i))" by simp
  note s = smear_step [OF this] note s = smear_step [OF s] note s = smear_step [OF s]
  note s = smear_step [OF s] note s = smear_step [OF s]
  from s [of j] show ?thesis by (simp add: Let_def)
qed

lemma bit_of_interval:
  fixes n :: int
  assumes "2 ^ h \<le> n" and "n < 2 ^ Suc h"
  shows "bit n h" and "h < j \<Longrightarrow> \<not> bit n j"
proof -
  have "n = 2 ^ h + (n - 2 ^ h)" by simp
  moreover have "(n - 2 ^ h) div 2 ^ h = 0" using assms by (intro div_pos_pos_trivial) auto
  ultimately have "n div 2 ^ h = 1"
    using div_add_self1 [of "2 ^ h" "n - 2 ^ h"] by simp
  then show "bit n h" by (simp add: bit_iff_odd)
  assume "h < j"
  then have "(2::int) ^ Suc h \<le> 2 ^ j" by (intro power_increasing) auto
  with assms have "n div 2 ^ j = 0" by (intro div_pos_pos_trivial) (auto intro: order_trans [of 0 "2 ^ h"])
  then show "\<not> bit n j" by (simp add: bit_iff_odd)
qed

lemma computeCapacity_pow2:
  assumes "16 < p" and "p \<le> 2 ^ 32"
  shows "\<exists>h < 32. computeCapacity p = 2 ^ Suc h \<and> 2 ^ h < p \<and> p \<le> 2 ^ Suc h"
proof -
  obtain h where "(2::nat) ^ h \<le> nat (p - 1)" "nat (p - 1) < 2 ^ Suc h"
    using ex_power_ivl1 [of 2 "nat (p - 1)"] assms(1) by (auto simp: Suc_le_eq)
  then have h: "2 ^ h \<le> p - 1" "p - 1 < 2 ^ Suc h" using assms(1) by (auto simp: nat_less_iff le_nat_iff)
  have "(2::int) ^ h < 2 ^ 32" using h(1) assms by linarith
  then have h32: "h < 32" by (simp only: power_strict_increasing_iff)
  let ?n = "let n = (p - 1) OR drop_bit 1 (p - 1); n = n OR drop_bit 2 n; n = n OR drop_bit 4 n;
      n = n OR drop_bit 8 n in n OR drop_bit 16 n"
  have "bit ?n j \<longleftrightarrow> j < Suc h" for j
  proof
    assume "bit ?n j"
    then obtain i where "bit (p - 1) (j + i)" by (subst (asm) smear) auto
    with bit_of_interval(2) [OF h, of "j + i"] show "j < Suc h" by (meson less_Suc_eq_le not_less trans_le_add1)
  next
    assume "j < Suc h"
    with bit_of_interval(1) [OF h] h32 show "bit ?n j"
      by (subst smear) (intro exI [of _ "h - j"], auto)
  qed
  then have "?n = mask (Suc h)" by (intro bit_eqI) (simp only: bit_mask_iff, simp)
  then have n: "?n = 2 ^ Suc h - 1" by (simp only: mask_eq_exp_minus_1)
  have "computeCapacity p = (if ?n < 0 then 2 ^ 31 - 1 else wrap64 (?n + 1))"
    using assms(1) by (simp add: computeCapacity_def Let_def)
  moreover have "int64_range (2 ^ Suc h)"
  proof -
    have "(2::int) ^ Suc h < 2 ^ 63" using h32 by (intro power_strict_increasing) auto
    moreover have "- (2 ^ 63) \<le> (2::int) ^ Suc h" by (rule order_trans [of _ 0]) simp_all
    ultimately show ?thesis by (simp only: int64_range_def simp_thms)
  qed
  moreover have "\<not> (2::int) ^ Suc h - 1 < 0" using one_le_power [of "2::int" "Suc h"] by linarith
  ultimately have "computeCapacity p = 2 ^ Suc h" unfolding n by simp
  with h h32 show ?thesis by auto
qed

lemma computeCapacity_range:
  assumes "p \<le> 2 ^ 32"
  shows "16 \<le> computeCapacity p" and "computeCapacity p \<le> 2 ^ 32"
proof -
  have "16 \<le> computeCapacity p \<and> computeCapacity p \<le> 2 ^ 32"
  proof (cases "16 < p")
    case True
    then obtain h where "h < 32" "computeCapacity p = 2 ^ Suc h" "p \<le> 2 ^ Suc h"
      using computeCapacity_pow2 [OF _ assms] by blast
    with True show ?thesis using power_increasing [of "Suc h" 32 "2::int"] by simp
  qed (simp add: computeCapacity_def)
  then show "16 \<le> computeCapacity p" "computeCapacity p \<le> 2 ^ 32" by simp_all
qed

lemma CD_inv_Make: "sc \<le> 2 ^ 32 \<Longrightarrow> CD_inv (MakeConcurrent sc)"
  using computeCapacity_range [of sc]
  by (auto simp: CD_inv_def MakeConcurrent_def Let_def sum_list_replicate nat_le_iff)

lemma CD_Make_entries: "concat (table (MakeConcurrent sc)) = []"
  by (auto simp: MakeConcurrent_def Let_def)

lemma sint_of_small: "n < 2 ^ 31 \<Longrightarrow> sint (of_nat n :: 32 word) = int n"
  by (simp add: signed_of_nat signed_take_bit_int_eq_self)

lemma CD_Len_exact: "CD_inv d \<Longrightarrow> length (concat (table d)) < 2 ^ 31 \<Longrightarrow>
    CD_Len d = int (length (concat (table d)))"
  by (simp add: CD_Len_def CD_inv_def length_concat sint_of_small)

lemmas CD_fields = ConcurrentDictI_def CD_PutIfAbsent_def CD_PutIfExists_def CD_Get_def

lemma addCount_setShard: "addCount (CD_setShard d k s) = CD_setShard (addCount d) k s"
  by (simp add: addCount_def CD_setShard_def CD_spread_def)

lemma CD_inv_Clear: "CD_inv d \<Longrightarrow> CD_inv (MakeConcurrent (shardCount d))"
  by (rule CD_inv_Make) (simp add: CD_inv_def)

lemma CD_dict: "sc \<le> 2 ^ 32 \<Longrightarrow> dict (ConcurrentDictI sc) CD_inv (2 ^ 31)"
proof (unfold_locales, goal_cases)
  case (6 d k v d' n)
  then show ?case using CD_Put_law [of d k v d' n] by (simp add: CD_fields)
next
  case (9 d k d' r n)
  then show ?case using CD_Remove_law [of d k d' r n] by (simp add: CD_fields)
qed (auto simp: CD_fields CD_inv_Make CD_Make_entries CD_inv_entries CD_lookup CD_Len_exact CD_Put_def
    Let_def addCount_setShard CD_Clear_def CD_inv_Clear)

interpretation cd_data: dict "ConcurrentDictI 65536" CD_inv "2 ^ 31"
  by (rule CD_dict) simp

interpretation cd_ttl: dict "ConcurrentDictI 1024" CD_inv "2 ^ 31"
  by (rule CD_dict) simp

lemma CD_WithLock [simp]:
  "CD_GetWithLock = CD_Get" "CD_PutWithLock = CD_Put" "CD_RemoveWithLock = CD_Remove"
  "CD_PutIfAbsentWithLock = CD_PutIfAbsent" "CD_PutIfExistsWithLock = CD_PutIfExists"
  by (simp_all add: fun_eq_iff CD_GetWithLock_def CD_Get_def CD_PutWithLock_def CD_Put_def
      CD_RemoveWithLock_def CD_Remove_def CD_PutIfAbsentWithLock_def CD_PutIfAbsent_def
      CD_PutIfExistsWithLock_def CD_PutIfExists_def)

subsection \<open>Traversals\<close>

lemma range_map_append:
  "range_map f (xs @ ys) s = (case range_map f xs s of (True, s') \<Rightarrow> range_map f ys s' | r \<Rightarrow> r)"
  by (induction f xs s rule: range_map.induct) (auto split: prod.splits bool.splits)

lemma CD_ForEach_entries: "CD_ForEach d f s = snd (range_map f (concat (table d)) s)"
proof -
  have "range_shards f T s = snd (range_map f (concat T) s)" for T
    by (induction f T s rule: range_shards.induct)
       (auto simp: range_map_append split: prod.splits bool.splits)
  then show ?thesis by (simp add: CD_ForEach_def)
qed

lemma range_map_True:
  assumes "\<And>s k v. f s k v = (True, g s k v)"
  shows "range_map f kvs s = (True, foldl (\<lambda>s (k, v). g s k v) s kvs)"
  by (induction kvs arbitrary: s) (auto simp: assms)

lemma fill_keys:
  "foldl (\<lambda>s (k, v). fill_key s k) (ks @ replicate (length kvs) [], length ks) kvs
    = (ks @ map fst kvs, length ks + length kvs)"
proof (induction kvs arbitrary: ks)
  case (Cons kv kvs)
  obtain k v where "kv = (k, v)" by (cases kv)
  with Cons.IH [of "ks @ [k]"] show ?case by (simp add: list_update_append)
qed simp

lemma CD_Keys_exact:
  assumes "CD_inv d" and "length (concat (table d)) < 2 ^ 31"
  shows "CD_Keys d = Some (map fst (concat (table d)))"
  using fill_keys [of "[]" "concat (table d)"] assms(2)
  by (simp add: CD_Keys_def CD_Len_exact [OF assms] CD_ForEach_entries make_ok_def maxAlloc_def
      range_map_True [where g = "\<lambda>s k v. fill_key s k"])

subsection \<open>Properties\<close>

text \<open>
  C6: a dictionary with shards is a map. Whatever calls a client makes on a fresh
  \<^verbatim>\<open>ConcurrentDict\<close> of any shard count up to \<^verbatim>\<open>2^32\<close>, every answer (values, result
  counts, lengths) is the one a plain partial map gives, as long as there are at most
  \<^verbatim>\<open>2^31\<close> calls (the counter has 32 bits).
\<close>

theorem ConcurrentDict_refines_map:
  assumes "sc \<le> 2 ^ 32" and "length cs \<le> 2 ^ 31"
  shows "snd (dict_run (ConcurrentDictI sc) (MakeConcurrent sc) cs) = snd (spec_run Map.empty cs)"
  using dict.fresh_run_refines [OF CD_dict [OF assms(1)] assms(2)] by (simp add: ConcurrentDictI_def)

theorem ConcurrentDict_refines_map_witness:
  "snd (dict_run (ConcurrentDictI 1) (MakeConcurrent 1)
     [OpPut ''a'' (1::int), OpPutIfAbsent ''a'' 2, OpGet ''a'', OpRemove ''a'', OpLen])
   = [ANum 1, ANum 0, AVal (Some 1), ABoth (Some 1) 1, ANum 0]"
  using ConcurrentDict_refines_map [of 1 "[OpPut ''a'' (1::int), OpPutIfAbsent ''a'' 2, OpGet ''a'',
    OpRemove ''a'', OpLen]"] by simp



text \<open>
  C31: on every reachable dictionary \<^verbatim>\<open>Keys\<close> returns each key exactly once: the slice allocated
  from the counter is filled exactly, without spare cells and without appending.
\<close>

theorem CD_Keys_complete:
  assumes "CD_inv d" and "length (concat (table d)) < 2 ^ 31"
  shows "\<exists>ks. CD_Keys d = Some ks \<and> distinct ks \<and> set ks = {k. CD_Get d k \<noteq> None} \<and>
    int (length ks) = CD_Len d"
proof -
  have "map_ok (concat (table d))" by (rule CD_inv_entries [OF assms(1)])
  moreover have "set (map fst (concat (table d))) = {k. CD_Get d k \<noteq> None}"
    unfolding CD_Get_def CD_lookup [OF assms(1), symmetric] using map_of_dom [of "concat (table d)"] by (simp only: list.set_map dom_def)
  ultimately show ?thesis
    using CD_Keys_exact [OF assms] CD_Len_exact [OF assms] by (simp add: map_ok_def)
qed

theorem CD_Keys_complete_witness:
  "\<exists>ks. CD_Keys (fst (CD_Put (MakeConcurrent 1) ''k'' (7::int))) = Some ks \<and> distinct ks \<and>
     set ks = {k. CD_Get (fst (CD_Put (MakeConcurrent 1) ''k'' (7::int))) k \<noteq> None} \<and>
     int (length ks) = CD_Len (fst (CD_Put (MakeConcurrent 1) ''k'' (7::int)))"
  by (rule CD_Keys_complete)
     (auto simp: CD_Put_def MakeConcurrent_def CD_getShard_def CD_spread_def CD_setShard_def addCount_def
       CD_inv_def map_ok_def)

end
