(* ===== verification/LockMap.thy ===== *)
theory LockMap
  imports Dict
begin

unbundle bit_operations_syntax

text \<open>
  The key locks: the lock table of \<^verbatim>\<open>datastruct/lock\<close> and the shard mutexes of
  \<^verbatim>\<open>ConcurrentDict\<close>, which follow the same protocol. A locking function is the sequence of
  mutex calls it makes; goroutines run such sequences concurrently over a table of
  \<^verbatim>\<open>sync.RWMutex\<close>, whose steps follow Go's implementation: a writer first claims the mutex, from
  then on no new reader gets in, and it enters when the active readers have left.
\<close>

datatype lock_call = MLock "32 word" | MRLock "32 word" | MUnlock "32 word" | MRUnlock "32 word"

definition Locks_spread :: "nat \<Rightarrow> 32 word \<Rightarrow> 32 word" where
  "Locks_spread tableSize hashCode = (of_nat tableSize - 1) AND hashCode"

definition lock_index :: "nat \<Rightarrow> string \<Rightarrow> 32 word" where
  "lock_index tableSize key = Locks_spread tableSize (fnv32 key)"

text \<open>
  The distinct indices of the keys in ascending order, or in descending order. The code
  collects them in a map and sorts its keys, so the traversal order of the map has no influence.
\<close>

definition toLockIndices :: "(string \<Rightarrow> 32 word) \<Rightarrow> string list \<Rightarrow> bool \<Rightarrow> 32 word list" where
  "toLockIndices spread keys reverse =
     (let indices = sort (remdups (map spread keys)) in if \<not> reverse then indices else rev indices)"

definition RWLocks :: "(string \<Rightarrow> 32 word) \<Rightarrow> string list \<Rightarrow> string list \<Rightarrow> lock_call list" where
  "RWLocks spread writeKeys readKeys =
     map (\<lambda>index. if index \<in> set (map spread writeKeys) then MLock index else MRLock index)
       (toLockIndices spread (writeKeys @ readKeys) False)"

definition RWUnLocks :: "(string \<Rightarrow> 32 word) \<Rightarrow> string list \<Rightarrow> string list \<Rightarrow> lock_call list" where
  "RWUnLocks spread writeKeys readKeys =
     map (\<lambda>index. if index \<in> set (map spread writeKeys) then MUnlock index else MRUnlock index)
       (toLockIndices spread (writeKeys @ readKeys) True)"

definition Locks_Locks :: "nat \<Rightarrow> string list \<Rightarrow> lock_call list" where
  "Locks_Locks n keys = map MLock (toLockIndices (lock_index n) keys False)"

definition Locks_RLocks :: "nat \<Rightarrow> string list \<Rightarrow> lock_call list" where
  "Locks_RLocks n keys = map MRLock (toLockIndices (lock_index n) keys False)"

definition Locks_UnLocks :: "nat \<Rightarrow> string list \<Rightarrow> lock_call list" where
  "Locks_UnLocks n keys = map MUnlock (toLockIndices (lock_index n) keys True)"

definition Locks_RUnLocks :: "nat \<Rightarrow> string list \<Rightarrow> lock_call list" where
  "Locks_RUnLocks n keys = map MRUnlock (toLockIndices (lock_index n) keys True)"

definition Locks_Lock :: "nat \<Rightarrow> string \<Rightarrow> lock_call list" where
  "Locks_Lock n key = [MLock (lock_index n key)]"

definition Locks_RLock :: "nat \<Rightarrow> string \<Rightarrow> lock_call list" where
  "Locks_RLock n key = [MRLock (lock_index n key)]"

definition Locks_UnLock :: "nat \<Rightarrow> string \<Rightarrow> lock_call list" where
  "Locks_UnLock n key = [MUnlock (lock_index n key)]"

definition Locks_RUnLock :: "nat \<Rightarrow> string \<Rightarrow> lock_call list" where
  "Locks_RUnLock n key = [MRUnlock (lock_index n key)]"

subsection \<open>Goroutines over a table of mutexes\<close>

text \<open>
  \<open>calls g\<close> are the mutex calls goroutine \<open>g\<close> still has to make; of mutex \<open>i\<close>, \<open>claim i\<close> is the
  writer that has claimed it, \<open>owner i\<close> the writer that is inside, \<open>readers i\<close> the readers inside.
\<close>

record lock_state =
  calls :: "nat \<Rightarrow> lock_call list"
  claim :: "32 word \<Rightarrow> nat option"
  owner :: "32 word \<Rightarrow> nat option"
  readers :: "32 word \<Rightarrow> nat set"

inductive lock_step :: "lock_state \<Rightarrow> lock_state \<Rightarrow> bool" where
  claim: "calls s g = MLock i # p \<Longrightarrow> claim s i = None \<Longrightarrow>
    lock_step s (s\<lparr>claim := (claim s)(i := Some g)\<rparr>)"
| enter: "calls s g = MLock i # p \<Longrightarrow> claim s i = Some g \<Longrightarrow> readers s i = {} \<Longrightarrow>
    lock_step s (s\<lparr>calls := (calls s)(g := p), owner := (owner s)(i := Some g)\<rparr>)"
| rlock: "calls s g = MRLock i # p \<Longrightarrow> claim s i = None \<Longrightarrow>
    lock_step s (s\<lparr>calls := (calls s)(g := p), readers := (readers s)(i := insert g (readers s i))\<rparr>)"
| unlock: "calls s g = MUnlock i # p \<Longrightarrow> owner s i = Some g \<Longrightarrow>
    lock_step s (s\<lparr>calls := (calls s)(g := p), claim := (claim s)(i := None), owner := (owner s)(i := None)\<rparr>)"
| runlock: "calls s g = MRUnlock i # p \<Longrightarrow> g \<in> readers s i \<Longrightarrow>
    lock_step s (s\<lparr>calls := (calls s)(g := p), readers := (readers s)(i := readers s i - {g})\<rparr>)"

inductive_cases lock_stepE: "lock_step s t"

text \<open>
  The server's goroutines: each executes a list of commands, each command locking its write and
  read keys before its body and unlocking them after it, as \<^verbatim>\<open>execNormalCommand\<close> does.
\<close>

type_synonym lock_work = "nat \<Rightarrow> (string list \<times> string list) list"

definition command_calls :: "(string \<Rightarrow> 32 word) \<Rightarrow> string list \<times> string list \<Rightarrow> lock_call list" where
  "command_calls spread = (\<lambda>(w, r). RWLocks spread w r @ RWUnLocks spread w r)"

definition lock_init :: "(string \<Rightarrow> 32 word) \<Rightarrow> lock_work \<Rightarrow> lock_state" where
  "lock_init spread work = \<lparr>calls = (\<lambda>g. concat (map (command_calls spread) (work g))),
     claim = (\<lambda>i. None), owner = (\<lambda>i. None), readers = (\<lambda>i. {})\<rparr>"

inductive lock_reach :: "(string \<Rightarrow> 32 word) \<Rightarrow> lock_work \<Rightarrow> lock_state \<Rightarrow> bool" for spread work where
  init: "lock_reach spread work (lock_init spread work)"
| step: "lock_reach spread work s \<Longrightarrow> lock_step s t \<Longrightarrow> lock_reach spread work t"

section \<open>Lemmas\<close>

lemma toLockIndices_set [simp]: "set (toLockIndices sp ks b) = sp ` set ks"
  by (simp add: toLockIndices_def Let_def)

lemma toLockIndices_rev: "toLockIndices sp ks True = rev (toLockIndices sp ks False)"
  by (simp add: toLockIndices_def)

lemma toLockIndices_sorted: "sorted_wrt (<) (toLockIndices sp ks False)"
  by (simp add: toLockIndices_def strict_sorted_iff)

text \<open>A set of locks to take, as pairs of an index and whether it is taken for writing.\<close>

fun acq :: "32 word \<times> bool \<Rightarrow> lock_call" where
  "acq (i, w) = (if w then MLock i else MRLock i)"

fun rel :: "32 word \<times> bool \<Rightarrow> lock_call" where
  "rel (i, w) = (if w then MUnlock i else MRUnlock i)"

lemma acq_rel_inj [simp]:
  "acq x \<noteq> rel y" "rel y \<noteq> acq x" "acq x = acq y \<longleftrightarrow> x = y" "rel x = rel y \<longleftrightarrow> x = y"
  by (cases x; cases y; simp)+

lemma acq_eq [simp]:
  "acq x = MLock i \<longleftrightarrow> x = (i, True)" "acq x = MRLock i \<longleftrightarrow> x = (i, False)"
  "acq x \<noteq> MUnlock i" "acq x \<noteq> MRUnlock i"
  by (cases x; simp)+

lemma rel_eq [simp]:
  "rel x = MUnlock i \<longleftrightarrow> x = (i, True)" "rel x = MRUnlock i \<longleftrightarrow> x = (i, False)"
  "rel x \<noteq> MLock i" "rel x \<noteq> MRLock i"
  by (cases x; simp)+

definition lockset :: "(string \<Rightarrow> 32 word) \<Rightarrow> string list \<Rightarrow> string list \<Rightarrow> (32 word \<times> bool) list" where
  "lockset sp w r = map (\<lambda>i. (i, i \<in> sp ` set w)) (toLockIndices sp (w @ r) False)"

lemma RWLocks_acq: "RWLocks sp w r = map acq (lockset sp w r)"
  by (simp add: RWLocks_def lockset_def)

lemma RWUnLocks_rel: "RWUnLocks sp w r = map rel (rev (lockset sp w r))"
  by (simp add: RWUnLocks_def lockset_def toLockIndices_rev rev_map)

definition locks_sorted :: "(32 word \<times> bool) list \<Rightarrow> bool" where
  "locks_sorted L \<longleftrightarrow> sorted_wrt (<) (map fst L)"

lemma lockset_sorted: "locks_sorted (lockset sp w r)"
  by (simp add: locks_sorted_def lockset_def comp_def toLockIndices_sorted)

lemma lockset_write: "k \<in> set w \<Longrightarrow> (sp k, True) \<in> set (lockset sp w r)"
  by (auto simp: lockset_def)

lemma lockset_any: "k \<in> set w \<union> set r \<Longrightarrow> \<exists>b. (sp k, b) \<in> set (lockset sp w r)"
  by (auto simp: lockset_def)

text \<open>The calls of a list of commands, one section of acquisitions and releases after another.\<close>

fun sections :: "(32 word \<times> bool) list list \<Rightarrow> lock_call list" where
  "sections [] = []"
| "sections (L # Ls) = map acq L @ map rel (rev L) @ sections Ls"

lemma command_sections: "concat (map (command_calls sp) cs) = sections (map (\<lambda>(w, r). lockset sp w r) cs)"
  by (induction cs) (auto simp: command_calls_def RWLocks_acq RWUnLocks_rel)

lemma sections_not_rel: "sections Ls \<noteq> rel x # p"
proof (induction Ls)
  case (Cons L Ls)
  then show ?case by (cases L) auto
qed simp

subsection \<open>The invariant\<close>

text \<open>
  Goroutine \<open>g\<close> holds exactly the locks \<open>H\<close>, still has to take \<open>A\<close> of its current command, all
  of them after \<open>H\<close> in the order of the indices, and then runs the commands \<open>Ls\<close>. A mutex it has
  claimed is one it owns or the next one it takes.
\<close>

definition g_inv :: "lock_state \<Rightarrow> nat \<Rightarrow> (32 word \<times> bool) list \<Rightarrow> (32 word \<times> bool) list
    \<Rightarrow> (32 word \<times> bool) list list \<Rightarrow> bool" where
  "g_inv s g H A Ls \<longleftrightarrow>
     calls s g = map acq A @ map rel (rev (H @ A)) @ sections Ls \<and>
     locks_sorted (H @ A) \<and> (\<forall>L \<in> set Ls. locks_sorted L) \<and>
     (\<forall>i. owner s i = Some g \<longleftrightarrow> (i, True) \<in> set H) \<and>
     (\<forall>i. g \<in> readers s i \<longleftrightarrow> (i, False) \<in> set H) \<and>
     (\<forall>i. claim s i = Some g \<longrightarrow> owner s i = Some g \<or> (\<exists>A'. A = (i, True) # A'))"

definition lock_inv :: "lock_state \<Rightarrow> bool" where
  "lock_inv s \<longleftrightarrow> (\<forall>g. \<exists>H A Ls. g_inv s g H A Ls) \<and>
     (\<forall>i g. owner s i = Some g \<longrightarrow> claim s i = Some g \<and> readers s i = {})"

lemma lock_inv_owner: "lock_inv s \<Longrightarrow> owner s i = Some g \<Longrightarrow> claim s i = Some g \<and> readers s i = {}"
  by (simp add: lock_inv_def)

lemma lock_inv_init: "lock_inv (lock_init sp work)"
proof -
  have "g_inv (lock_init sp work) g [] [] (map (\<lambda>(w, r). lockset sp w r) (work g))" for g
    by (auto simp: g_inv_def lock_init_def command_sections locks_sorted_def [of "[]"] lockset_sorted)
  then show ?thesis by (auto simp: lock_inv_def lock_init_def)
qed

lemma sections_acq:
  "sections Ls = acq x # p \<Longrightarrow> \<exists>A Ls'. sections Ls = sections ((x # A) # Ls') \<and> x # A \<in> set Ls \<and> set Ls' \<subseteq> set Ls"
proof (induction Ls)
  case (Cons L Ls)
  show ?case
  proof (cases L)
    case Nil
    with Cons have "\<exists>A Ls'. sections Ls = sections ((x # A) # Ls') \<and> x # A \<in> set Ls \<and> set Ls' \<subseteq> set Ls"
      by simp
    with Nil show ?thesis by auto
  next
    case (Cons y A)
    with Cons.prems have "y = x" by simp
    with Cons show ?thesis by (intro exI [of _ A] exI [of _ Ls]) auto
  qed
qed simp

lemma g_inv_acq:
  assumes "lock_inv s" and "calls s g = acq x # p"
  obtains H A Ls where "g_inv s g H (x # A) Ls" "p = map acq A @ map rel (rev (H @ x # A)) @ sections Ls"
proof -
  obtain H A Ls where inv: "g_inv s g H A Ls" using assms(1) unfolding lock_inv_def by blast
  show ?thesis
  proof (cases A)
    case (Cons y A')
    with inv assms(2) show ?thesis by (intro that [of H A' Ls]) (auto simp: g_inv_def)
  next
    case Nil
    have "H = []" using inv assms(2) Nil by (cases H rule: rev_cases) (auto simp: g_inv_def)
    with Nil inv assms(2) have "sections Ls = acq x # p" by (simp add: g_inv_def)
    then obtain A' Ls' where "sections Ls = sections ((x # A') # Ls')" "x # A' \<in> set Ls" "set Ls' \<subseteq> set Ls"
      using sections_acq by blast
    with Nil inv assms(2) \<open>H = []\<close> show ?thesis
      by (intro that [of "[]" A' Ls']) (auto simp: g_inv_def)
  qed
qed

lemma g_inv_rel:
  assumes "lock_inv s" and "calls s g = rel x # p"
  obtains H Ls where "g_inv s g (H @ [x]) [] Ls" "p = map rel (rev H) @ sections Ls"
proof -
  obtain H A Ls where inv: "g_inv s g H A Ls" using assms(1) unfolding lock_inv_def by blast
  have A: "A = []" using inv assms(2) by (cases A) (auto simp: g_inv_def)
  with inv assms(2) have "map rel (rev H) @ sections Ls = rel x # p" by (simp add: g_inv_def)
  then obtain H' where "H = H' @ [x]" using sections_not_rel by (cases H rule: rev_cases) auto
  with A inv assms(2) show ?thesis by (intro that [of H' Ls]) (auto simp: g_inv_def)
qed

lemma locks_sorted_snoc: "locks_sorted (H @ [(i, w)]) \<Longrightarrow> (i, b) \<notin> set H \<and> locks_sorted H"
  by (force simp: locks_sorted_def sorted_wrt_append)

lemma locks_sorted_less: "locks_sorted (H @ (j, w) # A) \<Longrightarrow> (i, b) \<in> set H \<Longrightarrow> i < j"
  unfolding locks_sorted_def map_append sorted_wrt_append by (metis fst_conv image_eqI list.set_intros(1) list.set_map list.simps(9))

lemma g_inv_cong:
  assumes "g_inv s h H A Ls" and "calls t h = calls s h"
    and "\<And>j. owner t j = Some h \<longleftrightarrow> owner s j = Some h"
    and "\<And>j. h \<in> readers t j \<longleftrightarrow> h \<in> readers s j"
    and "\<And>j. claim t j = Some h \<Longrightarrow> claim s j = Some h"
  shows "g_inv t h H A Ls"
  using assms(1) unfolding g_inv_def assms(2,3,4) using assms(5) by blast

lemma lock_inv_stepI:
  assumes "lock_inv s" and "g_inv t g H A Ls"
    and "\<And>h. h \<noteq> g \<Longrightarrow> calls t h = calls s h"
    and "\<And>h j. h \<noteq> g \<Longrightarrow> owner t j = Some h \<longleftrightarrow> owner s j = Some h"
    and "\<And>h j. h \<noteq> g \<Longrightarrow> h \<in> readers t j \<longleftrightarrow> h \<in> readers s j"
    and "\<And>h j. h \<noteq> g \<Longrightarrow> claim t j = Some h \<Longrightarrow> claim s j = Some h"
    and "\<And>i h. owner t i = Some h \<Longrightarrow> claim t i = Some h \<and> readers t i = {}"
  shows "lock_inv t"
proof -
  have "\<exists>H A Ls. g_inv t h H A Ls" for h
  proof (cases "h = g")
    case False
    obtain H A Ls where "g_inv s h H A Ls" using assms(1) unfolding lock_inv_def by blast
    from g_inv_cong [OF this assms(3-6) [OF False]] show ?thesis by blast
  qed (use assms(2) in blast)
  with assms(7) show ?thesis unfolding lock_inv_def by blast
qed

text \<open>Every step keeps the invariant: the goroutine that moves first, then everyone else.\<close>

lemma lock_step_inv:
  assumes "lock_step s t" and inv: "lock_inv s"
  shows "lock_inv t"
proof -
  have own: "claim s i = Some g" "readers s i = {}" if "owner s i = Some g" for i g
    using lock_inv_owner [OF inv that] by simp_all
  show ?thesis using assms(1)
  proof (cases rule: lock_step.cases)
    case (claim g i p)
    from claim have "calls s g = acq (i, True) # p" by simp
    from g_inv_acq [OF inv this] obtain H A Ls where g: "g_inv s g H ((i, True) # A) Ls"
      and p: "p = map acq A @ map rel (rev (H @ (i, True) # A)) @ sections Ls" .
    have t: "g_inv t g H ((i, True) # A) Ls" using g p claim by (auto simp: g_inv_def)
    show ?thesis
      by (rule lock_inv_stepI [OF inv t]) (use claim own in \<open>auto split: if_splits\<close>)
  next
    case (enter g i p)
    from enter have "calls s g = acq (i, True) # p" by simp
    from g_inv_acq [OF inv this] obtain H A Ls where g: "g_inv s g H ((i, True) # A) Ls"
      and p: "p = map acq A @ map rel (rev (H @ (i, True) # A)) @ sections Ls" .
    have t: "g_inv t g (H @ [(i, True)]) A Ls" using g p enter by (auto simp: g_inv_def)
    show ?thesis
      by (rule lock_inv_stepI [OF inv t]) (use enter own in \<open>auto split: if_splits\<close>)
  next
    case (rlock g i p)
    from rlock have "calls s g = acq (i, False) # p" by simp
    from g_inv_acq [OF inv this] obtain H A Ls where g: "g_inv s g H ((i, False) # A) Ls"
      and p: "p = map acq A @ map rel (rev (H @ (i, False) # A)) @ sections Ls" .
    have t: "g_inv t g (H @ [(i, False)]) A Ls" using g p rlock by (auto simp: g_inv_def)
    show ?thesis
      by (rule lock_inv_stepI [OF inv t]) (use rlock own in \<open>auto split: if_splits\<close>)
  next
    case (unlock g i p)
    from unlock have "calls s g = rel (i, True) # p" by simp
    from g_inv_rel [OF inv this] obtain H Ls where g: "g_inv s g (H @ [(i, True)]) [] Ls"
      and p: "p = map rel (rev H) @ sections Ls" .
    have "(i, b) \<notin> set H \<and> locks_sorted H" for b
      using g locks_sorted_snoc by (auto simp: g_inv_def)
    then have t: "g_inv t g H [] Ls" using g p unlock by (auto simp: g_inv_def)
    show ?thesis
      by (rule lock_inv_stepI [OF inv t]) (use unlock own in \<open>auto split: if_splits\<close>)
  next
    case (runlock g i p)
    from runlock have "calls s g = rel (i, False) # p" by simp
    from g_inv_rel [OF inv this] obtain H Ls where g: "g_inv s g (H @ [(i, False)]) [] Ls"
      and p: "p = map rel (rev H) @ sections Ls" .
    have "(i, b) \<notin> set H \<and> locks_sorted H" for b
      using g locks_sorted_snoc by (auto simp: g_inv_def)
    then have t: "g_inv t g H [] Ls" using g p runlock by (auto simp: g_inv_def)
    show ?thesis
      by (rule lock_inv_stepI [OF inv t]) (use runlock own in \<open>auto split: if_splits\<close>)
  qed
qed

lemma lock_reach_inv: "lock_reach sp work s \<Longrightarrow> lock_inv s"
  by (induction rule: lock_reach.induct) (auto intro: lock_inv_init lock_step_inv)

subsection \<open>No deadlock\<close>

definition waits :: "lock_state \<Rightarrow> nat \<Rightarrow> 32 word \<Rightarrow> bool" where
  "waits s g i \<longleftrightarrow> (\<exists>w p. calls s g = acq (i, w) # p)"

text \<open>A goroutine that holds a mutex in a stuck state waits for one with a greater index.\<close>

lemma holder_waits:
  assumes inv: "lock_inv s" and stuck: "\<And>t. \<not> lock_step s t"
    and holds: "owner s i = Some g \<or> g \<in> readers s i"
  shows "\<exists>j > i. waits s g j"
proof -
  obtain H A Ls where g: "g_inv s g H A Ls" using inv unfolding lock_inv_def by blast
  obtain b where b: "(i, b) \<in> set H" using holds g by (auto simp: g_inv_def)
  show ?thesis
  proof (cases A)
    case Nil
    from b obtain H' x where H: "H = H' @ [x]" by (cases H rule: rev_cases) auto
    obtain j w where x: "x = (j, w)" by (cases x)
    have c: "calls s g = rel (j, w) # map rel (rev H') @ sections Ls"
      and "owner s j = Some g \<longleftrightarrow> (j, True) \<in> set H" and "g \<in> readers s j \<longleftrightarrow> (j, False) \<in> set H"
      using g Nil H x by (auto simp: g_inv_def)
    then have "\<exists>t. lock_step s t"
      using H x by (cases w) (auto intro: lock_step.unlock lock_step.runlock)
    with stuck show ?thesis by blast
  next
    case (Cons x A')
    obtain j w where x: "x = (j, w)" by (cases x)
    have "calls s g = acq (j, w) # map acq A' @ map rel (rev (H @ A)) @ sections Ls"
      and "locks_sorted (H @ x # A')"
      using g Cons x by (auto simp: g_inv_def)
    moreover from this(2) have "i < j" using locks_sorted_less b x by blast
    ultimately show ?thesis unfolding waits_def by blast
  qed
qed

lemma waiter_blocked:
  assumes inv: "lock_inv s" and stuck: "\<And>t. \<not> lock_step s t" and "waits s g i"
  shows "\<exists>h. owner s i = Some h \<or> h \<in> readers s i"
proof -
  obtain w p where c: "calls s g = acq (i, w) # p" using assms(3) by (auto simp: waits_def)
  have "claim s i \<noteq> None"
    using c stuck lock_step.claim [of s g i p] lock_step.rlock [of s g i p] by (cases w) auto
  then obtain h where h: "claim s i = Some h" by blast
  show ?thesis
  proof (cases "owner s i = Some h")
    case False
    obtain H A Ls where "g_inv s h H A Ls" using inv unfolding lock_inv_def by blast
    with h False obtain q where "calls s h = MLock i # q" by (auto simp: g_inv_def)
    with h stuck lock_step.enter [of s h i q] have "readers s i \<noteq> {}" by blast
    then show ?thesis by blast
  qed blast
qed

lemma some_waits:
  assumes inv: "lock_inv s" and stuck: "\<And>t. \<not> lock_step s t" and "calls s g \<noteq> []"
  shows "\<exists>i. waits s g i"
proof -
  obtain c p where c: "calls s g = c # p" using assms(3) by (cases "calls s g") auto
  show ?thesis
  proof (cases c)
    case (MUnlock i)
    with c have "calls s g = rel (i, True) # p" by simp
    from g_inv_rel [OF inv this] obtain H Ls where "g_inv s g (H @ [(i, True)]) [] Ls" .
    then have "owner s i = Some g" by (simp add: g_inv_def)
    with holder_waits [OF inv stuck] show ?thesis by blast
  next
    case (MRUnlock i)
    with c have "calls s g = rel (i, False) # p" by simp
    from g_inv_rel [OF inv this] obtain H Ls where "g_inv s g (H @ [(i, False)]) [] Ls" .
    then have "g \<in> readers s i" by (simp add: g_inv_def)
    with holder_waits [OF inv stuck] show ?thesis by blast
  next
    case (MLock i)
    with c have "calls s g = acq (i, True) # p" by simp
    then show ?thesis unfolding waits_def by blast
  next
    case (MRLock i)
    with c have "calls s g = acq (i, False) # p" by simp
    then show ?thesis unfolding waits_def by blast
  qed
qed

lemma lock_progress:
  assumes inv: "lock_inv s" and "calls s g \<noteq> []"
  shows "\<exists>t. lock_step s t"
proof (rule ccontr)
  assume "\<not> ?thesis"
  then have stuck: "\<And>t. \<not> lock_step s t" by blast
  let ?W = "{i. \<exists>g. waits s g i}"
  have "?W \<noteq> {}" using some_waits [OF inv stuck assms(2)] by blast
  then have "Max ?W \<in> ?W" by (intro Max_in finite)
  then obtain h where "owner s (Max ?W) = Some h \<or> h \<in> readers s (Max ?W)"
    using waiter_blocked [OF inv stuck] by blast
  from holder_waits [OF inv stuck this] obtain j where "Max ?W < j" "j \<in> ?W" by blast
  moreover from this(2) have "j \<le> Max ?W" by (intro Max_ge finite)
  ultimately show False by (metis leD)
qed

subsection \<open>What is held inside a command\<close>

lemma held_before_release:
  assumes inv: "lock_inv s" and "calls s g = map rel (rev L) @ q" and "x \<in> set L"
  shows "(snd x \<longrightarrow> owner s (fst x) = Some g) \<and> (\<not> snd x \<longrightarrow> g \<in> readers s (fst x))"
proof -
  obtain H A Ls where g: "g_inv s g H A Ls" using inv unfolding lock_inv_def by blast
  have "L \<noteq> []" using assms(3) by auto
  then have "A = []" using g assms(2) by (cases A; cases L rule: rev_cases) (auto simp: g_inv_def)
  with g assms(2) have eq: "map rel (rev H) @ sections Ls = map rel (rev L) @ q" by (simp add: g_inv_def)
  have "set L \<subseteq> set H"
  proof -
    from eq consider us where "map rel (rev H) = map rel (rev L) @ us"
      | us where "map rel (rev H) @ us = map rel (rev L)" "sections Ls = us @ q"
      by (auto simp: append_eq_append_conv2)
    then show ?thesis
    proof cases
      case 1
      then obtain M N where "rev H = M @ N" "map rel M = map rel (rev L)" by (auto simp: map_eq_append_conv)
      moreover from this(2) have "M = rev L" by (simp add: inj_on_def inj_map_eq_map)
      ultimately show ?thesis by (metis Un_upper1 set_append set_rev)
    next
      case 2
      then obtain M N where "rev L = M @ N" "map rel M = map rel (rev H)" "map rel N = us"
        by (auto simp: map_eq_append_conv append_eq_map_conv)
      moreover have "N = []" using 2(2) \<open>map rel N = us\<close> sections_not_rel by (cases N) auto
      moreover have "M = rev H" using calculation(2) by (simp add: inj_on_def inj_map_eq_map)
      ultimately show ?thesis by (metis append_Nil2 order_refl set_rev)
    qed
  qed
  with assms(3) have "x \<in> set H" by blast
  moreover obtain i b where "x = (i, b)" by (cases x)
  ultimately show ?thesis using g by (cases b) (auto simp: g_inv_def)
qed

lemma inside_conflict:
  assumes inv: "lock_inv s"
    and g: "calls s g = RWUnLocks sp w r @ p" and h: "calls s h = RWUnLocks sp w' r' @ q"
    and "k \<in> set w" and "k \<in> set w' \<union> set r'"
  shows "g = h"
proof -
  have o: "owner s (sp k) = Some g"
    using held_before_release [OF inv g [unfolded RWUnLocks_rel] lockset_write [OF assms(4)]] by simp
  obtain b where "(sp k, b) \<in> set (lockset sp w' r')" using lockset_any [OF assms(5)] by blast
  from held_before_release [OF inv h [unfolded RWUnLocks_rel] this]
  have "owner s (sp k) = Some h \<or> h \<in> readers s (sp k)" by auto
  with o lock_inv_owner [OF inv o] show ?thesis by auto
qed

subsection \<open>Every schedule ends\<close>

definition lock_measure :: "nat set \<Rightarrow> lock_state \<Rightarrow> nat" where
  "lock_measure G s = (\<Sum>g \<in> G. 2 * length (calls s g)) + card {i. claim s i = None}"

lemma lock_measure_calls:
  assumes "finite G" and "g \<in> G" and "calls s g = c # p" and "calls t = (calls s)(g := p)"
  shows "(\<Sum>g \<in> G. 2 * length (calls s g)) = (\<Sum>g \<in> G. 2 * length (calls t g)) + 2"
proof -
  have "(\<Sum>h \<in> G - {g}. 2 * length (calls t h)) = (\<Sum>h \<in> G - {g}. 2 * length (calls s h))"
    using assms(4) by (intro sum.cong) auto
  with assms show ?thesis by (simp add: sum.remove)
qed

lemma card_claims: "card {j. (f(i := v)) j = None} \<le> Suc (card {j. (f :: 32 word \<Rightarrow> nat option) j = None})"
proof -
  have "{j. (f(i := v)) j = None} \<subseteq> insert i {j. f j = None}" by auto
  then have "card {j. (f(i := v)) j = None} \<le> card (insert i {j. f j = None})" by (intro card_mono finite)
  also have "\<dots> \<le> Suc (card {j. f j = None})" by (rule card_insert_le_m1) auto
  finally show ?thesis .
qed

lemma lock_step_decreases:
  assumes "lock_step s t" and "finite G" and "\<And>g. calls s g \<noteq> [] \<Longrightarrow> g \<in> G"
  shows "lock_measure G t < lock_measure G s"
  using assms(1)
proof (cases rule: lock_step.cases)
  case (claim g i p)
  then have "{j. claim t j = None} \<subset> {j. claim s j = None}" by auto
  then have "card {j. claim t j = None} < card {j. claim s j = None}" by (intro psubset_card_mono finite)
  with claim show ?thesis by (simp add: lock_measure_def)
next
  case (enter g i p)
  with lock_measure_calls [OF assms(2) assms(3), of g s "MLock i" p t] show ?thesis by (simp add: lock_measure_def)
next
  case (rlock g i p)
  with lock_measure_calls [OF assms(2) assms(3), of g s "MRLock i" p t] show ?thesis by (simp add: lock_measure_def)
next
  case (unlock g i p)
  with lock_measure_calls [OF assms(2) assms(3), of g s "MUnlock i" p t] card_claims [of "claim s" i None]
  show ?thesis by (simp add: lock_measure_def)
next
  case (runlock g i p)
  with lock_measure_calls [OF assms(2) assms(3), of g s "MRUnlock i" p t] show ?thesis by (simp add: lock_measure_def)
qed

lemma lock_step_calls: "lock_step s t \<Longrightarrow> calls t g \<noteq> [] \<Longrightarrow> calls s g \<noteq> []"
  by (auto elim!: lock_step.cases split: if_splits)

lemma schedule_finishes:
  assumes "finite G" and "\<And>g. calls (f 0) g \<noteq> [] \<Longrightarrow> g \<in> G" and "lock_inv (f 0)"
    and "\<And>n. lock_step (f n) (f (Suc n)) \<or> (\<forall>t. \<not> lock_step (f n) t)"
  shows "\<exists>n. \<forall>g. calls (f n) g = []"
  using assms
proof (induction "lock_measure G (f 0)" arbitrary: f rule: less_induct)
  case less
  show ?case
  proof (cases "\<exists>t. lock_step (f 0) t")
    case False
    with lock_progress [OF less.prems(3)] show ?thesis by blast
  next
    case True
    with less.prems(4) [of 0] have st: "lock_step (f 0) (f (Suc 0))" by blast
    have "\<exists>n. \<forall>g. calls (f (Suc n)) g = []"
    proof (rule less.hyps)
      show "lock_measure G (f (Suc 0)) < lock_measure G (f 0)"
        using lock_step_decreases [OF st less.prems(1,2)] .
      show "lock_inv (f (Suc 0))" using lock_step_inv [OF st less.prems(3)] .
    qed (use less.prems lock_step_calls [OF st] in auto)
    then show ?thesis by blast
  qed
qed

subsection \<open>Properties\<close>

text \<open>
  C7: goroutines that lock the keys of their commands with \<^verbatim>\<open>RWLocks\<close> and unlock them with
  \<^verbatim>\<open>RWUnLocks\<close> never deadlock: in every reachable state in which some goroutine has mutex calls
  left, some goroutine can make its next one. The locks are taken in the order of their
  indices, which is what makes it so; a waiting writer that keeps out new readers is covered.
\<close>

theorem RWLocks_no_deadlock:
  assumes "lock_reach spread work s" and "calls s g \<noteq> []"
  shows "\<exists>t. lock_step s t"
  using lock_progress [OF lock_reach_inv [OF assms(1)] assms(2)] .

theorem RWLocks_no_deadlock_witness:
  "\<exists>t. lock_step (lock_init (lock_index 16) (\<lambda>g. [([''a'', ''b''], [''c''])])) t"
  by (rule RWLocks_no_deadlock [OF lock_reach.init, where g = 0])
     (simp add: lock_init_def command_calls_def RWLocks_def toLockIndices_def)

text \<open>
  C8: commands that conflict on a key exclude each other: while one goroutine is between its
  \<^verbatim>\<open>RWLocks\<close> and its \<^verbatim>\<open>RWUnLocks\<close> with a key among those it writes, no other goroutine is
  between these calls with the key among those it writes or reads.
\<close>

theorem RWLocks_exclusive:
  assumes "lock_reach spread work s" and "calls s g = RWUnLocks spread w r @ p"
    and "k \<in> set w" and "k \<in> set w' \<union> set r'" and "g \<noteq> h"
  shows "calls s h \<noteq> RWUnLocks spread w' r' @ q"
  using inside_conflict [OF lock_reach_inv [OF assms(1)] assms(2) _ assms(3,4), of h q] assms(5) by blast

theorem RWLocks_exclusive_witness:
  "\<exists>s. lock_reach (\<lambda>k. 0) (\<lambda>g. [([''a''], [])]) s \<and> calls s 0 = [MUnlock 0] \<and>
     calls s 1 \<noteq> RWUnLocks (\<lambda>k. 0) [''a''] [] @ []"
proof -
  let ?s0 = "lock_init (\<lambda>k. 0) (\<lambda>g. [([''a''], [])])"
  let ?s1 = "?s0\<lparr>claim := (claim ?s0)(0 := Some 0)\<rparr>"
  let ?s2 = "?s1\<lparr>calls := (calls ?s1)(0 := [MUnlock 0]), owner := (owner ?s1)(0 := Some 0)\<rparr>"
  have c: "calls ?s0 g = [MLock 0, MUnlock 0]" for g
    by (simp add: lock_init_def command_calls_def RWLocks_def RWUnLocks_def toLockIndices_def)
  have "lock_step ?s0 ?s1" by (rule lock_step.claim [OF c]) (simp add: lock_init_def)
  moreover have "lock_step ?s1 ?s2" by (rule lock_step.enter) (simp_all add: c, simp_all add: lock_init_def)
  ultimately have r: "lock_reach (\<lambda>k. 0) (\<lambda>g. [([''a''], [])]) ?s2"
    by (blast intro: lock_reach.intros)
  have "calls ?s2 0 = RWUnLocks (\<lambda>k. 0) [''a''] [] @ []"
    by (simp add: RWUnLocks_def toLockIndices_def)
  from RWLocks_exclusive [OF r this, of "''a''" "[''a'']" "[]" 1 "[]"] r show ?thesis
    by (intro exI [of _ ?s2]) simp
qed

text \<open>
  C20: every command gets its locks: whatever the scheduler does, as long as it keeps choosing
  goroutines that can move, finitely many goroutines with finitely many commands each
  reach a state in which all of them have run all their mutex calls.
\<close>

theorem RWLocks_all_finish:
  assumes "finite {g. work g \<noteq> []}" and "f 0 = lock_init spread work"
    and "\<And>n. lock_step (f n) (f (Suc n)) \<or> (\<forall>t. \<not> lock_step (f n) t)"
  shows "\<exists>n. \<forall>g. calls (f n) g = []"
proof (rule schedule_finishes [OF assms(1)])
  show "g \<in> {g. work g \<noteq> []}" if "calls (f 0) g \<noteq> []" for g
    using that by (auto simp: assms(2) lock_init_def)
qed (simp_all add: assms(2,3) lock_inv_init)

theorem RWLocks_all_finish_witness:
  "\<exists>f. f (0::nat) = lock_init (\<lambda>k. 0) (\<lambda>g. if g = 0 then [([], [''a''])] else []) \<and> (\<exists>n. \<forall>g. calls (f n) g = [])"
proof -
  let ?work = "\<lambda>g. if g = 0 then [([], [''a''])] else []"
  define s0 where "s0 = lock_init (\<lambda>k. 0) ?work"
  define s1 where "s1 = s0\<lparr>calls := (calls s0)(0 := [MRUnlock 0]), readers := (readers s0)(0 := insert 0 (readers s0 0))\<rparr>"
  define s2 where "s2 = s1\<lparr>calls := (calls s1)(0 := []), readers := (readers s1)(0 := readers s1 0 - {0})\<rparr>"
  define f where "f = (\<lambda>n::nat. if n = 0 then s0 else if n = 1 then s1 else s2)"
  have c: "calls s0 g = (if g = 0 then [MRLock 0, MRUnlock 0] else [])" for g
    by (simp add: s0_def lock_init_def command_calls_def RWLocks_def RWUnLocks_def toLockIndices_def)
  have st0: "lock_step s0 s1"
    unfolding s1_def by (rule lock_step.rlock) (simp add: c, simp add: s0_def lock_init_def)
  have st1: "lock_step s1 s2" unfolding s2_def by (rule lock_step.runlock) (simp_all add: s1_def)
  have "\<forall>g. calls s2 g = []" by (simp add: c s1_def s2_def)
  then have st2: "\<not> lock_step s2 t" for t by (auto elim!: lock_step.cases)
  have "\<exists>n. \<forall>g. calls (f n) g = []"
  proof (rule RWLocks_all_finish [of ?work f "\<lambda>k. 0"])
    fix n
    show "lock_step (f n) (f (Suc n)) \<or> (\<forall>t. \<not> lock_step (f n) t)"
      using st0 st1 st2 by (auto simp: f_def)
  qed (simp_all add: f_def s0_def)
  then show ?thesis by (intro exI [of _ f]) (simp add: f_def s0_def)
qed

end
