(* ===== verification/Strconv.thy ===== *)
theory Strconv
  imports Godis_Prelude
begin

text \<open>
  The part of Go's \<^verbatim>\<open>strconv\<close> that the sources use on integers: \<^verbatim>\<open>ParseInt(s, 10, 64)\<close> (and
  \<^verbatim>\<open>Atoi\<close>, which agrees with it on a 64-bit platform) and \<^verbatim>\<open>FormatInt(i, 10)\<close>/\<^verbatim>\<open>Itoa\<close>.
  Parsing fails (\<open>None\<close>) on a malformed numeral and on one outside the 64-bit range.
\<close>

definition digit_val :: "char \<Rightarrow> nat option" where
  "digit_val c = (if CHR ''0'' \<le> c \<and> c \<le> CHR ''9'' then Some (of_char c - 48) else None)"

fun parse_digits :: "nat \<Rightarrow> string \<Rightarrow> nat option" where
  "parse_digits acc [] = Some acc"
| "parse_digits acc (c # s) =
     (case digit_val c of None \<Rightarrow> None | Some d \<Rightarrow> parse_digits (10 * acc + d) s)"

definition ParseInt :: "string \<Rightarrow> int option" where
  "ParseInt s =
     (let neg = (s \<noteq> [] \<and> hd s = CHR ''-'');
          body = (if s \<noteq> [] \<and> (hd s = CHR ''+'' \<or> hd s = CHR ''-'') then tl s else s)
      in if body = [] then None
         else case parse_digits 0 body of
                None \<Rightarrow> None
              | Some n \<Rightarrow> (let v = (if neg then - int n else int n)
                          in if int64_range v then Some v else None))"

abbreviation Atoi :: "string \<Rightarrow> int option" where
  "Atoi \<equiv> ParseInt"

definition digit_char :: "nat \<Rightarrow> char" where
  "digit_char d = char_of (48 + d)"

fun format_nat :: "nat \<Rightarrow> string" where
  "format_nat n = (if n < 10 then [digit_char n] else format_nat (n div 10) @ [digit_char (n mod 10)])"

declare format_nat.simps [simp del]

definition FormatInt :: "int \<Rightarrow> string" where
  "FormatInt i = (if i < 0 then CHR ''-'' # format_nat (nat (- i)) else format_nat (nat i))"

abbreviation Itoa :: "int \<Rightarrow> string" where
  "Itoa \<equiv> FormatInt"

section \<open>Lemmas\<close>

lemma of_char_digit_char [simp]: "d < 10 \<Longrightarrow> of_char (digit_char d) = (48 + d :: nat)"
  by (simp add: digit_char_def)

lemma digit_char_range:
  assumes "d < 10"
  shows "CHR ''0'' \<le> digit_char d" "digit_char d \<le> CHR ''9''"
  using assms by (simp_all add: less_eq_char_def)

lemma digit_val_digit_char [simp]: "d < 10 \<Longrightarrow> digit_val (digit_char d) = Some d"
  by (simp add: digit_val_def digit_char_range)

lemma digit_char_neq:
  assumes "d < 10" "of_char c < (48::nat) \<or> 57 < (of_char c :: nat)"
  shows "digit_char d \<noteq> c"
proof
  assume "digit_char d = c"
  with of_char_digit_char [OF assms(1)] have "of_char c = 48 + d" by simp
  with assms show False by linarith
qed

lemma parse_digits_append:
  "parse_digits acc (s @ t) = Option.bind (parse_digits acc s) (\<lambda>a. parse_digits a t)"
  by (induction s arbitrary: acc) (auto split: option.splits)

lemma format_nat_nonempty [simp]: "format_nat n \<noteq> []"
  by (subst format_nat.simps) simp

lemma set_format_nat: "c \<in> set (format_nat n) \<Longrightarrow> \<exists>d<10. c = digit_char d"
proof (induction n rule: format_nat.induct)
  case (1 n)
  show ?case
  proof (cases "n < 10")
    case True
    with 1 show ?thesis by (subst (asm) format_nat.simps) auto
  next
    case False
    with 1 have "c \<in> set (format_nat (n div 10)) \<or> c = digit_char (n mod 10)"
      by (subst (asm) (2) format_nat.simps) auto
    moreover have "n mod 10 < 10" by simp
    ultimately show ?thesis using 1 False by blast
  qed
qed

lemma parse_format_nat: "parse_digits 0 (format_nat n) = Some n"
proof (induction n rule: format_nat.induct)
  case (1 n)
  then show ?case
    by (subst format_nat.simps) (auto simp: parse_digits_append)
qed

lemma hd_format_nat:
  assumes "of_char c < (48::nat) \<or> 57 < (of_char c :: nat)"
  shows "hd (format_nat n) \<noteq> c"
proof -
  have "hd (format_nat n) \<in> set (format_nat n)" by simp
  then obtain d where "d < 10" "hd (format_nat n) = digit_char d"
    using set_format_nat by blast
  with assms show ?thesis using digit_char_neq by simp
qed

lemma ParseInt_FormatInt [simp]: "int64_range i \<Longrightarrow> ParseInt (FormatInt i) = Some i"
  using hd_format_nat [of "CHR ''-''"] hd_format_nat [of "CHR ''+''"]
  by (auto simp: ParseInt_def FormatInt_def parse_format_nat Let_def)

lemma ParseInt_range: "ParseInt s = Some i \<Longrightarrow> int64_range i"
  by (auto simp: ParseInt_def Let_def split: if_splits option.splits)

lemma FormatInt_nonempty [simp]: "FormatInt i \<noteq> []"
  by (simp add: FormatInt_def)

lemma set_FormatInt:
  assumes "of_char c < (45::nat) \<or> 57 < (of_char c :: nat)"
  shows "c \<notin> set (FormatInt i)"
proof
  assume "c \<in> set (FormatInt i)"
  moreover have "c \<noteq> CHR ''-''" using assms by auto
  ultimately obtain n where "c \<in> set (format_nat n)"
    by (auto simp: FormatInt_def split: if_splits)
  then obtain d where "d < 10" "c = digit_char d" using set_format_nat by blast
  with assms show False by auto
qed

end
