(* ===== verification/Protocol.thy ===== *)
theory Protocol
  imports Strconv
begin

text \<open>
  The replies of the Redis serialization protocol (\<^verbatim>\<open>redis/protocol\<close>): one constructor per
  reply type of \<^verbatim>\<open>reply.go\<close>, \<^verbatim>\<open>consts.go\<close> and \<^verbatim>\<open>errors.go\<close>, their marshalling \<open>ToBytes\<close> and
  the tests the server makes on marshalled replies.
\<close>

datatype reply =
    BulkReply bytes
  | MultiBulkReply "bytes list"
  | MultiRawReply "reply list"
  | StatusReply string
  | IntReply int
  | StandardErrReply string
  | PongReply
  | OkReply
  | NullBulkReply
  | EmptyMultiBulkReply
  | NoReply
  | QueuedReply
  | UnknownErrReply
  | ArgNumErrReply string
  | SyntaxErrReply
  | WrongTypeErrReply
  | ProtocolErrReply string

definition CRLF :: string where
  "CRLF = [CHR 0x0D, CHR 0x0A]"

definition nullBulkBytes :: string where
  "nullBulkBytes = ''$-1'' @ CRLF"

definition emptyMultiBulkBytes :: string where
  "emptyMultiBulkBytes = ''*0'' @ CRLF"

text \<open>One element of a multi bulk reply, the body of the loop of \<^verbatim>\<open>MultiBulkReply.ToBytes\<close>.\<close>

definition bulk_arg :: "bytes \<Rightarrow> string" where
  "bulk_arg arg = (case arg of
     None \<Rightarrow> ''$-1'' @ CRLF
   | Some s \<Rightarrow> ''$'' @ Itoa (int (length s)) @ CRLF @ s @ CRLF)"

definition multi_bulk_bytes :: "bytes list \<Rightarrow> string" where
  "multi_bulk_bytes args = ''*'' @ Itoa (int (length args)) @ CRLF @ concat (map bulk_arg args)"

text \<open>The size that \<^verbatim>\<open>MultiBulkReply.ToBytes\<close> computes to grow its buffer once.\<close>

definition bufLen :: "bytes list \<Rightarrow> nat" where
  "bufLen args = 1 + length (Itoa (int (length args))) + 2 +
     (\<Sum>arg \<leftarrow> args. case arg of
         None \<Rightarrow> 3 + 2
       | Some s \<Rightarrow> 1 + length (Itoa (int (length s))) + 2 + length s + 2)"

fun ToBytes :: "reply \<Rightarrow> string" where
  "ToBytes (BulkReply None) = nullBulkBytes"
| "ToBytes (BulkReply (Some arg)) = ''$'' @ Itoa (int (length arg)) @ CRLF @ arg @ CRLF"
| "ToBytes (MultiBulkReply args) = multi_bulk_bytes args"
| "ToBytes (MultiRawReply replies) =
     ''*'' @ Itoa (int (length replies)) @ CRLF @ concat (map ToBytes replies)"
| "ToBytes (StatusReply status) = ''+'' @ status @ CRLF"
| "ToBytes (IntReply code) = '':'' @ FormatInt code @ CRLF"
| "ToBytes (StandardErrReply status) = ''-'' @ status @ CRLF"
| "ToBytes PongReply = ''+PONG'' @ CRLF"
| "ToBytes OkReply = ''+OK'' @ CRLF"
| "ToBytes NullBulkReply = nullBulkBytes"
| "ToBytes EmptyMultiBulkReply = emptyMultiBulkBytes"
| "ToBytes NoReply = []"
| "ToBytes QueuedReply = ''+QUEUED'' @ CRLF"
| "ToBytes UnknownErrReply = ''-Err unknown'' @ CRLF"
| "ToBytes (ArgNumErrReply cmd) =
     ''-ERR wrong number of arguments for '' @ [CHR 0x27] @ cmd @ [CHR 0x27] @ '' command'' @ CRLF"
| "ToBytes SyntaxErrReply = ''-Err syntax error'' @ CRLF"
| "ToBytes WrongTypeErrReply =
     ''-WRONGTYPE Operation against a key holding the wrong kind of value'' @ CRLF"
| "ToBytes (ProtocolErrReply msg) =
     ''-ERR Protocol error: '' @ [CHR 0x27] @ msg @ [CHR 0x27] @ CRLF"

text \<open>
  \<^verbatim>\<open>IsErrorReply\<close> reads the first marshalled byte; on a reply that marshals to nothing the
  index is out of range and the call panics.
\<close>

definition IsErrorReply :: "reply \<Rightarrow> bool option" where
  "IsErrorReply r = map_option (\<lambda>c. c = CHR ''-'') (go_index (ToBytes r) 0)"

definition IsOKReply :: "reply \<Rightarrow> bool" where
  "IsOKReply r \<longleftrightarrow> ToBytes r = ''+OK'' @ CRLF"

definition IsEmptyMultiBulkReply :: "reply \<Rightarrow> bool" where
  "IsEmptyMultiBulkReply r \<longleftrightarrow> ToBytes r = emptyMultiBulkBytes"

text \<open>\<^verbatim>\<open>Try2ErrorReply\<close>: the error carried by a reply, or nil.\<close>

definition Try2ErrorReply :: "reply \<Rightarrow> string option" where
  "Try2ErrorReply r = (let s = ToBytes r in
     if s = [] then Some ''empty reply''
     else if hd s \<noteq> CHR ''-'' then None
     else Some (tl s))"

text \<open>The reply types that implement the interface \<^verbatim>\<open>ErrorReply\<close>, and their message.\<close>

fun Error :: "reply \<Rightarrow> string option" where
  "Error (StandardErrReply status) = Some status"
| "Error UnknownErrReply = Some ''Err unknown''"
| "Error (ArgNumErrReply cmd) =
     Some (''ERR wrong number of arguments for '' @ [CHR 0x27] @ cmd @ [CHR 0x27] @ '' command'')"
| "Error SyntaxErrReply = Some ''Err syntax error''"
| "Error WrongTypeErrReply = Some ''WRONGTYPE Operation against a key holding the wrong kind of value''"
| "Error (ProtocolErrReply msg) =
     Some (''ERR Protocol error '' @ [CHR 0x27] @ msg @ [CHR 0x27] @ '' command'')"
| "Error _ = None"

section \<open>Lemmas\<close>

lemma length_CRLF [simp]: "length CRLF = 2"
  by (simp add: CRLF_def)

lemma length_bulk_arg:
  "length (bulk_arg arg) = (case arg of None \<Rightarrow> 3 + 2
     | Some s \<Rightarrow> 1 + length (Itoa (int (length s))) + 2 + length s + 2)"
  by (simp add: bulk_arg_def split: option.split)

lemma length_multi_bulk_bytes: "length (multi_bulk_bytes args) = bufLen args"
  by (simp add: multi_bulk_bytes_def bufLen_def length_concat comp_def length_bulk_arg)

lemma ToBytes_empty_iff: "ToBytes r = [] \<longleftrightarrow> r = NoReply"
  by (cases r rule: ToBytes.cases)
    (auto simp: nullBulkBytes_def emptyMultiBulkBytes_def multi_bulk_bytes_def)

lemma IsErrorReply_hd: "r \<noteq> NoReply \<Longrightarrow> IsErrorReply r = Some (hd (ToBytes r) = CHR ''-'')"
  by (simp add: IsErrorReply_def go_index_def ToBytes_empty_iff hd_conv_nth)

lemma hd_ToBytes_error: "hd (ToBytes r) = CHR ''-'' \<longleftrightarrow> Error r \<noteq> None" if "r \<noteq> NoReply"
  using that by (cases r rule: ToBytes.cases)
    (auto simp: nullBulkBytes_def emptyMultiBulkBytes_def multi_bulk_bytes_def)


text \<open>
  C36: The buffer that \<^verbatim>\<open>MultiBulkReply.ToBytes\<close> reserves is exactly as long as what it writes
  into it, for nil, empty and non-empty elements alike, so marshalling never reallocates.
\<close>

theorem bufLen_exact: "length (ToBytes (MultiBulkReply args)) = bufLen args"
  by (simp add: length_multi_bulk_bytes)

end
