(* ===== verification/RespParser.thy ===== *)
theory RespParser
  imports Protocol
begin

text \<open>
  The protocol parsers (\<^verbatim>\<open>redis/parser\<close>). A connection is the finite byte string that is read
  from it before it ends; the channel of payloads is the list of payloads sent on it. A reader
  operation returns what it consumed and the rest of the input, or the error of \<^verbatim>\<open>bufio\<close>/\<^verbatim>\<open>io\<close>.
  \<open>parse0\<close> is the goroutine behind \<^verbatim>\<open>ParseStream\<close>, \<^verbatim>\<open>ParseBytes\<close> and \<^verbatim>\<open>ParseOne\<close>: it ends by
  closing the channel, or by a recovered panic that leaves the channel open. \<open>ParseV2\<close> is the
  blocking parser of the gnet server.
\<close>

datatype perr = EOF | UnexpectedEOF | ErrMsg string | NumError string

datatype payload = Data reply | Err perr

datatype step = Next string | Stop perr | Crash

datatype ending = Closed | Panicked

definition CR :: char where "CR = CHR 0x0D"

definition LF :: char where "LF = CHR 0x0A"

text \<open>\<^verbatim>\<open>reader.ReadBytes('\n')\<close>: a line with its delimiter, or end of file before one.\<close>

fun ReadBytes :: "string \<Rightarrow> (string \<times> string) option" where
  "ReadBytes [] = None"
| "ReadBytes (c # s) = (if c = LF then Some ([c], s)
     else map_option (\<lambda>(l, r). (c # l, r)) (ReadBytes s))"

text \<open>\<^verbatim>\<open>io.ReadFull\<close> into a buffer of \<open>n\<close> bytes.\<close>

definition ReadFull :: "int \<Rightarrow> string \<Rightarrow> perr + string \<times> string" where
  "ReadFull n s = (if n \<le> int (length s) then Inr (take (nat n) s, drop (nat n) s)
     else Inl (if s = [] then EOF else UnexpectedEOF))"

definition TrimSuffix :: "string \<Rightarrow> string" where
  "TrimSuffix s = (if 2 \<le> length s \<and> drop (length s - 2) s = CRLF
     then take (length s - 2) s else s)"

definition protocolError :: "string \<Rightarrow> payload" where
  "protocolError msg = Err (ErrMsg (''protocol error: '' @ msg))"

definition parseBulkString :: "string \<Rightarrow> string \<Rightarrow> payload list \<times> step" where
  "parseBulkString header s = (case ParseInt (tl header) of
     None \<Rightarrow> ([protocolError (''illegal bulk string header: '' @ header)], Next s)
   | Some strLen \<Rightarrow>
       if strLen < -1 then ([protocolError (''illegal bulk string header: '' @ header)], Next s)
       else if strLen = -1 then ([Data NullBulkReply], Next s)
       else if \<not> make_ok 1 (wrap64 (strLen + 2)) then ([], Crash)
       else (case ReadFull (strLen + 2) s of
               Inl e \<Rightarrow> ([], Stop e)
             | Inr (body, rest) \<Rightarrow>
                 ([Data (BulkReply (Some (take (length body - 2) body)))], Next rest)))"

text \<open>There is no CRLF between the RDB payload and the AOF stream that follows it.\<close>

definition parseRDBBulkString :: "string \<Rightarrow> payload list \<times> step" where
  "parseRDBBulkString s = (case ReadBytes s of
     None \<Rightarrow> ([], Stop (ErrMsg ''failed to read bytes''))
   | Some (line, rest) \<Rightarrow>
       (let header = TrimSuffix line in
        if header = [] then ([], Stop (ErrMsg ''empty header''))
        else (case ParseInt (tl header) of
            None \<Rightarrow> ([], Stop (ErrMsg (''illegal bulk header: '' @ header)))
          | Some strLen \<Rightarrow>
              if strLen \<le> 0 then ([], Stop (ErrMsg (''illegal bulk header: '' @ header)))
              else if \<not> make_ok 1 strLen then ([], Crash)
              else (case ReadFull strLen rest of
                  Inl e \<Rightarrow> ([], Stop e)
                | Inr (body, rest') \<Rightarrow> ([Data (BulkReply (Some body))], Next rest')))))"

text \<open>
  The loop of \<^verbatim>\<open>parseArray\<close>: \<open>k\<close> elements are still to be read, \<open>acc\<close> are those read so far.
  On a malformed element the loop reports a protocol error, leaves the loop, and the elements
  read so far are still sent as a command.
\<close>

fun parseArray_loop :: "nat \<Rightarrow> string \<Rightarrow> bytes list \<Rightarrow> payload list \<times> step" where
  "parseArray_loop 0 s acc = ([Data (MultiBulkReply acc)], Next s)"
| "parseArray_loop (Suc k) s acc = (case ReadBytes s of
     None \<Rightarrow> ([], Stop EOF)
   | Some (line, rest) \<Rightarrow>
       if length line < 4 \<or> line ! (length line - 2) \<noteq> CR \<or> hd line \<noteq> CHR ''$'' then
         ([protocolError (''illegal bulk string header '' @ line), Data (MultiBulkReply acc)], Next rest)
       else (case ParseInt (take (length line - 3) (tl line)) of
           None \<Rightarrow> ([protocolError (''illegal bulk string length '' @ line), Data (MultiBulkReply acc)],
                    Next rest)
         | Some strLen \<Rightarrow>
             if strLen < -1 then
               ([protocolError (''illegal bulk string length '' @ line), Data (MultiBulkReply acc)], Next rest)
             else if strLen = -1 then parseArray_loop k rest (acc @ [Some []])
             else if \<not> make_ok 1 (wrap64 (strLen + 2)) then ([], Crash)
             else (case ReadFull (strLen + 2) rest of
                 Inl e \<Rightarrow> ([], Stop e)
               | Inr (body, rest') \<Rightarrow>
                   parseArray_loop k rest' (acc @ [Some (take (length body - 2) body)]))))"

definition parseArray :: "string \<Rightarrow> string \<Rightarrow> payload list \<times> step" where
  "parseArray header s = (case ParseInt (tl header) of
     None \<Rightarrow> ([protocolError (''illegal array header '' @ tl header)], Next s)
   | Some nStrs \<Rightarrow>
       if nStrs < 0 then ([protocolError (''illegal array header '' @ tl header)], Next s)
       else if nStrs = 0 then ([Data EmptyMultiBulkReply], Next s)
       else if \<not> make_ok 24 nStrs then ([], Crash)
       else parseArray_loop (nat nStrs) s [])"

text \<open>What one complete, CRLF-terminated line makes \<^verbatim>\<open>parse0\<close> do.\<close>

definition parse_line :: "string \<Rightarrow> string \<Rightarrow> payload list \<times> step" where
  "parse_line line s =
     (if hd line = CHR ''+'' then
        (let content = tl line; status = Data (StatusReply content) in
         if take 10 content = ''FULLRESYNC'' then
           (case parseRDBBulkString s of (ps, st) \<Rightarrow> (status # ps, st))
         else ([status], Next s))
      else if hd line = CHR ''-'' then ([Data (StandardErrReply (tl line))], Next s)
      else if hd line = CHR '':'' then
        (case ParseInt (tl line) of
           None \<Rightarrow> ([protocolError (''illegal number '' @ tl line)], Next s)
         | Some v \<Rightarrow> ([Data (IntReply v)], Next s))
      else if hd line = CHR ''$'' then parseBulkString line s
      else if hd line = CHR ''*'' then parseArray line s
      else ([Data (MultiBulkReply (map Some (split_at (CHR '' '') line)))], Next s))"

lemma ReadBytes_split: "ReadBytes s = Some (l, r) \<Longrightarrow> s = l @ r \<and> l \<noteq> []"
  by (induction s arbitrary: l) (auto split: if_splits)

lemma ReadBytes_shorter: "ReadBytes s = Some (l, r) \<Longrightarrow> length r < length s"
  by (drule ReadBytes_split) auto

lemma ReadFull_length: "ReadFull n s = Inr (b, r) \<Longrightarrow> length r \<le> length s"
  by (auto simp: ReadFull_def split: if_splits)

lemma parseArray_loop_length:
  "parseArray_loop k s acc = (ps, Next r) \<Longrightarrow> length r \<le> length s"
proof (induction k arbitrary: s acc ps)
  case (Suc k)
  from Suc.prems show ?case
    by (auto split: option.splits if_splits sum.splits prod.splits
        dest!: ReadBytes_shorter ReadFull_length Suc.IH)
qed simp

lemma parse_line_length: "parse_line line s = (ps, Next r) \<Longrightarrow> length r \<le> length s"
  by (auto simp: parse_line_def parseBulkString_def parseRDBBulkString_def parseArray_def Let_def
      split: if_splits option.splits sum.splits prod.splits
      dest!: ReadFull_length parseArray_loop_length ReadBytes_shorter)

function parse0 :: "string \<Rightarrow> payload list \<times> ending" where
  "parse0 s = (case ReadBytes s of
     None \<Rightarrow> ([Err EOF], Closed)
   | Some (line, rest) \<Rightarrow>
       if length line \<le> 2 \<or> line ! (length line - 2) \<noteq> CR then parse0 rest
       else (case parse_line (TrimSuffix line) rest of
           (ps, Next rest') \<Rightarrow> (case parse0 rest' of (qs, e) \<Rightarrow> (ps @ qs, e))
         | (ps, Stop e) \<Rightarrow> (ps @ [Err e], Closed)
         | (ps, Crash) \<Rightarrow> (ps, Panicked)))"
  by pat_completeness auto
termination
  by (relation "measure length")
    (auto dest: ReadBytes_shorter, metis ReadBytes_shorter parse_line_length le_less_trans)

declare parse0.simps [simp del]

text \<open>
  \<^verbatim>\<open>ParseBytes\<close> drains the channel; it never returns (\<open>None\<close>) when the parser dies without
  closing it. The inner option is Go's error result.
\<close>

fun ParseBytes_loop :: "payload list \<Rightarrow> ending \<Rightarrow> reply list \<Rightarrow> (perr + reply list) option" where
  "ParseBytes_loop [] Closed acc = Some (Inr acc)"
| "ParseBytes_loop [] Panicked acc = None"
| "ParseBytes_loop (Data d # ps) e acc = ParseBytes_loop ps e (acc @ [d])"
| "ParseBytes_loop (Err er # ps) e acc = (if er = EOF then Some (Inr acc) else Some (Inl er))"

definition ParseBytes :: "string \<Rightarrow> (perr + reply list) option" where
  "ParseBytes data = (case parse0 data of (ps, e) \<Rightarrow> ParseBytes_loop ps e [])"

definition ParseOne :: "string \<Rightarrow> payload option" where
  "ParseOne data = (case fst (parse0 data) of [] \<Rightarrow> None | p # _ \<Rightarrow> Some p)"

subsection \<open>The blocking parser\<close>

fun readLine :: "string \<Rightarrow> perr + string \<times> string" where
  "readLine [] = Inl EOF"
| "readLine (c # s) =
     (if c = CR then
        (case s of
           [] \<Rightarrow> Inl (ErrMsg (''unexpected EOF after '' @ [CHR 0x5C] @ ''r''))
         | d # s' \<Rightarrow> if d \<noteq> LF then 
             Inl (ErrMsg (''expected '' @ [CHR 0x5C] @ ''n after '' @ [CHR 0x5C] @ ''r''))
           else Inr ([], s'))
      else (case readLine s of Inl e \<Rightarrow> Inl e | Inr (l, r) \<Rightarrow> Inr (c # l, r)))"

definition readInteger :: "string \<Rightarrow> perr + int \<times> string" where
  "readInteger s = (case readLine s of
     Inl e \<Rightarrow> Inl e
   | Inr (line, rest) \<Rightarrow>
       (case Atoi line of None \<Rightarrow> Inl (NumError line) | Some v \<Rightarrow> Inr (v, rest)))"

text \<open>The loop over the arguments; \<open>None\<close> is the panic of an impossible allocation.\<close>

fun ParseV2_loop :: "nat \<Rightarrow> string \<Rightarrow> bytes list \<Rightarrow> (perr + bytes list \<times> string) option" where
  "ParseV2_loop 0 s acc = Some (Inr (acc, s))"
| "ParseV2_loop (Suc k) s acc = (case ReadFull 1 s of
     Inl e \<Rightarrow> Some (Inl e)
   | Inr (buf, s1) \<Rightarrow>
       if hd buf = CHR ''$'' then
         (case readInteger s1 of
            Inl e \<Rightarrow> Some (Inl e)
          | Inr (strLen, s2) \<Rightarrow>
              if strLen < 0 then ParseV2_loop k s2 (acc @ [None])
              else if \<not> make_ok 1 (wrap64 (strLen + 2)) then None
              else (case ReadFull (strLen + 2) s2 of
                  Inl e \<Rightarrow> Some (Inl e)
                | Inr (data, s3) \<Rightarrow> ParseV2_loop k s3 (acc @ [Some (take (nat strLen) data)])))
       else Some (Inl (ErrMsg ''unsupported RESP type'')))"

definition ParseV2 :: "string \<Rightarrow> (perr + bytes list \<times> string) option" where
  "ParseV2 s = (case ReadFull 1 s of
     Inl e \<Rightarrow> Some (Inl e)
   | Inr (buf, s1) \<Rightarrow>
       if hd buf \<noteq> CHR ''*'' then
         (case readLine s1 of
            Inl e \<Rightarrow> Some (Inl e)
          | Inr (buf2, s2) \<Rightarrow> Some (Inr (map Some (split_at (CHR '' '') (buf @ buf2)), s2)))
       else (case readInteger s1 of
            Inl e \<Rightarrow> Some (Inl e)
          | Inr (cnt, s2) \<Rightarrow>
              if cnt < 0 then Some (Inr ([], s2))
              else if \<not> make_ok 24 cnt then None
              else ParseV2_loop (nat cnt) s2 []))"

section \<open>Lemmas\<close>

text \<open>What a command must satisfy for its buffers to be allocatable on the reader's side.\<close>

definition wire_ok :: "bytes list \<Rightarrow> bool" where
  "wire_ok args \<longleftrightarrow> make_ok 24 (int (length args)) \<and>
     list_all (\<lambda>a. make_ok 1 (int (length (str a)) + 2)) args"

lemma CR_LF_simps [simp]: "CR \<noteq> LF" "LF \<noteq> CR" "CRLF = [CR, LF]"
  by (simp_all add: CR_def LF_def CRLF_def)

lemma printable_neq [simp]:
  "(31::nat) < of_char c \<Longrightarrow> c \<noteq> CR" "(31::nat) < of_char c \<Longrightarrow> c \<noteq> LF"
  "(31::nat) < of_char c \<Longrightarrow> CR \<noteq> c" "(31::nat) < of_char c \<Longrightarrow> LF \<noteq> c"
  by (auto simp: CR_def LF_def)

lemma FormatInt_no_CR_LF [simp]: "CR \<notin> set (FormatInt i)" "LF \<notin> set (FormatInt i)"
  by (simp_all add: set_FormatInt CR_def LF_def)

lemma ReadBytes_line: "LF \<notin> set l \<Longrightarrow> ReadBytes (l @ LF # r) = Some (l @ [LF], r)"
  by (induction l) auto

lemma ReadBytes_number [simp]:
  "ReadBytes (FormatInt i @ CR # LF # r) = Some (FormatInt i @ [CR, LF], r)"
  using ReadBytes_line [of "FormatInt i @ [CR]" r] by simp

lemma make_ok_range: "make_ok k n \<Longrightarrow> 1 \<le> k \<Longrightarrow> int64_range n"
proof -
  assume a: "make_ok k n" "1 \<le> k"
  then have "1 * n \<le> k * n" by (intro mult_right_mono) (auto simp: make_ok_def)
  with a show ?thesis by (auto simp: make_ok_def int64_range_def maxAlloc_def)
qed

lemma make_ok_body:
  assumes "make_ok 1 (int n + 2)"
  shows "int64_range (int n)" "wrap64 (int n + 2) = int n + 2" "make_ok 1 (wrap64 (int n + 2))"
  using assms make_ok_range [OF assms] by (auto simp: int64_range_def)

lemma ReadFull_body:
  "ReadFull (int (length b) + 2) (b @ CR # LF # r) = Inr (b @ [CR, LF], r)"
  by (simp add: ReadFull_def nat_add_distrib)

lemma ParseInt_minus_one [simp]: "ParseInt ''-1'' = Some (-1)"
  by code_simp

lemma parseArray_step:
  assumes "make_ok 1 (int (length (str a)) + 2)"
  shows "parseArray_loop (Suc k) (bulk_arg a @ r) acc = parseArray_loop k r (acc @ [Some (str a)])"
proof (cases a)
  case None
  have "ReadBytes (''$-1'' @ CR # LF # r) = Some (''$-1'' @ [CR, LF], r)"
    using ReadBytes_line [of "''$-1'' @ [CR]" r] by simp
  with None show ?thesis by (simp add: bulk_arg_def)
next
  case (Some b)
  let ?n = "Itoa (int (length b))"
  have rd: "ReadBytes (CHR ''$'' # ?n @ CR # LF # b @ CR # LF # r)
      = Some (CHR ''$'' # ?n @ [CR, LF], b @ CR # LF # r)"
    by simp
  have len: "\<not> length (CHR ''$'' # ?n @ [CR, LF]) < 4" by (cases ?n) auto
  have nth: "(CHR ''$'' # ?n @ [CR, LF]) ! (length (CHR ''$'' # ?n @ [CR, LF]) - 2) = CR"
    by (simp add: nth_append)
  have num: "take (length (CHR ''$'' # ?n @ [CR, LF]) - 3) (tl (CHR ''$'' # ?n @ [CR, LF])) = ?n"
    by simp
  have ok: "int64_range (int (length b))" "make_ok 1 (wrap64 (int (length b) + 2))"
    using make_ok_body assms Some by auto
  show ?thesis
    unfolding Some bulk_arg_def option.case
    using rd len nth ok by (simp add: ReadFull_body)
qed

lemma parseArray_loop_prefix:
  "list_all (\<lambda>a. make_ok 1 (int (length (str a)) + 2)) pre \<Longrightarrow>
   parseArray_loop (length pre + m) (concat (map bulk_arg pre) @ s) acc
     = parseArray_loop m s (acc @ map (\<lambda>a. Some (str a)) pre)"
proof (induction pre arbitrary: acc)
  case (Cons a pre)
  then show ?case
    using parseArray_step [of a "length pre + m" "concat (map bulk_arg pre) @ s" acc]
    by (simp del: parseArray_loop.simps)
qed simp

lemma parseArray_loop_args:
  "list_all (\<lambda>a. make_ok 1 (int (length (str a)) + 2)) args \<Longrightarrow>
   parseArray_loop (length args) (concat (map bulk_arg args) @ r) acc
     = ([Data (MultiBulkReply (acc @ map (\<lambda>a. Some (str a)) args))], Next r)"
  using parseArray_loop_prefix [of args 0 r acc] by simp

lemma parse0_command:
  assumes "wire_ok args" "args \<noteq> []"
  shows "parse0 (multi_bulk_bytes args @ r) = (case parse0 r of
    (ps, e) \<Rightarrow> (Data (MultiBulkReply (map (\<lambda>a. Some (str a)) args)) # ps, e))"
proof -
  let ?n = "Itoa (int (length args))"
  let ?line = "CHR ''*'' # ?n @ [CR, LF]"
  have rd: "ReadBytes (multi_bulk_bytes args @ r) = Some (?line, concat (map bulk_arg args) @ r)"
    by (simp add: multi_bulk_bytes_def)
  have len: "\<not> (length ?line \<le> 2 \<or> ?line ! (length ?line - 2) \<noteq> CR)"
    by (simp add: nth_append)
  have trim: "TrimSuffix ?line = CHR ''*'' # ?n" by (simp add: TrimSuffix_def)
  have rng: "int64_range (int (length args))" "make_ok 24 (int (length args))"
    using assms(1) make_ok_range by (auto simp: wire_ok_def)
  have "parse_line (TrimSuffix ?line) (concat (map bulk_arg args) @ r)
      = ([Data (MultiBulkReply (map (\<lambda>a. Some (str a)) args))], Next r)"
    unfolding trim
    using rng assms parseArray_loop_args [of args r "[]"]
    by (simp add: parse_line_def parseArray_def wire_ok_def)
  with rd len show ?thesis
    by (subst parse0.simps) (simp split: prod.split)
qed

lemma readLine_line: "CR \<notin> set l \<Longrightarrow> readLine (l @ CR # LF # r) = Inr (l, r)"
  by (induction l) auto

lemma readInteger_line: "int64_range i \<Longrightarrow> readInteger (FormatInt i @ CR # LF # r) = Inr (i, r)"
  by (simp add: readInteger_def readLine_line)

lemma ReadFull_one: "ReadFull 1 (c # s) = Inr ([c], s)"
  by (simp add: ReadFull_def)

lemma ParseV2_step:
  assumes "make_ok 1 (int (length (str a)) + 2)"
  shows "ParseV2_loop (Suc k) (bulk_arg a @ r) acc = ParseV2_loop k r (acc @ [a])"
proof (cases a)
  case None
  have "readInteger (''-1'' @ CR # LF # r) = Inr (-1, r)"
    using readLine_line [of "''-1''" r] by (simp add: readInteger_def)
  with None show ?thesis by (simp add: bulk_arg_def ReadFull_one)
next
  case (Some b)
  have "int64_range (int (length b))" "make_ok 1 (wrap64 (int (length b) + 2))"
    using make_ok_body assms Some by auto
  with Some show ?thesis
    by (simp add: bulk_arg_def ReadFull_one readInteger_line ReadFull_body)
qed

lemma ParseV2_loop_args:
  "list_all (\<lambda>a. make_ok 1 (int (length (str a)) + 2)) args \<Longrightarrow>
   ParseV2_loop (length args) (concat (map bulk_arg args) @ r) acc = Some (Inr (acc @ args, r))"
proof (induction args arbitrary: acc)
  case (Cons a args)
  then show ?case
    using ParseV2_step [of a "length args" "concat (map bulk_arg args) @ r" acc] by simp
qed simp

text \<open>
  C5: Pipelining: a stream that is the concatenation of any number of marshalled, non-empty
  commands is parsed by the streaming parser into exactly these commands, in order, followed by
  the end of the stream; a nil argument arrives as an empty one.
\<close>

theorem parse0_pipeline:
  assumes "list_all (\<lambda>c. wire_ok c \<and> c \<noteq> []) cmds"
  shows "parse0 (concat (map (\<lambda>c. ToBytes (MultiBulkReply c)) cmds))
    = (map (\<lambda>c. Data (MultiBulkReply (map (\<lambda>a. Some (str a)) c))) cmds @ [Err EOF], Closed)"
  using assms
proof (induction cmds)
  case Nil
  show ?case by (subst parse0.simps) simp
next
  case (Cons c cmds)
  then show ?case by (simp add: parse0_command)
qed

theorem parse0_pipeline_witness:
  "parse0 (concat (map (\<lambda>c. ToBytes (MultiBulkReply c))
      [[Some ''GET'', Some ''k''], [Some ''PING'', None]]))
    = ([Data (MultiBulkReply [Some ''GET'', Some ''k'']),
        Data (MultiBulkReply [Some ''PING'', Some []]), Err EOF], Closed)"
  using parse0_pipeline [of "[[Some ''GET'', Some ''k''], [Some ''PING'', None]]"]
  by (simp add: wire_ok_def make_ok_def maxAlloc_def)

text \<open>
  C18: The blocking parser inverts marshalling exactly: it returns the command with its nil
  arguments, and leaves the bytes that follow it unread.
\<close>

theorem ParseV2_roundtrip:
  assumes "wire_ok args"
  shows "ParseV2 (ToBytes (MultiBulkReply args) @ r) = Some (Inr (args, r))"
proof -
  have "int64_range (int (length args))" "make_ok 24 (int (length args))"
    using assms make_ok_range by (auto simp: wire_ok_def)
  then show ?thesis
    using assms ParseV2_loop_args [of args r "[]"]
    by (simp add: ParseV2_def multi_bulk_bytes_def ReadFull_one readInteger_line wire_ok_def)
qed

theorem ParseV2_roundtrip_witness:
  "ParseV2 (ToBytes (MultiBulkReply [Some ''SET'', Some [], None]) @ ''rest'')
    = Some (Inr ([Some ''SET'', Some [], None], ''rest''))"
  by (rule ParseV2_roundtrip) (simp add: wire_ok_def make_ok_def maxAlloc_def)



end
