(* ===== verification/SkipList.thy ===== *)
theory SkipList
  imports Godis_Prelude
begin

text \<open>
  \<^verbatim>\<open>datastruct/sortedset/skiplist.go\<close>: the skip list with spans. Nodes are addresses, the header is
  address 0. A node's \<^verbatim>\<open>level\<close> slice is a slice of pointers to \<^verbatim>\<open>Level\<close> objects that is never
  reassigned: the object \<^verbatim>\<open>x.level[i]\<close> is the pair of cells \<open>sl_fwd x i\<close> and \<open>sl_span x i\<close>, and
  the slice's length is \<open>zn_height\<close>. Scores are values of any linear order (the floating-point
  numbers without NaN). The random level is computed from the value of \<^verbatim>\<open>rand.Uint64\<close>, an
  argument. Reading through nil and indexing past a level slice panic, which is \<open>None\<close>.
\<close>

definition maxLevel :: nat where
  "maxLevel = 16"

record 'f Element =
  Member :: string
  Score :: 'f

record 'f znode =
  zn_elem :: "'f Element"
  zn_backward :: "nat option"
  zn_height :: nat

record 'f skiplist =
  sl_nodes :: "nat \<Rightarrow> 'f znode option"
  sl_fwd :: "nat \<Rightarrow> nat \<Rightarrow> nat option"
  sl_span :: "nat \<Rightarrow> nat \<Rightarrow> int"
  sl_tail :: "nat option"
  sl_length :: int
  sl_level :: nat
  sl_fresh :: nat

definition set_cell :: "'f skiplist \<Rightarrow> nat \<Rightarrow> nat \<Rightarrow> nat option \<Rightarrow> int \<Rightarrow> 'f skiplist" where
  "set_cell sl x i f s = sl\<lparr>sl_fwd := (sl_fwd sl)(x := (sl_fwd sl x)(i := f)),
     sl_span := (sl_span sl)(x := (sl_span sl x)(i := s))\<rparr>"

text \<open>\<^verbatim>\<open>makeNode\<close> at the next free address; its level objects start zeroed.\<close>

definition makeNode :: "'f skiplist \<Rightarrow> nat \<Rightarrow> 'f \<Rightarrow> string \<Rightarrow> 'f skiplist \<times> nat" where
  "makeNode sl level score member = (let x = sl_fresh sl in
     (sl\<lparr>sl_nodes := (sl_nodes sl)(x \<mapsto> \<lparr>zn_elem = \<lparr>Member = member, Score = score\<rparr>,
                                   zn_backward = None, zn_height = level\<rparr>),
         sl_fwd := (sl_fwd sl)(x := (\<lambda>i. None)), sl_span := (sl_span sl)(x := (\<lambda>i. 0)),
         sl_fresh := x + 1\<rparr>, x))"

definition makeSkiplist :: "('f :: zero) skiplist" where
  "makeSkiplist = fst (makeNode \<lparr>sl_nodes = Map.empty, sl_fwd = (\<lambda>x i. None), sl_span = (\<lambda>x i. 0),
     sl_tail = None, sl_length = 0, sl_level = 1, sl_fresh = 0\<rparr> maxLevel 0 [])"

text \<open>\<^verbatim>\<open>bits.Len64\<close>: the number of bits needed for a value.\<close>

fun Len64 :: "nat \<Rightarrow> nat" where
  "Len64 n = (if n = 0 then 0 else Suc (Len64 (n div 2)))"

declare Len64.simps [simp del]

definition randomLevel :: "nat \<Rightarrow> nat" where
  "randomLevel rnd = (let total = 2 ^ maxLevel - 1; k = rnd mod total in maxLevel - Len64 (k + 1) + 1)"

definition forward :: "'f skiplist \<Rightarrow> nat \<Rightarrow> nat \<Rightarrow> nat option option" where
  "forward sl x i = do {
     nd \<leftarrow> sl_nodes sl x;
     (if i < zn_height nd then Some (sl_fwd sl x i) else None)
   }"

text \<open>
  The inner loop of every search: at level \<open>i\<close>, move from \<open>x\<close> to its forward node as long as there
  is one and the condition holds; \<open>r\<close> adds up the spans passed. The condition may look at \<open>r\<close>,
  the span and the forward element.
\<close>

partial_function (option) walk ::
  "'f skiplist \<Rightarrow> nat \<Rightarrow> (int \<Rightarrow> int \<Rightarrow> 'f Element \<Rightarrow> bool) \<Rightarrow> nat \<Rightarrow> int \<Rightarrow> (nat \<times> int) option" where
  "walk sl i c x r = do {
     f \<leftarrow> forward sl x i;
     (case f of
        None \<Rightarrow> Some (x, r)
      | Some y \<Rightarrow> do {
          ny \<leftarrow> sl_nodes sl y;
          (if c r (sl_span sl x i) (zn_elem ny) then walk sl i c y (r + sl_span sl x i) else Some (x, r))
        })
   }"

text \<open>The outer loop: the levels from the top down; it records the node and the rank of each level.\<close>

fun descend :: "'f skiplist \<Rightarrow> (int \<Rightarrow> int \<Rightarrow> 'f Element \<Rightarrow> bool) \<Rightarrow> nat \<Rightarrow> nat \<Rightarrow> int
    \<Rightarrow> nat list \<Rightarrow> int list \<Rightarrow> (nat \<times> int \<times> nat list \<times> int list) option" where
  "descend sl c 0 x r update rank = Some (x, r, update, rank)"
| "descend sl c (Suc i) x r update rank = do {
     (x', r') \<leftarrow> walk sl i c x r;
     descend sl c i x' r' (x' # update) (r' # rank)
   }"

definition before :: "string \<Rightarrow> ('f :: linorder) \<Rightarrow> 'f Element \<Rightarrow> bool" where
  "before member score e \<longleftrightarrow> Score e < score \<or> (Score e = score \<and> Member e < member)"

definition notAfter :: "string \<Rightarrow> ('f :: linorder) \<Rightarrow> 'f Element \<Rightarrow> bool" where
  "notAfter member score e \<longleftrightarrow> Score e < score \<or> (Score e = score \<and> Member e \<le> member)"

subsection \<open>insert\<close>

text \<open>Linking the new node \<open>x\<close> at the levels from \<open>i\<close> on, \<open>n\<close> of them.\<close>

fun link_levels :: "'f skiplist \<Rightarrow> nat \<Rightarrow> nat list \<Rightarrow> int list \<Rightarrow> nat \<Rightarrow> nat \<Rightarrow> 'f skiplist option" where
  "link_levels sl x update rank i 0 = Some sl"
| "link_levels sl x update rank i (Suc n) = do {
     u \<leftarrow> go_index update (int i);
     ri \<leftarrow> go_index rank (int i);
     r0 \<leftarrow> go_index rank 0;
     f \<leftarrow> forward sl u i;
     let s = sl_span sl u i;
     link_levels (set_cell (set_cell sl x i f (s - (r0 - ri))) u i (Some x) (r0 - ri + 1)) x update rank (Suc i) n
   }"

fun bump_levels :: "'f skiplist \<Rightarrow> nat list \<Rightarrow> nat \<Rightarrow> nat \<Rightarrow> 'f skiplist option" where
  "bump_levels sl update i 0 = Some sl"
| "bump_levels sl update i (Suc n) = do {
     u \<leftarrow> go_index update (int i);
     f \<leftarrow> forward sl u i;
     bump_levels (set_cell sl u i f (sl_span sl u i + 1)) update (Suc i) n
   }"

text \<open>Extending the list to \<open>level\<close> levels: the header's unused levels span the whole list.\<close>

fun extend_levels :: "'f skiplist \<Rightarrow> nat \<Rightarrow> nat \<Rightarrow> 'f skiplist option" where
  "extend_levels sl i 0 = Some sl"
| "extend_levels sl i (Suc n) = do {
     f \<leftarrow> forward sl 0 i;
     extend_levels (set_cell sl 0 i f (sl_length sl)) (Suc i) n
   }"

definition set_backward :: "'f skiplist \<Rightarrow> nat \<Rightarrow> nat option \<Rightarrow> 'f skiplist" where
  "set_backward sl x b = sl\<lparr>sl_nodes := (sl_nodes sl)(x := map_option (\<lambda>nd. nd\<lparr>zn_backward := b\<rparr>) (sl_nodes sl x))\<rparr>"

definition sl_insert :: "nat \<Rightarrow> ('f :: linorder) skiplist \<Rightarrow> string \<Rightarrow> 'f \<Rightarrow> 'f skiplist option" where
  "sl_insert rnd sl member score = do {
     (x0, r0, update, rank) \<leftarrow> descend sl (\<lambda>r s e. before member score e) (sl_level sl) 0 0 [] [];
     let level = randomLevel rnd;
     let ext = level - sl_level sl;
     let update = update @ replicate ext 0;
     let rank = rank @ replicate ext 0;
     sl \<leftarrow> extend_levels sl (sl_level sl) ext;
     let sl = sl\<lparr>sl_level := max (sl_level sl) level\<rparr>;
     let (sl, x) = makeNode sl level score member;
     sl \<leftarrow> link_levels sl x update rank 0 level;
     sl \<leftarrow> bump_levels sl update level (sl_level sl - level);
     u0 \<leftarrow> go_index update 0;
     let sl = set_backward sl x (if u0 = 0 then None else Some u0);
     f \<leftarrow> forward sl x 0;
     let sl = (case f of Some y \<Rightarrow> set_backward sl y (Some x) | None \<Rightarrow> sl\<lparr>sl_tail := Some x\<rparr>);
     Some (sl\<lparr>sl_length := sl_length sl + 1\<rparr>)
   }"

subsection \<open>remove\<close>

fun unlink_levels :: "'f skiplist \<Rightarrow> nat \<Rightarrow> nat list \<Rightarrow> nat \<Rightarrow> nat \<Rightarrow> 'f skiplist option" where
  "unlink_levels sl x update i 0 = Some sl"
| "unlink_levels sl x update i (Suc n) = do {
     u \<leftarrow> go_index update (int i);
     f \<leftarrow> forward sl u i;
     (if f = Some x then do {
        g \<leftarrow> forward sl x i;
        unlink_levels (set_cell sl u i g (sl_span sl u i + (sl_span sl x i - 1))) x update (Suc i) n
      } else unlink_levels (set_cell sl u i f (sl_span sl u i - 1)) x update (Suc i) n)
   }"

fun lower_level :: "'f skiplist \<Rightarrow> nat \<Rightarrow> nat" where
  "lower_level sl 0 = 0"
| "lower_level sl (Suc l) = (if Suc l > 1 \<and> sl_fwd sl 0 l = None then lower_level sl l else Suc l)"

definition removeNode :: "'f skiplist \<Rightarrow> nat \<Rightarrow> nat list \<Rightarrow> 'f skiplist option" where
  "removeNode sl x update = do {
     sl \<leftarrow> unlink_levels sl x update 0 (sl_level sl);
     f \<leftarrow> forward sl x 0;
     nd \<leftarrow> sl_nodes sl x;
     let sl = (case f of Some y \<Rightarrow> set_backward sl y (zn_backward nd)
                       | None \<Rightarrow> sl\<lparr>sl_tail := zn_backward nd\<rparr>);
     Some (sl\<lparr>sl_level := lower_level sl (sl_level sl), sl_length := sl_length sl - 1\<rparr>)
   }"

definition sl_remove :: "('f :: linorder) skiplist \<Rightarrow> string \<Rightarrow> 'f \<Rightarrow> ('f skiplist \<times> bool) option" where
  "sl_remove sl member score = do {
     (x, r, update, rank) \<leftarrow> descend sl (\<lambda>r s e. before member score e) (sl_level sl) 0 0 [] [];
     f \<leftarrow> forward sl x 0;
     (case f of
        None \<Rightarrow> Some (sl, False)
      | Some y \<Rightarrow> do {
          ny \<leftarrow> sl_nodes sl y;
          (if score = Score (zn_elem ny) \<and> Member (zn_elem ny) = member then do {
             sl' \<leftarrow> removeNode sl y update;
             Some (sl', True)
           } else Some (sl, False))
        })
   }"

subsection \<open>Ranks\<close>

fun getRank_levels :: "('f :: linorder) skiplist \<Rightarrow> string \<Rightarrow> 'f \<Rightarrow> nat \<Rightarrow> nat \<Rightarrow> int \<Rightarrow> int option" where
  "getRank_levels sl member score 0 x rank = Some 0"
| "getRank_levels sl member score (Suc i) x rank = do {
     (x', rank') \<leftarrow> walk sl i (\<lambda>r s e. notAfter member score e) x rank;
     nd \<leftarrow> sl_nodes sl x';
     (if Member (zn_elem nd) = member then Some rank' else getRank_levels sl member score i x' rank')
   }"

definition getRank :: "('f :: linorder) skiplist \<Rightarrow> string \<Rightarrow> 'f \<Rightarrow> int option" where
  "getRank sl member score = getRank_levels sl member score (sl_level sl) 0 0"

fun getByRank_levels :: "'f skiplist \<Rightarrow> int \<Rightarrow> nat \<Rightarrow> nat \<Rightarrow> int \<Rightarrow> nat option option" where
  "getByRank_levels sl rank 0 n i = Some None"
| "getByRank_levels sl rank (Suc level) n i = do {
     (n', i') \<leftarrow> walk sl level (\<lambda>r s e. r + s \<le> rank) n i;
     (if i' = rank then Some (Some n') else getByRank_levels sl rank level n' i')
   }"

definition getByRank :: "'f skiplist \<Rightarrow> int \<Rightarrow> nat option option" where
  "getByRank sl rank = getByRank_levels sl rank (sl_level sl) 0 0"

section \<open>The list that the structure represents\<close>

text \<open>
  Positions: the header is position 0, the \<open>p\<close>-th element is position \<open>p\<close>. \<open>H\<close> lists the
  heights by position. \<open>nxt H i p\<close> is the next position after \<open>p\<close> that is higher than \<open>i\<close>, or the
  length of \<open>H\<close>; \<open>lst H i K\<close> is the last position up to \<open>K\<close> that is higher than \<open>i\<close>.
\<close>

definition nxt :: "nat list \<Rightarrow> nat \<Rightarrow> nat \<Rightarrow> nat" where
  "nxt H i p = Suc p + length (takeWhile (\<lambda>h. h \<le> i) (drop (Suc p) H))"

fun lst :: "nat list \<Rightarrow> nat \<Rightarrow> nat \<Rightarrow> nat" where
  "lst H i 0 = 0"
| "lst H i (Suc k) = (if i < H ! Suc k then Suc k else lst H i k)"

definition ins :: "nat \<Rightarrow> 'a \<Rightarrow> 'a list \<Rightarrow> 'a list" where
  "ins k v xs = take k xs @ v # drop k xs"

definition elt :: "('f :: linorder) Element \<Rightarrow> 'f Element \<Rightarrow> bool" where
  "elt e e' \<longleftrightarrow> before (Member e') (Score e') e"

text \<open>
  \<open>sl_links\<close>: every forward pointer leads to the next node of its level and every span is the
  number of positions it passes, where the last pointer of a level spans the rest of the list.
\<close>

definition sl_links :: "'f skiplist \<Rightarrow> nat list \<Rightarrow> nat list \<Rightarrow> bool" where
  "sl_links sl H A \<longleftrightarrow> (\<forall>p < length H. \<forall>i < H ! p.
     sl_fwd sl (A ! p) i = (if nxt H i p < length H then Some (A ! nxt H i p) else None) \<and>
     (i < sl_level sl \<longrightarrow> sl_span sl (A ! p) i = int (min (nxt H i p) (length H - 1)) - int p))"

definition sl_rep :: "('f :: linorder) skiplist \<Rightarrow> 'f Element list \<Rightarrow> nat list \<Rightarrow> nat list \<Rightarrow> bool" where
  "sl_rep sl es hs as \<longleftrightarrow> length hs = length es \<and> length as = length es \<and>
     distinct (0 # as) \<and> (\<forall>a \<in> set (0 # as). a < sl_fresh sl) \<and>
     (\<forall>h \<in> set hs. 1 \<le> h \<and> h \<le> sl_level sl) \<and> 1 \<le> sl_level sl \<and> sl_level sl \<le> maxLevel \<and>
     (sl_level sl = 1 \<or> sl_level sl \<in> set hs) \<and>
     (\<exists>s. sl_nodes sl 0 = Some \<lparr>zn_elem = \<lparr>Member = [], Score = s\<rparr>, zn_backward = None, zn_height = maxLevel\<rparr>) \<and>
     (\<forall>p < length es. sl_nodes sl (as ! p) = Some \<lparr>zn_elem = es ! p,
        zn_backward = (if p = 0 then None else Some (as ! (p - 1))), zn_height = hs ! p\<rparr>) \<and>
     sl_links sl (maxLevel # hs) (0 # as) \<and>
     sl_tail sl = (if as = [] then None else Some (last as)) \<and> sl_length sl = int (length es) \<and>
     sorted_wrt elt es"

lemma nxt_gt: "p < nxt H i p"
  by (simp add: nxt_def)

lemma nxt_le: "p < length H \<Longrightarrow> nxt H i p \<le> length H"
  using length_takeWhile_le [of "\<lambda>h. h \<le> i" "drop (Suc p) H"] by (simp add: nxt_def)

lemma nxt_high:
  assumes "nxt H i p < length H"
  shows "i < H ! nxt H i p"
proof -
  let ?t = "takeWhile (\<lambda>h. h \<le> i) (drop (Suc p) H)"
  have "length ?t < length (drop (Suc p) H)" using assms by (simp add: nxt_def)
  then have "\<not> drop (Suc p) H ! length ?t \<le> i" by (rule nth_length_takeWhile)
  with assms show ?thesis by (simp add: nxt_def)
qed

lemma nxt_low: "p < j \<Longrightarrow> j < nxt H i p \<Longrightarrow> j < length H \<Longrightarrow> H ! j \<le> i"
proof -
  assume j: "p < j" "j < nxt H i p" "j < length H"
  let ?t = "takeWhile (\<lambda>h. h \<le> i) (drop (Suc p) H)"
  have "j - Suc p < length ?t" using j by (simp add: nxt_def)
  then have "?t ! (j - Suc p) = drop (Suc p) H ! (j - Suc p)" "?t ! (j - Suc p) \<in> set ?t"
    by (rule takeWhile_nth, intro nth_mem)
  with j show "H ! j \<le> i" by (auto dest: set_takeWhileD)
qed

lemma nxt_eqI:
  assumes "p < q" and "q \<le> length H" and "q < length H \<Longrightarrow> i < H ! q"
    and "\<And>j. p < j \<Longrightarrow> j < q \<Longrightarrow> H ! j \<le> i"
  shows "nxt H i p = q"
proof (rule ccontr)
  assume "nxt H i p \<noteq> q"
  then consider "nxt H i p < q" | "q < nxt H i p" by linarith
  then show False
  proof cases
    case 1
    with assms(2) nxt_high [of H i p] assms(4) [OF nxt_gt 1] show False by simp
  next
    case 2
    with nxt_le [of p H i] assms(1,2) have "q < length H" by simp
    with nxt_low [OF assms(1) 2] assms(3) show False by simp
  qed
qed

lemma lst_le: "lst H i K \<le> K"
  by (induction K) auto

lemma lst_high: "i < H ! 0 \<Longrightarrow> i < H ! lst H i K"
  by (induction K) auto

lemma lst_low: "lst H i K < j \<Longrightarrow> j \<le> K \<Longrightarrow> H ! j \<le> i"
  by (induction K) (auto simp: le_Suc_eq split: if_splits)

lemma lst_eqI:
  assumes "p \<le> K" and "p = 0 \<or> i < H ! p" and "\<And>j. p < j \<Longrightarrow> j \<le> K \<Longrightarrow> H ! j \<le> i"
  shows "lst H i K = p"
  using assms
proof (induction K)
  case (Suc K)
  show ?case
  proof (cases "p = Suc K")
    case True
    with Suc.prems(2) show ?thesis by auto
  next
    case False
    with Suc.prems(1) have "H ! Suc K \<le> i" by (intro Suc.prems(3)) auto
    moreover from False Suc have "lst H i K = p" by simp
    ultimately show ?thesis by (simp add: not_less)
  qed
qed simp

lemma lst_nxt: "i < H ! p \<Longrightarrow> p \<le> K \<Longrightarrow> K < length H \<Longrightarrow> K < nxt H i p \<Longrightarrow> lst H i K = p"
  by (rule lst_eqI) (auto intro: nxt_low)

lemma nxt_lst: "i < H ! 0 \<Longrightarrow> K < length H \<Longrightarrow> K < nxt H i (lst H i K)"
proof (rule ccontr)
  assume a: "i < H ! 0" "K < length H" "\<not> K < nxt H i (lst H i K)"
  then have "i < H ! nxt H i (lst H i K)" by (intro nxt_high) simp
  moreover have "H ! nxt H i (lst H i K) \<le> i" using a(3) nxt_gt by (intro lst_low) auto
  ultimately show False by simp
qed

lemma nxt_before_lst: "i < H ! p \<Longrightarrow> p < lst H i K \<Longrightarrow> K < length H \<Longrightarrow> i < H ! 0 \<Longrightarrow> nxt H i p \<le> lst H i K"
  by (metis lst_high lst_le nxt_low leD le_less_trans not_le_imp_less)

lemma lst_0: "\<forall>j < length H. 0 < H ! j \<Longrightarrow> K < length H \<Longrightarrow> lst H 0 K = K"
  by (rule lst_eqI) auto

lemma lst_cong: "(\<And>j. j \<le> K \<Longrightarrow> H ! j = H' ! j) \<Longrightarrow> lst H i K = lst H' i K"
  by (induction K) auto

declare lst.simps [simp del]

subsection \<open>Inserting a position\<close>

lemma nth_ins: "k \<le> length xs \<Longrightarrow> ins k v xs ! j = (if j < k then xs ! j else if j = k then v else xs ! (j - 1))"
  by (auto simp: ins_def nth_append min_def nth_Cons' not_less)

lemma length_ins [simp]: "length (ins k v xs) = Suc (length xs)"
  by (simp add: ins_def)

lemma ins_Cons: "ins (Suc k) v (x # xs) = x # ins k v xs"
  by (simp add: ins_def)

lemma set_ins [simp]: "set (ins k v xs) = insert v (set xs)"
  by (metis append_take_drop_id ins_def list.simps(15) set_append Un_insert_right)

lemma distinct_ins [simp]: "distinct (ins k v xs) \<longleftrightarrow> v \<notin> set xs \<and> distinct xs"
proof -
  have "distinct (as @ v # bs) \<longleftrightarrow> v \<notin> set (as @ bs) \<and> distinct (as @ bs)" for as bs by auto
  from this [of "take k xs" "drop k xs"] show ?thesis unfolding ins_def append_take_drop_id .
qed

lemma lst_ins: "K < length H \<Longrightarrow> lst (ins (Suc K) v H) i K = lst H i K"
  by (rule lst_cong) (simp add: nth_ins)

lemma nxt_ins_new:
  assumes "p \<le> K" and "K < length H" and "i < v" and "K < nxt H i p"
  shows "nxt (ins (Suc K) v H) i p = Suc K"
proof (rule nxt_eqI)
  show "\<And>j. p < j \<Longrightarrow> j < Suc K \<Longrightarrow> ins (Suc K) v H ! j \<le> i"
    using assms nxt_low [of p _ H i] by (simp add: nth_ins)
qed (use assms in \<open>simp_all add: nth_ins\<close>)

lemma nxt_ins_old:
  assumes "p \<le> K" and "K < length H" and "v \<le> i \<or> nxt H i p \<le> K"
  shows "nxt (ins (Suc K) v H) i p = (if nxt H i p \<le> K then nxt H i p else Suc (nxt H i p))"
proof (rule nxt_eqI)
  let ?q = "if nxt H i p \<le> K then nxt H i p else Suc (nxt H i p)"
  show "p < ?q" "?q \<le> length (ins (Suc K) v H)" using nxt_gt [of p H i] nxt_le [of p H i] assms by auto
  show "i < ins (Suc K) v H ! ?q" if "?q < length (ins (Suc K) v H)"
    using that assms nxt_high [of H i p] by (auto simp: nth_ins)
  show "ins (Suc K) v H ! j \<le> i" if "p < j" "j < ?q" for j
    using that assms nxt_low [of p _ H i] nxt_le [of p H i] by (auto simp: nth_ins split: if_splits)
qed

lemma nxt_ins_at:
  assumes "p \<le> K" and "K < length H" and "K < nxt H i p"
  shows "nxt (ins (Suc K) v H) i (Suc K) = Suc (nxt H i p)"
proof (rule nxt_eqI)
  show "ins (Suc K) v H ! j \<le> i" if "Suc K < j" "j < Suc (nxt H i p)" for j
    using that assms nxt_low [of p "j - 1" H i] nxt_le [of p H i] by (auto simp: nth_ins)
qed (use assms nxt_le [of p H i] nxt_high [of H i p] in \<open>auto simp: nth_ins\<close>)

lemma nxt_ins_gt:
  assumes "K < p" and "p < length H"
  shows "nxt (ins (Suc K) v H) i (Suc p) = Suc (nxt H i p)"
proof (rule nxt_eqI)
  show "ins (Suc K) v H ! j \<le> i" if "Suc p < j" "j < Suc (nxt H i p)" for j
    using that assms nxt_low [of p "j - 1" H i] nxt_le [of p H i] by (auto simp: nth_ins)
qed (use assms nxt_gt [of p H i] nxt_le [of p H i] nxt_high [of H i p] in \<open>auto simp: nth_ins\<close>)

subsection \<open>Searching\<close>

abbreviation Hs :: "nat list \<Rightarrow> nat list" where "Hs hs \<equiv> maxLevel # hs"
abbreviation As :: "nat list \<Rightarrow> nat list" where "As as \<equiv> 0 # as"

lemma sl_rep_lengths: "sl_rep sl es hs as \<Longrightarrow> length hs = length es \<and> length as = length es"
  by (simp add: sl_rep_def)

lemma sl_rep_node:
  assumes "sl_rep sl es hs as" and "p \<le> length es"
  obtains nd where "sl_nodes sl (As as ! p) = Some nd" "zn_height nd = Hs hs ! p"
    "0 < p \<Longrightarrow> zn_elem nd = es ! (p - 1)" "p = 0 \<Longrightarrow> Member (zn_elem nd) = []"
proof (cases p)
  case 0
  with assms that show ?thesis by (auto simp: sl_rep_def)
next
  case (Suc q)
  with assms have "sl_nodes sl (as ! q) = Some \<lparr>zn_elem = es ! q,
      zn_backward = (if q = 0 then None else Some (as ! (q - 1))), zn_height = hs ! q\<rparr>"
    by (simp add: sl_rep_def)
  with Suc that show ?thesis by auto
qed

lemma sl_rep_fwd:
  assumes "sl_rep sl es hs as" and "p \<le> length es" and "i < Hs hs ! p"
  shows "sl_fwd sl (As as ! p) i = (if nxt (Hs hs) i p \<le> length es then Some (As as ! nxt (Hs hs) i p) else None)"
    and "i < sl_level sl \<Longrightarrow> sl_span sl (As as ! p) i = int (min (nxt (Hs hs) i p) (length es)) - int p"
proof -
  have l: "sl_links sl (Hs hs) (As as)" "length hs = length es" using assms(1) by (simp_all add: sl_rep_def)
  then have "p < length (Hs hs)" using assms(2) by simp
  with l assms(3) show "sl_fwd sl (As as ! p) i = (if nxt (Hs hs) i p \<le> length es then Some (As as ! nxt (Hs hs) i p) else None)"
    "i < sl_level sl \<Longrightarrow> sl_span sl (As as ! p) i = int (min (nxt (Hs hs) i p) (length es)) - int p"
    by (auto simp: sl_links_def less_Suc_eq_le simp del: nth_Cons_Suc)
qed

lemma sl_rep_forward:
  assumes "sl_rep sl es hs as" and "p \<le> length es" and "i < Hs hs ! p"
  shows "forward sl (As as ! p) i = Some (if nxt (Hs hs) i p \<le> length es then Some (As as ! nxt (Hs hs) i p) else None)"
  by (rule sl_rep_node [OF assms(1,2)]) (use assms(3) sl_rep_fwd(1) [OF assms] in \<open>simp add: forward_def\<close>)

lemma sl_rep_level: "sl_rep sl es hs as \<Longrightarrow> 1 \<le> sl_level sl \<and> sl_level sl \<le> maxLevel"
  by (simp add: sl_rep_def)

lemma sl_rep_height_max: "sl_rep sl es hs as \<Longrightarrow> j < length (Hs hs) \<Longrightarrow> Hs hs ! j \<le> maxLevel"
proof (cases j)
  case (Suc k)
  assume r: "sl_rep sl es hs as" "j < length (Hs hs)"
  with Suc have "hs ! k \<in> set hs" by simp
  with r(1) have "hs ! k \<le> sl_level sl" "sl_level sl \<le> maxLevel" unfolding sl_rep_def by blast+
  with Suc show ?thesis by simp
qed simp

lemma sl_rep_heights: "sl_rep sl es hs as \<Longrightarrow> j < length (Hs hs) \<Longrightarrow> 0 < Hs hs ! j"
  by (cases j) (auto simp: sl_rep_def maxLevel_def Suc_le_eq)

text \<open>
  A search condition cuts the list at position \<open>K\<close> when it holds of a forward move exactly if the
  move does not pass \<open>K\<close>. Every search of the code has such a condition.
\<close>

definition cuts :: "(int \<Rightarrow> int \<Rightarrow> 'f Element \<Rightarrow> bool) \<Rightarrow> 'f Element list \<Rightarrow> nat \<Rightarrow> bool" where
  "cuts c es K \<longleftrightarrow> K \<le> length es \<and>
     (\<forall>p q. p < q \<longrightarrow> q \<le> length es \<longrightarrow> (c (int p) (int q - int p) (es ! (q - 1)) \<longleftrightarrow> q \<le> K))"

lemma walk_rep:
  assumes rep: "sl_rep sl es hs as" and cut: "cuts c es K" and "i < sl_level sl"
    and "p \<le> K" and "i < Hs hs ! p"
  shows "walk sl i c (As as ! p) (int p) = Some (As as ! lst (Hs hs) i K, int (lst (Hs hs) i K))"
  using assms(4,5)
proof (induction "K - p" arbitrary: p rule: less_induct)
  case less
  let ?H = "Hs hs" and ?A = "As as"
  have K: "K \<le> length es" and len: "length hs = length es" using cut sl_rep_lengths [OF rep] by (simp_all add: cuts_def)
  have f: "forward sl (?A ! p) i = Some (if nxt ?H i p \<le> length es then Some (?A ! nxt ?H i p) else None)"
    using less.prems K by (intro sl_rep_forward [OF rep]) auto
  show ?case
  proof (cases "nxt ?H i p \<le> K")
    case False
    then have l: "lst ?H i K = p" using less.prems K len by (intro lst_nxt) auto
    show ?thesis
    proof (cases "nxt ?H i p \<le> length es")
      case True
      have "0 < nxt ?H i p" using nxt_gt [of p ?H i] by simp
      then obtain nd where nd: "sl_nodes sl (?A ! nxt ?H i p) = Some nd" "zn_elem nd = es ! (nxt ?H i p - 1)"
        using sl_rep_node [OF rep True] by blast
      have "sl_span sl (?A ! p) i = int (nxt ?H i p) - int p"
        using sl_rep_fwd(2) [OF rep _ less.prems(2) assms(3)] less.prems(1) K True by simp
      then have "\<not> c (int p) (sl_span sl (?A ! p) i) (zn_elem nd)"
        using cut False True nd nxt_gt [of p ?H i] by (auto simp: cuts_def)
      with f True nd l show ?thesis by (subst walk.simps) simp
    qed (use f l in \<open>subst walk.simps, simp\<close>)
  next
    case True
    with K have n: "nxt ?H i p \<le> length es" by simp
    have "0 < nxt ?H i p" using nxt_gt [of p ?H i] by simp
    then obtain nd where nd: "sl_nodes sl (?A ! nxt ?H i p) = Some nd" "zn_elem nd = es ! (nxt ?H i p - 1)"
      using sl_rep_node [OF rep n] by blast
    have s: "sl_span sl (?A ! p) i = int (nxt ?H i p) - int p"
      using sl_rep_fwd(2) [OF rep _ less.prems(2) assms(3)] less.prems(1) K n by simp
    then have "c (int p) (sl_span sl (?A ! p) i) (zn_elem nd)"
      using cut True n nd nxt_gt [of p ?H i] by (auto simp: cuts_def)
    moreover have "walk sl i c (?A ! nxt ?H i p) (int (nxt ?H i p)) = Some (?A ! lst ?H i K, int (lst ?H i K))"
      using True n len nxt_gt [of p ?H i] by (intro less.hyps nxt_high) auto
    ultimately show ?thesis using f n nd s by (subst walk.simps) simp
  qed
qed

lemma descend_rep:
  assumes rep: "sl_rep sl es hs as" and cut: "cuts c es K" and "L \<le> sl_level sl"
    and "p \<le> K" and "\<And>i. i < L \<Longrightarrow> i < Hs hs ! p"
  shows "descend sl c L (As as ! p) (int p) update rank =
    Some (As as ! (if L = 0 then p else lst (Hs hs) 0 K), int (if L = 0 then p else lst (Hs hs) 0 K),
      map (\<lambda>i. As as ! lst (Hs hs) i K) [0..<L] @ update, map (\<lambda>i. int (lst (Hs hs) i K)) [0..<L] @ rank)"
  using assms(3-5)
proof (induction L arbitrary: p update rank)
  case (Suc L)
  let ?l = "lst (Hs hs) L K"
  have "L < maxLevel" using Suc.prems(1) sl_rep_level [OF rep] by simp
  then have "L < Hs hs ! ?l" using lst_high [of L "Hs hs" K] by simp
  then have "\<And>i. i < L \<Longrightarrow> i < Hs hs ! ?l" by simp
  with Suc lst_le [of "Hs hs" L K] show ?case
    by (simp add: walk_rep [OF rep cut] Suc_le_eq del: nth_Cons_Suc)
qed simp

lemma descend_top:
  assumes rep: "sl_rep sl es hs as" and cut: "cuts c es K"
  shows "descend sl c (sl_level sl) 0 0 [] [] = Some (As as ! K, int K,
    map (\<lambda>i. As as ! lst (Hs hs) i K) [0..<sl_level sl], map (\<lambda>i. int (lst (Hs hs) i K)) [0..<sl_level sl])"
proof -
  have "lst (Hs hs) 0 K = K"
    using sl_rep_heights [OF rep] cut sl_rep_lengths [OF rep] by (intro lst_0) (auto simp: cuts_def)
  then show ?thesis
    using descend_rep [OF rep cut order_refl, of 0 "[]" "[]"] sl_rep_level [OF rep] by simp
qed

subsection \<open>The loops over the levels\<close>

text \<open>Each loop of the code, at once: which cells it has changed when it is done.\<close>

definition high :: "'f skiplist \<Rightarrow> nat \<Rightarrow> nat \<Rightarrow> bool" where
  "high sl x i \<longleftrightarrow> (\<exists>nd. sl_nodes sl x = Some nd \<and> i < zn_height nd)"

lemma forward_high: "high sl x i \<Longrightarrow> forward sl x i = Some (sl_fwd sl x i)"
  by (auto simp: high_def forward_def)

lemma high_set_cell [simp]: "high (set_cell sl y j f s) x i = high sl x i"
  by (simp add: high_def set_cell_def)

lemma set_cell_simps [simp]:
  "sl_fwd (set_cell sl x i f s) a j = (if a = x \<and> j = i then f else sl_fwd sl a j)"
  "sl_span (set_cell sl x i f s) a j = (if a = x \<and> j = i then s else sl_span sl a j)"
  "sl_nodes (set_cell sl x i f s) = sl_nodes sl" "sl_tail (set_cell sl x i f s) = sl_tail sl"
  "sl_length (set_cell sl x i f s) = sl_length sl" "sl_level (set_cell sl x i f s) = sl_level sl"
  "sl_fresh (set_cell sl x i f s) = sl_fresh sl"
  by (simp_all add: set_cell_def)

lemma skiplist_eqI:
  fixes sl sl' :: "'f skiplist"
  assumes "sl_nodes sl = sl_nodes sl'" "sl_tail sl = sl_tail sl'" "sl_length sl = sl_length sl'"
    "sl_level sl = sl_level sl'" "sl_fresh sl = sl_fresh sl'"
    "\<And>a j. sl_fwd sl a j = sl_fwd sl' a j" "\<And>a j. sl_span sl a j = sl_span sl' a j"
  shows "sl = sl'"
proof -
  have "sl_fwd sl = sl_fwd sl'" "sl_span sl = sl_span sl'" using assms(6,7) by (auto simp: fun_eq_iff)
  with assms show ?thesis by (cases sl; cases sl') simp
qed

lemma extend_levels_eq:
  assumes "\<And>j. j < i + n \<Longrightarrow> high sl 0 j"
  shows "extend_levels sl i n = Some (sl\<lparr>sl_span := (sl_span sl)(0 := (\<lambda>j. if i \<le> j \<and> j < i + n then sl_length sl else sl_span sl 0 j))\<rparr>)"
  using assms
proof (induction n arbitrary: sl i)
  case 0
  then show ?case by (auto intro!: skiplist_eqI)
next
  case (Suc n)
  have "high sl 0 i" using Suc.prems by simp
  then have "extend_levels sl i (Suc n) = extend_levels (set_cell sl 0 i (sl_fwd sl 0 i) (sl_length sl)) (Suc i) n"
    by (simp add: forward_high)
  also have "\<dots> = Some (sl\<lparr>sl_span := (sl_span sl)(0 := (\<lambda>j. if i \<le> j \<and> j < i + Suc n then sl_length sl else sl_span sl 0 j))\<rparr>)"
    using Suc.prems by (subst Suc.IH) (auto intro!: skiplist_eqI)
  finally show ?case .
qed

lemma link_levels_eq:
  assumes "i + n \<le> length update" and "length update \<le> length rank" and "x \<notin> set update"
    and "\<And>j. j < i + n \<Longrightarrow> high sl (update ! j) j"
  shows "link_levels sl x update rank i n = Some (sl\<lparr>
    sl_fwd := (\<lambda>a j. if i \<le> j \<and> j < i + n then if a = x then sl_fwd sl (update ! j) j
        else if a = update ! j then Some x else sl_fwd sl a j else sl_fwd sl a j),
    sl_span := (\<lambda>a j. if i \<le> j \<and> j < i + n then if a = x then sl_span sl (update ! j) j - (rank ! 0 - rank ! j)
        else if a = update ! j then rank ! 0 - rank ! j + 1 else sl_span sl a j else sl_span sl a j)\<rparr>)"
  using assms
proof (induction n arbitrary: sl i)
  case 0
  then show ?case by (auto intro!: skiplist_eqI)
next
  case (Suc n)
  let ?u = "update ! i" and ?d = "rank ! 0 - rank ! i"
  let ?sl = "set_cell (set_cell sl x i (sl_fwd sl ?u i) (sl_span sl ?u i - ?d)) ?u i (Some x) (?d + 1)"
  have ne: "update ! j \<noteq> x" if "j < i + Suc n" for j
  proof -
    have "j < length update" using that Suc.prems(1) by simp
    then show ?thesis using Suc.prems(3) by (metis nth_mem)
  qed
  have "0 < length rank" using Suc.prems(1,2) by linarith
  moreover have "high sl ?u i" using Suc.prems(4) [of i] by simp
  ultimately have "link_levels sl x update rank i (Suc n) = link_levels ?sl x update rank (Suc i) n"
    using Suc.prems(1,2) by (simp add: forward_high Let_def)
  also have "\<dots> = Some (?sl\<lparr>
    sl_fwd := (\<lambda>a j. if Suc i \<le> j \<and> j < Suc i + n then if a = x then sl_fwd ?sl (update ! j) j
        else if a = update ! j then Some x else sl_fwd ?sl a j else sl_fwd ?sl a j),
    sl_span := (\<lambda>a j. if Suc i \<le> j \<and> j < Suc i + n then if a = x then sl_span ?sl (update ! j) j - (rank ! 0 - rank ! j)
        else if a = update ! j then rank ! 0 - rank ! j + 1 else sl_span ?sl a j else sl_span ?sl a j)\<rparr>)"
    using Suc.prems by (intro Suc.IH) auto
  also have "\<dots> = Some (sl\<lparr>
    sl_fwd := (\<lambda>a j. if i \<le> j \<and> j < i + Suc n then if a = x then sl_fwd sl (update ! j) j
        else if a = update ! j then Some x else sl_fwd sl a j else sl_fwd sl a j),
    sl_span := (\<lambda>a j. if i \<le> j \<and> j < i + Suc n then if a = x then sl_span sl (update ! j) j - (rank ! 0 - rank ! j)
        else if a = update ! j then rank ! 0 - rank ! j + 1 else sl_span sl a j else sl_span sl a j)\<rparr>)"
    using ne by (intro arg_cong [where f = Some] skiplist_eqI) (auto simp: Suc_le_eq le_less)
  finally show ?case .
qed

lemma bump_levels_eq:
  assumes "i + n \<le> length update" and "\<And>j. j < i + n \<Longrightarrow> high sl (update ! j) j"
  shows "bump_levels sl update i n = Some (sl\<lparr>
    sl_span := (\<lambda>a j. if i \<le> j \<and> j < i + n \<and> a = update ! j then sl_span sl a j + 1 else sl_span sl a j)\<rparr>)"
  using assms
proof (induction n arbitrary: sl i)
  case 0
  then show ?case by (auto intro!: skiplist_eqI)
next
  case (Suc n)
  let ?sl = "set_cell sl (update ! i) i (sl_fwd sl (update ! i) i) (sl_span sl (update ! i) i + 1)"
  have "high sl (update ! i) i" using Suc.prems(2) [of i] by simp
  then have "bump_levels sl update i (Suc n) = bump_levels ?sl update (Suc i) n"
    using Suc.prems(1) by (simp add: forward_high)
  also have "\<dots> = Some (sl\<lparr>
    sl_span := (\<lambda>a j. if i \<le> j \<and> j < i + Suc n \<and> a = update ! j then sl_span sl a j + 1 else sl_span sl a j)\<rparr>)"
    using Suc.prems by (subst Suc.IH) (auto intro!: skiplist_eqI simp: Suc_le_eq le_less)
  finally show ?case .
qed

lemma unlink_levels_eq:
  assumes "i + n \<le> length update" and "x \<notin> set update" and "\<And>j. j < i + n \<Longrightarrow> high sl (update ! j) j"
    and "\<And>j. j < i + n \<Longrightarrow> sl_fwd sl (update ! j) j = Some x \<Longrightarrow> high sl x j"
  shows "unlink_levels sl x update i n = Some (sl\<lparr>
    sl_fwd := (\<lambda>a j. if i \<le> j \<and> j < i + n \<and> a = update ! j \<and> sl_fwd sl a j = Some x then sl_fwd sl x j else sl_fwd sl a j),
    sl_span := (\<lambda>a j. if i \<le> j \<and> j < i + n \<and> a = update ! j then
       if sl_fwd sl a j = Some x then sl_span sl a j + (sl_span sl x j - 1) else sl_span sl a j - 1 else sl_span sl a j)\<rparr>)"
  using assms
proof (induction n arbitrary: sl i)
  case 0
  then show ?case by (auto intro!: skiplist_eqI)
next
  case (Suc n)
  let ?u = "update ! i"
  let ?sl = "if sl_fwd sl ?u i = Some x
    then set_cell sl ?u i (sl_fwd sl x i) (sl_span sl ?u i + (sl_span sl x i - 1))
    else set_cell sl ?u i (sl_fwd sl ?u i) (sl_span sl ?u i - 1)"
  have ne: "update ! j \<noteq> x" if "j < i + Suc n" for j
  proof -
    have "j < length update" using that Suc.prems(1) by simp
    then show ?thesis using Suc.prems(2) by (metis nth_mem)
  qed
  have "high sl ?u i" "sl_fwd sl ?u i = Some x \<Longrightarrow> high sl x i" using Suc.prems(3,4) [of i] by simp_all
  then have "unlink_levels sl x update i (Suc n) = unlink_levels ?sl x update (Suc i) n"
    using Suc.prems(1) by (simp add: forward_high)
  also have "\<dots> = Some (sl\<lparr>
    sl_fwd := (\<lambda>a j. if i \<le> j \<and> j < i + Suc n \<and> a = update ! j \<and> sl_fwd sl a j = Some x then sl_fwd sl x j else sl_fwd sl a j),
    sl_span := (\<lambda>a j. if i \<le> j \<and> j < i + Suc n \<and> a = update ! j then
       if sl_fwd sl a j = Some x then sl_span sl a j + (sl_span sl x j - 1) else sl_span sl a j - 1 else sl_span sl a j)\<rparr>)"
    using Suc.prems ne by (subst Suc.IH) (auto intro!: skiplist_eqI simp: Suc_le_eq le_less split: if_splits)
  finally show ?case .
qed

subsection \<open>insert\<close>

lemma Len64_bounds: "0 < n \<Longrightarrow> n < 2 ^ k \<Longrightarrow> 1 \<le> Len64 n \<and> Len64 n \<le> k"
proof (induction k arbitrary: n)
  case (Suc k)
  show ?case
  proof (cases "n div 2 = 0")
    case True
    with Suc.prems show ?thesis by (simp add: Len64.simps [of n] Len64.simps [of 0])
  next
    case False
    with Suc.prems Suc.IH [of "n div 2"] show ?thesis by (simp add: Len64.simps [of n] less_mult_imp_div_less)
  qed
qed simp

lemma randomLevel_range: "1 \<le> randomLevel rnd \<and> randomLevel rnd \<le> maxLevel"
proof -
  have "rnd mod (2 ^ maxLevel - 1) < 2 ^ maxLevel - (1::nat)" by (simp add: maxLevel_def)
  then have "rnd mod (2 ^ maxLevel - 1) + 1 < (2::nat) ^ maxLevel" by linarith
  from Len64_bounds [OF _ this] show ?thesis unfolding randomLevel_def Let_def by auto
qed

lemma lst_above_level:
  assumes "sl_rep sl es hs as" and "sl_level sl \<le> j" and "K \<le> length es"
  shows "lst (Hs hs) j K = 0"
proof (rule lst_eqI)
  fix k assume "0 < k" "k \<le> K"
  with assms have "Hs hs ! k \<in> set hs" by (cases k) (auto simp: sl_rep_def)
  with assms(1,2) show "Hs hs ! k \<le> j" by (force simp: sl_rep_def)
qed auto

lemma update_eq:
  assumes "sl_rep sl es hs as" and "K \<le> length es"
  shows "map (\<lambda>i. As as ! lst (Hs hs) i K) [0..<sl_level sl] @ replicate (lv - sl_level sl) 0
      = map (\<lambda>i. As as ! lst (Hs hs) i K) [0..<max (sl_level sl) lv]"
    and "map (\<lambda>i. int (lst (Hs hs) i K)) [0..<sl_level sl] @ replicate (lv - sl_level sl) 0
      = map (\<lambda>i. int (lst (Hs hs) i K)) [0..<max (sl_level sl) lv]"
  using lst_above_level [OF assms(1) _ assms(2)]
  by (intro nth_equalityI; auto simp: nth_append not_less)+

lemma high_rep: "sl_rep sl es hs as \<Longrightarrow> p \<le> length es \<Longrightarrow> i < Hs hs ! p \<Longrightarrow> high sl (As as ! p) i"
  by (metis high_def sl_rep_node)

lemma high_lst: "sl_rep sl es hs as \<Longrightarrow> K \<le> length es \<Longrightarrow> i < maxLevel \<Longrightarrow> high sl (As as ! lst (Hs hs) i K) i"
  using lst_high [of i "Hs hs" K] by (intro high_rep) (auto intro: order_trans [OF lst_le])

lemma sl_insert_eq:
  assumes rep: "sl_rep sl es hs as" and cut: "cuts (\<lambda>r s e. before member score e) es K"
    and lv: "lv = randomLevel rnd" and x: "x = sl_fresh sl" and L: "L = max (sl_level sl) lv"
    and U: "\<And>j. U j = As as ! lst (Hs hs) j K"
    and sp: "\<And>a j. sp a j = (if a = 0 \<and> sl_level sl \<le> j \<and> j < L then int (length es) else sl_span sl a j)"
  shows "\<exists>sl'. sl_insert rnd sl member score = Some sl' \<and> sl_level sl' = L \<and> sl_fresh sl' = x + 1 \<and>
    sl_length sl' = sl_length sl + 1 \<and>
    sl_tail sl' = (if sl_fwd sl (As as ! K) 0 = None then Some x else sl_tail sl) \<and>
    sl_nodes sl' = (\<lambda>a. if Some a = sl_fwd sl (As as ! K) 0 then map_option (\<lambda>nd. nd\<lparr>zn_backward := Some x\<rparr>) (sl_nodes sl a)
      else if a = x then Some \<lparr>zn_elem = \<lparr>Member = member, Score = score\<rparr>,
        zn_backward = (if K = 0 then None else Some (As as ! K)), zn_height = lv\<rparr> else sl_nodes sl a) \<and>
    (\<forall>a j. sl_fwd sl' a j = (if j < lv then if a = x then sl_fwd sl (U j) j else if a = U j then Some x else sl_fwd sl a j
      else if a = x then None else sl_fwd sl a j)) \<and>
    (\<forall>a j. sl_span sl' a j = (if j < lv then if a = x then sp (U j) j - (int K - int (lst (Hs hs) j K))
        else if a = U j then int K - int (lst (Hs hs) j K) + 1 else sp a j
      else if j < L \<and> a = U j \<and> a \<noteq> x then sp a j + 1 else if a = x then 0 else sp a j))"
proof -
  have K: "K \<le> length es" using cut by (simp add: cuts_def)
  have len: "length as = length es" using sl_rep_lengths [OF rep] by simp
  have lv16: "1 \<le> lv" "lv \<le> maxLevel" using randomLevel_range lv by simp_all
  have L16: "L \<le> maxLevel" using L lv16 sl_rep_level [OF rep] by simp
  have xA: "x \<notin> set (As as)" using rep x by (force simp: sl_rep_def)
  have UA: "U j \<in> set (As as)" for j
  proof -
    have "lst (Hs hs) j K < length (As as)" using lst_le [of "Hs hs" j K] K len by simp
    then show ?thesis unfolding U by (rule nth_mem)
  qed
  have Ux: "U j \<noteq> x" for j using UA xA by metis
  have x0: "x \<noteq> 0" using xA by auto
  have lst0: "lst (Hs hs) 0 K = K"
    using sl_rep_heights [OF rep] K sl_rep_lengths [OF rep] by (intro lst_0) auto
  have U0: "U 0 = As as ! K" by (simp add: U lst0)
  have hd0: "high sl 0 j" if "j < maxLevel" for j using high_rep [OF rep, of 0 j] that by simp
  have dist: "distinct (As as)" using rep by (simp add: sl_rep_def)
  have U00: "U 0 = 0 \<longleftrightarrow> K = 0"
    unfolding U0 using nth_eq_iff_index_eq [OF dist, of K 0] K len by auto
  let ?upd = "map U [0..<L]" and ?rk = "map (\<lambda>i. int (lst (Hs hs) i K)) [0..<L]"
  let ?s1 = "sl\<lparr>sl_span := sp, sl_level := L\<rparr>"
  define s2 where "s2 = fst (makeNode ?s1 lv score member)"
  have nx: "sl_fwd sl (U 0) 0 \<noteq> Some x"
  proof -
    have "sl_fwd sl (U 0) 0 = Some a \<Longrightarrow> a \<in> set (As as)" for a
      unfolding U0 using sl_rep_fwd(1) [OF rep K, of 0] sl_rep_heights [OF rep, of K] K len
        sl_rep_lengths [OF rep] nth_mem [of "nxt (Hs hs) 0 K" "As as"] by (auto split: if_splits)
    with xA show ?thesis by blast
  qed
  have e1: "extend_levels sl (sl_level sl) (lv - sl_level sl) = Some (sl\<lparr>sl_span := sp\<rparr>)"
  proof -
    have "sp = (sl_span sl)(0 := (\<lambda>j. if sl_level sl \<le> j \<and> j < sl_level sl + (lv - sl_level sl) then sl_length sl else sl_span sl 0 j))"
      using rep L by (auto simp: fun_eq_iff sp sl_rep_def)
    with extend_levels_eq [of "sl_level sl" "lv - sl_level sl" sl] hd0 L16 L show ?thesis by simp
  qed
  have h2: "high s2 (U j) j" if "j < L" for j
    using high_lst [OF rep K, of j] that L16 Ux [of j]
    by (auto simp: high_def s2_def makeNode_def Let_def U x)
  define s3 where "s3 = s2\<lparr>
    sl_fwd := (\<lambda>a j. if j < lv then if a = x then sl_fwd s2 (U j) j else if a = U j then Some x else sl_fwd s2 a j else sl_fwd s2 a j),
    sl_span := (\<lambda>a j. if j < lv then if a = x then sl_span s2 (U j) j - (int K - int (lst (Hs hs) j K))
        else if a = U j then int K - int (lst (Hs hs) j K) + 1 else sl_span s2 a j else sl_span s2 a j)\<rparr>"
  have e2: "link_levels s2 x ?upd ?rk 0 lv = Some s3"
    using L lv16 h2 Ux lst0 by (subst link_levels_eq) (auto simp: s3_def intro!: skiplist_eqI)
  define s4 where "s4 = s3\<lparr>sl_span := (\<lambda>a j. if lv \<le> j \<and> j < L \<and> a = U j then sl_span s3 a j + 1 else sl_span s3 a j)\<rparr>"
  have h3: "high s3 (U j) j" if "j < L" for j using h2 [OF that] by (simp add: high_def s3_def)
  have e3: "bump_levels s3 ?upd lv (L - lv) = Some s4"
    using L h3 by (subst bump_levels_eq) (auto simp: s4_def intro!: skiplist_eqI)
  define s5 where "s5 = set_backward s4 x (if U 0 = 0 then None else Some (U 0))"
  have e4: "forward s5 x 0 = Some (sl_fwd sl (U 0) 0)"
    using lv16 Ux [of 0] x
    by (simp add: forward_def s5_def set_backward_def s4_def s3_def s2_def makeNode_def Let_def)
  define s6 where "s6 = (case sl_fwd sl (U 0) 0 of Some y \<Rightarrow> set_backward s5 y (Some x) | None \<Rightarrow> s5\<lparr>sl_tail := Some x\<rparr>)"
  have e5: "makeNode ?s1 lv score member = (s2, x)" by (simp add: s2_def makeNode_def Let_def x)
  have e6: "sl_level s3 = L" by (simp add: s3_def s2_def makeNode_def Let_def)
  have e7: "go_index ?upd 0 = Some (U 0)" using lv16 L by simp
  have "U = (\<lambda>j. As as ! lst (Hs hs) j K)" by (rule ext) (rule U)
  then have e8: "descend sl (\<lambda>r s e. before member score e) (sl_level sl) 0 0 [] [] =
      Some (As as ! K, int K, map U [0..<sl_level sl], map (\<lambda>i. int (lst (Hs hs) i K)) [0..<sl_level sl])"
    and e9: "map U [0..<sl_level sl] @ replicate (lv - sl_level sl) 0 = ?upd"
    and e10: "map (\<lambda>i. int (lst (Hs hs) i K)) [0..<sl_level sl] @ replicate (lv - sl_level sl) 0 = ?rk"
    using descend_top [OF rep cut] update_eq [OF rep K, of lv] L by simp_all
  have eq: "sl_insert rnd sl member score = Some (s6\<lparr>sl_length := sl_length s6 + 1\<rparr>)"
    unfolding s6_def s5_def
    by (simp add: sl_insert_def lv [symmetric] e8 e9 e10 e1 L [symmetric] e5 e2 e6 e3 e7 e4 [unfolded s5_def] Let_def
        split del: if_split)
  have fields: "sl_level s6 = L" "sl_fresh s6 = x + 1" "sl_length s6 = sl_length sl" "sl_fwd s6 = sl_fwd s4" "sl_span s6 = sl_span s4"
    by (simp_all add: s6_def s5_def s4_def s3_def s2_def set_backward_def makeNode_def Let_def x split: option.splits)
  have "sl_tail s6 = (if sl_fwd sl (U 0) 0 = None then Some x else sl_tail sl)"
    by (simp add: s6_def s5_def s4_def s3_def s2_def set_backward_def makeNode_def Let_def x split: option.splits)
  moreover have "sl_nodes s6 = (\<lambda>a. if Some a = sl_fwd sl (U 0) 0 then map_option (\<lambda>nd. nd\<lparr>zn_backward := Some x\<rparr>) (sl_nodes sl a)
      else if a = x then Some \<lparr>zn_elem = \<lparr>Member = member, Score = score\<rparr>,
        zn_backward = (if K = 0 then None else Some (U 0)), zn_height = lv\<rparr> else sl_nodes sl a)"
    using nx U00 by (auto simp: fun_eq_iff s6_def s5_def s4_def s3_def s2_def set_backward_def makeNode_def Let_def x split: option.splits)
  moreover have "sl_fwd s4 a j = (if j < lv then if a = x then sl_fwd sl (U j) j else if a = U j then Some x else sl_fwd sl a j
      else if a = x then None else sl_fwd sl a j)" for a j
    using Ux [of j] by (simp add: s4_def s3_def s2_def makeNode_def Let_def x)
  moreover have "sl_span s4 a j = (if j < lv then if a = x then sp (U j) j - (int K - int (lst (Hs hs) j K))
        else if a = U j then int K - int (lst (Hs hs) j K) + 1 else sp a j
      else if j < L \<and> a = U j \<and> a \<noteq> x then sp a j + 1 else if a = x then 0 else sp a j)" for a j
    using Ux [of j] by (auto simp: s4_def s3_def s2_def makeNode_def Let_def x)
  ultimately show ?thesis
    unfolding eq U0 [symmetric] by (intro exI [of _ "s6\<lparr>sl_length := sl_length s6 + 1\<rparr>"]) (simp add: fields)
qed

lemma As_inj: "distinct (As as) \<Longrightarrow> p \<le> length as \<Longrightarrow> q \<le> length as \<Longrightarrow> As as ! p = As as ! q \<longleftrightarrow> p = q"
  using nth_eq_iff_index_eq [of "As as" p q] by simp

text \<open>The links after the insertion, for a position up to \<open>K\<close>, the new one, and one behind it.\<close>

lemma sl_insert_links:
  assumes rep: "sl_rep sl es hs as" and K: "K \<le> length es" and x: "x \<notin> set (As as)"
    and L: "L = max (sl_level sl) lv" "lv \<le> maxLevel" "sl_level sl' = L"
    and U: "\<And>j. U j = As as ! lst (Hs hs) j K"
    and sp: "\<And>a j. sp a j = (if a = 0 \<and> sl_level sl \<le> j \<and> j < L then int (length es) else sl_span sl a j)"
    and fwd: "\<And>a j. sl_fwd sl' a j = (if j < lv then if a = x then sl_fwd sl (U j) j else if a = U j then Some x else sl_fwd sl a j
      else if a = x then None else sl_fwd sl a j)"
    and span: "\<And>a j. sl_span sl' a j = (if j < lv then if a = x then sp (U j) j - (int K - int (lst (Hs hs) j K))
        else if a = U j then int K - int (lst (Hs hs) j K) + 1 else sp a j
      else if j < L \<and> a = U j \<and> a \<noteq> x then sp a j + 1 else if a = x then 0 else sp a j)"
  shows "sl_links sl' (ins (Suc K) lv (Hs hs)) (ins (Suc K) x (As as))"
proof -
  let ?H = "Hs hs" and ?A = "As as" and ?n = "length es"
  let ?H' = "ins (Suc K) lv ?H" and ?A' = "ins (Suc K) x ?A"
  have len: "length hs = ?n" "length as = ?n" using sl_rep_lengths [OF rep] by simp_all
  have dist: "distinct ?A" using rep by (simp add: sl_rep_def)
  have oldf: "sl_fwd sl (?A ! p) i = (if nxt ?H i p \<le> ?n then Some (?A ! nxt ?H i p) else None)"
    if "p \<le> ?n" "i < ?H ! p" for p i using sl_rep_fwd(1) [OF rep that] .
  have olds: "sp (?A ! p) i = int (min (nxt ?H i p) ?n) - int p" if "p \<le> ?n" "i < ?H ! p" "i < L" for p i
  proof (cases "i < sl_level sl")
    case True
    then show ?thesis using sl_rep_fwd(2) [OF rep that(1,2)] by (simp add: sp)
  next
    case False
    have "p = 0"
    proof (rule ccontr)
      assume "p \<noteq> 0"
      then have "?H ! p \<in> set hs" using that(1) len by (cases p) auto
      then show False using rep False that(2) by (force simp: sl_rep_def)
    qed
    moreover have "nxt ?H i 0 = Suc ?n"
    proof (rule nxt_eqI)
      fix j assume "0 < j" "j < Suc ?n"
      then have "?H ! j \<in> set hs" using len by (cases j) auto
      then show "?H ! j \<le> i" using rep False by (force simp: sl_rep_def)
    qed (use len in auto)
    ultimately show ?thesis using False that(3) by (simp add: sp)
  qed
  have Ax: "?A ! p \<noteq> x" if "p \<le> ?n" for p using x that len nth_mem [of p ?A] by auto
  have lK: "lst ?H i K \<le> K" for i by (rule lst_le)
  have UA: "?A ! p = U i \<longleftrightarrow> p = lst ?H i K" if "p \<le> ?n" for p i
    unfolding U using As_inj [OF dist] that len lK [of i] K by (metis order_trans)
  have lhigh: "i < ?H ! lst ?H i K" "K < nxt ?H i (lst ?H i K)" if "i < maxLevel" for i
    using that len K by (auto intro!: lst_high nxt_lst)
  show ?thesis unfolding sl_links_def
  proof (intro allI impI)
    fix p i assume p: "p < length ?H'" and i: "i < ?H' ! p"
    let ?goal = "sl_fwd sl' (?A' ! p) i = (if nxt ?H' i p < length ?H' then Some (?A' ! nxt ?H' i p) else None) \<and>
      (i < sl_level sl' \<longrightarrow> sl_span sl' (?A' ! p) i = int (min (nxt ?H' i p) (length ?H' - 1)) - int p)"
    consider (lo) "p \<le> K" | (new) "p = Suc K" | (hi) q where "p = Suc q" "K < q"
      by (metis Suc_lessE Suc_lessI leI le_imp_less_Suc linorder_neqE_nat)
    then show ?goal
    proof cases
      case lo
      with K len i have pn: "p \<le> ?n" and iH: "i < ?H ! p" and A': "?A' ! p = ?A ! p" by (auto simp: nth_ins)
      have nle: "nxt ?H i p \<le> Suc ?n" using nxt_le [of p ?H i] pn len by simp
      show ?thesis
      proof (cases "p = lst ?H i K \<and> i < lv")
        case True
        have "K < nxt ?H i p" using True lhigh(2) [of i] L(2) by simp
        then have "nxt ?H' i p = Suc K" using True lo K len by (intro nxt_ins_new) auto
        then show ?thesis using True A' Ax [OF pn] UA [OF pn, of i] K len by (simp add: fwd span nth_ins)
      next
        case False
        have old: "nxt ?H' i p = (if nxt ?H i p \<le> K then nxt ?H i p else Suc (nxt ?H i p))"
        proof (rule nxt_ins_old [OF lo])
          show "lv \<le> i \<or> nxt ?H i p \<le> K"
            using False lst_nxt [OF iH lo] K len by (auto simp: not_le)
        qed (use K len in simp)
        have "i < maxLevel" using iH sl_rep_height_max [OF rep, of p] pn len by simp
        then have h: "K < nxt ?H i (lst ?H i K)" by (rule lhigh(2))
        have le: "nxt ?H i p \<le> K \<longleftrightarrow> p \<noteq> lst ?H i K"
        proof
          assume "nxt ?H i p \<le> K"
          with h show "p \<noteq> lst ?H i K" by auto
        next
          assume "p \<noteq> lst ?H i K"
          with lst_nxt [OF iH lo] K len show "nxt ?H i p \<le> K" by (cases "K < nxt ?H i p") auto
        qed
        have cell: "sl_fwd sl' (?A' ! p) i = sl_fwd sl (?A ! p) i"
          "i < L \<Longrightarrow> sl_span sl' (?A' ! p) i = (if p = lst ?H i K then sp (?A ! p) i + 1 else sp (?A ! p) i)"
          using False Ax [OF pn] UA [OF pn, of i] by (auto simp: A' fwd span)
        show ?thesis
        proof (cases "p = lst ?H i K")
          case True
          then have n': "nxt ?H' i p = Suc (nxt ?H i p)" and nK: "K < nxt ?H i p" using old le by simp_all
          have "?A' ! Suc (nxt ?H i p) = ?A ! nxt ?H i p" using nK K len by (simp add: nth_ins)
          moreover have "i < L \<Longrightarrow> sl_span sl' (?A' ! p) i = sp (?A ! p) i + 1" using cell(2) True by simp
          ultimately show ?thesis
            using n' nle by (auto simp: cell(1) oldf [OF pn iH] olds [OF pn iH] L(3) len)
        next
          case nl: False
          then have n': "nxt ?H' i p = nxt ?H i p" and nK: "nxt ?H i p \<le> K" using old le by simp_all
          have "?A' ! nxt ?H i p = ?A ! nxt ?H i p" using nK K len by (simp add: nth_ins)
          then show ?thesis
            using n' nK K nl by (simp add: cell oldf [OF pn iH] olds [OF pn iH] L(3) len)
        qed
      qed
    next
      case new
      then have iv: "i < lv" using i K len by (simp add: nth_ins)
      then have i16: "i < maxLevel" and iL: "i < L" using L by simp_all
      have ln: "lst ?H i K \<le> ?n" using lK [of i] K by simp
      have "nxt ?H' i (Suc K) = Suc (nxt ?H i (lst ?H i K))"
        using lhigh [OF i16] lK [of i] K len by (intro nxt_ins_at) auto
      moreover have "?A' ! p = x" using new K len by (simp add: nth_ins)
      moreover have "nxt ?H i (lst ?H i K) \<le> Suc ?n" using nxt_le [of "lst ?H i K" ?H i] ln len by simp
      moreover have "K < nxt ?H i (lst ?H i K)" using lhigh [OF i16] by simp
      moreover have "sl_fwd sl (U i) i = (if nxt ?H i (lst ?H i K) \<le> ?n then Some (?A ! nxt ?H i (lst ?H i K)) else None)"
        and "sp (U i) i = int (min (nxt ?H i (lst ?H i K)) ?n) - int (lst ?H i K)"
        using oldf [OF ln lhigh(1) [OF i16]] olds [OF ln lhigh(1) [OF i16] iL] by (simp_all add: U)
      ultimately show ?thesis using new iv K len by (auto simp: fwd span nth_ins)
    next
      case hi
      then have qn: "q \<le> ?n" and A': "?A' ! p = ?A ! q" and iH: "i < ?H ! q"
        using p K len i by (auto simp: nth_ins)
      have "nxt ?H' i p = Suc (nxt ?H i q)" unfolding hi(1) using hi qn len by (intro nxt_ins_gt) auto
      moreover have "?A ! q \<noteq> U i" using UA [OF qn, of i] lK [of i] hi(2) by auto
      then have "sl_fwd sl' (?A' ! p) i = sl_fwd sl (?A ! q) i" "i < L \<Longrightarrow> sl_span sl' (?A' ! p) i = sp (?A ! q) i"
        using Ax [OF qn] by (simp_all only: A' fwd span if_False simp_thms split: if_splits)
      moreover have "nxt ?H i q \<le> Suc ?n" using nxt_le [of q ?H i] qn len by simp
      moreover have "?A' ! Suc (nxt ?H i q) = ?A ! nxt ?H i q" using nxt_gt [of q ?H i] hi(2) K len by (simp add: nth_ins)
      ultimately show ?thesis
        using hi(1) by (auto simp: oldf [OF qn iH] olds [OF qn iH] L(3) len)
    qed
  qed
qed

lemma elt_total: "e \<noteq> e' \<Longrightarrow> \<not> elt e e' \<Longrightarrow> elt e' (e :: ('f :: linorder) Element)"
  by (cases e; cases e') (auto simp: elt_def before_def not_less order.order_iff_strict)

lemma elt_trans: "elt a b \<Longrightarrow> elt b c \<Longrightarrow> elt a (c :: ('f :: linorder) Element)"
  by (auto simp: elt_def before_def)

lemma elt_irrefl: "\<not> elt a (a :: ('f :: linorder) Element)"
  by (simp add: elt_def before_def)

lemma before_elt: "before m s e \<longleftrightarrow> elt e \<lparr>Member = m, Score = s\<rparr>"
  by (simp add: elt_def)

text \<open>The number of elements before a given one, and that it cuts the sorted list.\<close>

definition pos :: "('f :: linorder) Element list \<Rightarrow> 'f Element \<Rightarrow> nat" where
  "pos es e = length (takeWhile (\<lambda>a. elt a e) es)"

lemma pos_nth:
  assumes "sorted_wrt elt es" and "i < length es"
  shows "elt (es ! i) e \<longleftrightarrow> i < pos es e"
proof
  assume e: "elt (es ! i) e"
  show "i < pos es e"
  proof (rule ccontr)
    assume n: "\<not> i < pos es e"
    with assms(2) have p: "pos es e < length es" by simp
    then have "\<not> elt (es ! pos es e) e" unfolding pos_def by (rule nth_length_takeWhile)
    moreover have "pos es e = i \<or> elt (es ! pos es e) (es ! i)"
      using sorted_wrt_nth_less [OF assms(1) _ assms(2), of "pos es e"] n by (auto simp: not_less le_less)
    ultimately show False using e elt_trans by blast
  qed
next
  assume "i < pos es e"
  then show "elt (es ! i) e" unfolding pos_def by (metis nth_mem set_takeWhileD takeWhile_nth)
qed

lemma pos_le: "pos es e \<le> length es"
  by (simp add: pos_def length_takeWhile_le)

lemma cuts_before:
  assumes "sorted_wrt elt es"
  shows "cuts (\<lambda>r s e. before m sc e) es (pos es \<lparr>Member = m, Score = sc\<rparr>)"
  unfolding cuts_def before_elt using pos_nth [OF assms] pos_le by (auto simp: less_eq_Suc_le)

lemma sorted_ins:
  assumes "sorted_wrt elt es" and "e \<notin> set es"
  shows "sorted_wrt elt (ins (pos es e) e es)"
proof -
  have l: "pos es e \<le> length es" by (rule pos_le)
  have lo: "elt (es ! i) e" if "i < pos es e" for i using pos_nth [OF assms(1)] that l by auto
  have hi: "elt e (es ! i)" if "pos es e \<le> i" "i < length es" for i
  proof (rule elt_total)
    show "es ! i \<noteq> e" using assms(2) that by auto
    show "\<not> elt (es ! i) e" using pos_nth [OF assms(1)] that by auto
  qed
  show ?thesis
    unfolding sorted_wrt_iff_nth_less using lo hi sorted_wrt_nth_less [OF assms(1)] l
    by (auto simp: nth_ins)
qed

lemma last_ins: "K \<le> length xs \<Longrightarrow> last (ins K x xs) = (if K = length xs then x else last xs)"
  by (auto simp: ins_def)

lemma ins_nonempty [simp]: "ins K x xs \<noteq> []"
  by (simp add: ins_def)

lemma sl_insert_rep:
  assumes rep: "sl_rep sl es hs as" and e: "e = \<lparr>Member = member, Score = score\<rparr>" "e \<notin> set es" and K: "K = pos es e"
  shows "\<exists>sl'. sl_insert rnd sl member score = Some sl' \<and>
    sl_rep sl' (ins K e es) (ins K (randomLevel rnd) hs) (ins K (sl_fresh sl) as)"
proof -
  define lv where "lv = randomLevel rnd"
  define x where "x = sl_fresh sl"
  let ?L = "max (sl_level sl) lv" and ?U = "\<lambda>j. As as ! lst (Hs hs) j K"
  let ?sp = "\<lambda>a j. if a = 0 \<and> sl_level sl \<le> j \<and> j < ?L then int (length es) else sl_span sl a j"
  have srt: "sorted_wrt elt es" using rep by (simp add: sl_rep_def)
  have len: "length hs = length es" "length as = length es" using sl_rep_lengths [OF rep] by simp_all
  have Kn: "K \<le> length es" by (simp add: K pos_le)
  have lv16: "1 \<le> lv" "lv \<le> maxLevel" using randomLevel_range by (simp_all add: lv_def)
  have xA: "x \<notin> set (As as)" using rep by (force simp: sl_rep_def x_def)
  have cut: "cuts (\<lambda>r s e. before member score e) es K" using cuts_before [OF srt] by (simp add: K e)
  obtain sl' where s: "sl_insert rnd sl member score = Some sl'" "sl_level sl' = ?L" "sl_fresh sl' = x + 1"
    "sl_length sl' = sl_length sl + 1"
    "sl_tail sl' = (if sl_fwd sl (As as ! K) 0 = None then Some x else sl_tail sl)"
    "sl_nodes sl' = (\<lambda>a. if Some a = sl_fwd sl (As as ! K) 0 then map_option (\<lambda>nd. nd\<lparr>zn_backward := Some x\<rparr>) (sl_nodes sl a)
      else if a = x then Some \<lparr>zn_elem = \<lparr>Member = member, Score = score\<rparr>,
        zn_backward = (if K = 0 then None else Some (As as ! K)), zn_height = lv\<rparr> else sl_nodes sl a)"
    and f: "\<And>a j. sl_fwd sl' a j = (if j < lv then if a = x then sl_fwd sl (?U j) j else if a = ?U j then Some x else sl_fwd sl a j
      else if a = x then None else sl_fwd sl a j)"
    and g: "\<And>a j. sl_span sl' a j = (if j < lv then if a = x then ?sp (?U j) j - (int K - int (lst (Hs hs) j K))
        else if a = ?U j then int K - int (lst (Hs hs) j K) + 1 else ?sp a j
      else if j < ?L \<and> a = ?U j \<and> a \<noteq> x then ?sp a j + 1 else if a = x then 0 else ?sp a j)"
    using sl_insert_eq [OF rep cut lv_def x_def refl refl refl] by blast
  have "sl_links sl' (ins (Suc K) lv (Hs hs)) (ins (Suc K) x (As as))"
    by (rule sl_insert_links [OF rep Kn xA refl lv16(2) s(2) refl refl f g])
  then have links: "sl_links sl' (Hs (ins K lv hs)) (As (ins K x as))" by (simp add: ins_Cons)
  have dist: "distinct (As as)" using rep by (simp add: sl_rep_def)
  have nxt: "sl_fwd sl (As as ! K) 0 = (if K < length es then Some (as ! K) else None)"
  proof -
    have "nxt (Hs hs) 0 K = Suc K"
      using sl_rep_heights [OF rep, of "Suc K"] Kn len by (intro nxt_eqI) auto
    then show ?thesis using sl_rep_fwd(1) [OF rep Kn, of 0] sl_rep_heights [OF rep, of K] Kn len by (simp add: Suc_le_eq)
  qed
  note s6 = s(6) [unfolded nxt] and s5 = s(5) [unfolded nxt]
  have nodes: "sl_nodes sl' (ins K x as ! p) = Some \<lparr>zn_elem = ins K e es ! p,
      zn_backward = (if p = 0 then None else Some (ins K x as ! (p - 1))), zn_height = ins K lv hs ! p\<rparr>"
    if p: "p < length (ins K e es)" for p
  proof -
    have old: "sl_nodes sl (as ! q) = Some \<lparr>zn_elem = es ! q,
        zn_backward = (if q = 0 then None else Some (as ! (q - 1))), zn_height = hs ! q\<rparr>" if "q < length es" for q
      using rep that by (simp add: sl_rep_def)
    have ax: "as ! q \<noteq> x" if "q < length es" for q using xA that len nth_mem [of q as] by auto
    have inj: "as ! q = as ! r \<longleftrightarrow> q = r" if "q < length es" "r < length es" for q r
      using that dist len by (simp add: nth_eq_iff_index_eq)
    consider "p < K" | "p = K" | "p = Suc K" | "Suc K < p" by linarith
    then show ?thesis
    proof cases
      case 1
      then show ?thesis using Kn len old [of p] ax [of p] inj [of p K] by (auto simp: s6 nth_ins)
    next
      case 2
      then show ?thesis using Kn len ax [of K] by (auto simp: s6 nth_ins e(1) nth_Cons')
    next
      case 3
      then show ?thesis using p Kn len old [of K] by (auto simp: s6 nth_ins)
    next
      case 4
      then show ?thesis using p Kn len old [of "p - 1"] ax [of "p - 1"] inj [of "p - 1" K]
        by (auto simp: s6 nth_ins)
    qed
  qed
  have a0: "as ! q \<noteq> 0" if "q < length es" for q
  proof -
    have "as ! q \<in> set as" using that len by simp
    with dist show ?thesis by (metis distinct.simps(2))
  qed
  have x0: "x \<noteq> 0" using xA by auto
  have "sl_rep sl' (ins K e es) (ins K lv hs) (ins K x as)"
    unfolding sl_rep_def
  proof (intro conjI)
    show "distinct (As (ins K x as))" using dist xA by auto
    show "\<forall>a \<in> set (As (ins K x as)). a < sl_fresh sl'" using rep by (auto simp: s(3) x_def sl_rep_def less_Suc_eq)
    show "\<forall>h \<in> set (ins K lv hs). 1 \<le> h \<and> h \<le> sl_level sl'"
      using rep lv16 by (auto simp: s(2) sl_rep_def intro: order_trans)
    show "sl_level sl' = 1 \<or> sl_level sl' \<in> set (ins K lv hs)"
      using rep lv16 by (auto simp: s(2) sl_rep_def max_def)
    show "\<exists>s. sl_nodes sl' 0 = Some \<lparr>zn_elem = \<lparr>Member = [], Score = s\<rparr>, zn_backward = None, zn_height = maxLevel\<rparr>"
      using rep x0 a0 [of K] by (auto simp: s6 sl_rep_def)
    show "sl_tail sl' = (if ins K x as = [] then None else Some (last (ins K x as)))"
      using rep Kn len by (auto simp: s5 last_ins sl_rep_def)
    show "sorted_wrt elt (ins K e es)" using sorted_ins [OF srt e(2)] by (simp add: K)
  qed (use len links nodes lv16 sl_rep_level [OF rep] rep in \<open>auto simp: s(2,4) sl_rep_def\<close>)
  with s(1) show ?thesis by (auto simp: lv_def x_def)
qed

subsection \<open>remove\<close>

lemma sl_fwd_hits:
  assumes rep: "sl_rep sl (ins K e es) (ins K v hs) (ins K x as)" and K: "K \<le> length es"
    and len: "length hs = length es" "length as = length es" and j: "j < maxLevel"
  shows "sl_fwd sl (As as ! lst (Hs hs) j K) j = Some x \<longleftrightarrow> j < v"
proof -
  let ?H = "Hs hs" and ?H' = "ins (Suc K) v (Hs hs)" and ?A' = "ins (Suc K) x (As as)"
  let ?p = "lst ?H j K"
  have rep': "Hs (ins K v hs) = ?H'" "As (ins K x as) = ?A'" by (simp_all add: ins_Cons)
  have p: "?p \<le> K" by (rule lst_le)
  have hi: "j < ?H ! ?p" "K < nxt ?H j ?p" using j K len by (auto intro!: lst_high nxt_lst)
  have A': "?A' ! ?p = As as ! ?p" "?H' ! ?p = ?H ! ?p" using p K len by (simp_all add: nth_ins)
  have pn: "?p \<le> length (ins K e es)" using p K by simp
  have pj: "j < Hs (ins K v hs) ! ?p" unfolding rep' A' by (rule hi)
  note f = sl_rep_fwd(1) [OF rep pn pj, unfolded rep' A']
  have dist: "distinct ?A'" using rep unfolding sl_rep_def rep' by simp
  show ?thesis
  proof (cases "j < v")
    case True
    then have "nxt ?H' j ?p = Suc K" using nxt_ins_new [OF p _ True hi(2)] K len by simp
    then show ?thesis using f True K len by (simp add: nth_ins)
  next
    case False
    then have n: "nxt ?H' j ?p = Suc (nxt ?H j ?p)" using nxt_ins_old [OF p, of ?H v j] hi(2) K len by simp
    have "?A' ! Suc (nxt ?H j ?p) \<noteq> x" if "Suc (nxt ?H j ?p) \<le> Suc (length es)"
    proof
      assume "?A' ! Suc (nxt ?H j ?p) = x"
      then have "?A' ! Suc (nxt ?H j ?p) = ?A' ! Suc K" using K len by (simp add: nth_ins)
      then show False using nth_eq_iff_index_eq [OF dist, of "Suc (nxt ?H j ?p)" "Suc K"] that hi(2) K len by simp
    qed
    then show ?thesis using f n False by auto
  qed
qed

lemma sl_remove_links:
  assumes rep: "sl_rep sl (ins K e es) (ins K v hs) (ins K x as)" and K: "K \<le> length es"
    and len: "length hs = length es" "length as = length es"
    and U: "\<And>j. U j = As as ! lst (Hs hs) j K" and lvl: "sl_level sl' \<le> sl_level sl"
    and fwd: "\<And>a j. sl_fwd sl' a j = (if j < sl_level sl \<and> a = U j \<and> sl_fwd sl a j = Some x then sl_fwd sl x j else sl_fwd sl a j)"
    and span: "\<And>a j. sl_span sl' a j = (if j < sl_level sl \<and> a = U j then
       if sl_fwd sl a j = Some x then sl_span sl a j + (sl_span sl x j - 1) else sl_span sl a j - 1 else sl_span sl a j)"
  shows "sl_links sl' (Hs hs) (As as)"
proof -
  let ?H = "Hs hs" and ?A = "As as" and ?n = "length es"
  let ?H' = "ins (Suc K) v ?H" and ?A' = "ins (Suc K) x ?A"
  have rep': "Hs (ins K v hs) = ?H'" "As (ins K x as) = ?A'" by (simp_all add: ins_Cons)
  have v: "v \<le> sl_level sl" "sl_level sl \<le> maxLevel" using rep unfolding sl_rep_def by auto
  have hl: "h \<le> sl_level sl" if "h \<in> set hs" for h using rep that unfolding sl_rep_def by auto
  have dist: "distinct ?A" using rep unfolding sl_rep_def by auto
  have oldf: "sl_fwd sl (?A' ! p) i = (if nxt ?H' i p \<le> Suc ?n then Some (?A' ! nxt ?H' i p) else None)"
    and olds: "i < sl_level sl \<Longrightarrow> sl_span sl (?A' ! p) i = int (min (nxt ?H' i p) (Suc ?n)) - int p"
    if "p \<le> Suc ?n" "i < ?H' ! p" for p i
    using sl_rep_fwd [OF rep, of p i, unfolded rep'] that by simp_all
  have lK: "lst ?H i K \<le> K" for i by (rule lst_le)
  have UA: "?A ! p = U i \<longleftrightarrow> p = lst ?H i K" if "p \<le> ?n" for p i
    unfolding U using As_inj [OF dist] that len lK [of i] K by (metis order_trans)
  have hit: "sl_fwd sl (U j) j = Some x \<longleftrightarrow> j < v" if "j < maxLevel" for j
    using sl_fwd_hits [OF rep K len that] by (simp add: U)
  show ?thesis unfolding sl_links_def
  proof (intro allI impI)
    fix p i assume "p < length ?H" and i: "i < ?H ! p"
    then have pn: "p \<le> ?n" using len by simp
    have nle: "nxt ?H i p \<le> Suc ?n" using nxt_le [of p ?H i] pn len by simp
    have i16: "i < maxLevel"
    proof (cases p)
      case (Suc q)
      then have "?H ! p \<in> set hs" using pn len by simp
      with hl i v show ?thesis by force
    qed (use i in simp)
    let ?goal = "sl_fwd sl' (?A ! p) i = (if nxt ?H i p < length ?H then Some (?A ! nxt ?H i p) else None) \<and>
      (i < sl_level sl' \<longrightarrow> sl_span sl' (?A ! p) i = int (min (nxt ?H i p) (length ?H - 1)) - int p)"
    show ?goal
    proof (cases "p \<le> K")
      case lo: True
      then have A': "?A' ! p = ?A ! p" and iH: "i < ?H' ! p" using i K len by (simp_all add: nth_ins)
      have pS: "p \<le> Suc ?n" using pn by simp
      show ?thesis
      proof (cases "p = lst ?H i K")
        case True
        have nK: "K < nxt ?H i p" unfolding True using i16 K len by (intro nxt_lst) auto
        have A'n: "?A' ! Suc (nxt ?H i p) = ?A ! nxt ?H i p" using nK K len by (simp add: nth_ins)
        have u: "?A ! p = U i" using UA [OF pn] True by simp
        show ?thesis
        proof (cases "i < v")
          case True
          then have iL: "i < sl_level sl" using v by simp
          have n1: "nxt ?H' i p = Suc K" using nxt_ins_new [OF lo _ True nK] K len by simp
          have n2: "nxt ?H' i (Suc K) = Suc (nxt ?H i p)" using nxt_ins_at [OF lo _ nK] K len by simp
          have x: "?A' ! Suc K = x" "i < ?H' ! Suc K" using K len True by (simp_all add: nth_ins)
          have "sl_fwd sl x i = (if nxt ?H i p \<le> ?n then Some (?A ! nxt ?H i p) else None)"
            using oldf [of "Suc K" i] x n2 A'n K by simp
          moreover have "sl_span sl x i = int (min (nxt ?H i p) ?n) - int K"
            using olds [of "Suc K" i] x n2 K iL by simp
          moreover have "sl_span sl (?A ! p) i = int (Suc K) - int p"
            using olds [OF pS iH iL] n1 K by (simp add: A')
          moreover have "sl_fwd sl (?A ! p) i = Some x" using hit [OF i16] True u by simp
          ultimately show ?thesis using u iL len by (auto simp: fwd span)
        next
          case False
          then have n1: "nxt ?H' i p = Suc (nxt ?H i p)" using nxt_ins_old [OF lo, of ?H v i] nK K len by simp
          have nx: "sl_fwd sl (?A ! p) i \<noteq> Some x" using hit [OF i16] False u by simp
          have "sl_fwd sl (?A ! p) i = (if nxt ?H i p \<le> ?n then Some (?A ! nxt ?H i p) else None)"
            using oldf [OF pS iH] n1 A'n by (simp add: A')
          moreover have "sl_span sl (?A ! p) i = int (min (nxt ?H i p) ?n) + 1 - int p" if "i < sl_level sl"
            using olds [OF pS iH that] n1 by (simp add: A')
          ultimately show ?thesis using u nx lvl len by (auto simp: fwd span)
        qed
      next
        case False
        have nK: "nxt ?H i p \<le> K" using lst_nxt [OF i lo] False K len by (cases "K < nxt ?H i p") auto
        then have n1: "nxt ?H' i p = nxt ?H i p" using nxt_ins_old [OF lo, of ?H v i] K len by simp
        have A'n: "?A' ! nxt ?H i p = ?A ! nxt ?H i p" using nK K len by (simp add: nth_ins)
        have nu: "?A ! p \<noteq> U i" using UA [OF pn] False by simp
        have "sl_fwd sl (?A ! p) i = Some (?A ! nxt ?H i p)"
          using oldf [OF pS iH] n1 nK K A'n by (simp add: A')
        moreover have "sl_span sl (?A ! p) i = int (nxt ?H i p) - int p" if "i < sl_level sl"
          using olds [OF pS iH that] n1 nK K by (simp add: A')
        ultimately show ?thesis using nu nK K lvl len by (simp add: fwd span)
      qed
    next
      case hi: False
      then have A': "?A' ! Suc p = ?A ! p" and iH: "i < ?H' ! Suc p" using i K len pn by (simp_all add: nth_ins)
      have n1: "nxt ?H' i (Suc p) = Suc (nxt ?H i p)" using hi pn len by (intro nxt_ins_gt) auto
      have A'n: "?A' ! Suc (nxt ?H i p) = ?A ! nxt ?H i p" using nxt_gt [of p ?H i] hi K len by (simp add: nth_ins)
      have nu: "?A ! p \<noteq> U i" using UA [OF pn] lK [of i] hi by auto
      have pS: "Suc p \<le> Suc ?n" using pn by simp
      have "sl_fwd sl (?A ! p) i = (if nxt ?H i p \<le> ?n then Some (?A ! nxt ?H i p) else None)"
        using oldf [OF pS iH] n1 A'n by (simp only: A' Suc_le_mono)
      moreover have "sl_span sl (?A ! p) i = int (min (nxt ?H i p) ?n) - int p" if "i < sl_level sl"
        using olds [OF pS iH that] n1 by (simp flip: A')
      ultimately show ?thesis using nu lvl len by (simp add: fwd span)
    qed
  qed
qed

lemma lower_level_spec:
  assumes "1 \<le> L"
  shows "1 \<le> lower_level sl L \<and> lower_level sl L \<le> L \<and>
    (\<forall>j. lower_level sl L \<le> j \<longrightarrow> j < L \<longrightarrow> sl_fwd sl 0 j = None) \<and>
    (lower_level sl L = 1 \<or> sl_fwd sl 0 (lower_level sl L - 1) \<noteq> None)"
  using assms
proof (induction L)
  case (Suc L)
  show ?case
  proof (cases "1 \<le> L \<and> sl_fwd sl 0 L = None")
    case True
    with Suc.IH have "lower_level sl (Suc L) = lower_level sl L" by simp
    with True Suc.IH show ?thesis by (auto simp: less_Suc_eq)
  next
    case False
    then have "lower_level sl (Suc L) = Suc L" by auto
    with False show ?thesis by (auto simp: Suc_le_eq)
  qed
qed simp

lemma removeNode_eq:
  assumes rep: "sl_rep sl (ins K e es) (ins K v hs) (ins K x as)" and K: "K \<le> length es"
    and len: "length hs = length es" "length as = length es"
    and U: "\<And>j. U j = As as ! lst (Hs hs) j K"
    and upd: "sl_level sl \<le> length update" "\<And>j. j < sl_level sl \<Longrightarrow> update ! j = U j" "x \<notin> set update"
  shows "\<exists>sl'. removeNode sl x update = Some sl' \<and> sl_length sl' = sl_length sl - 1 \<and> sl_fresh sl' = sl_fresh sl \<and>
    sl_level sl' = lower_level sl' (sl_level sl) \<and>
    sl_tail sl' = (if K < length es then sl_tail sl else if K = 0 then None else Some (as ! (K - 1))) \<and>
    sl_nodes sl' = (\<lambda>a. if K < length es \<and> a = as ! K
      then map_option (\<lambda>nd. nd\<lparr>zn_backward := (if K = 0 then None else Some (as ! (K - 1)))\<rparr>) (sl_nodes sl a) else sl_nodes sl a) \<and>
    (\<forall>a j. sl_fwd sl' a j = (if j < sl_level sl \<and> a = U j \<and> sl_fwd sl a j = Some x then sl_fwd sl x j else sl_fwd sl a j)) \<and>
    (\<forall>a j. sl_span sl' a j = (if j < sl_level sl \<and> a = U j then
       if sl_fwd sl a j = Some x then sl_span sl a j + (sl_span sl x j - 1) else sl_span sl a j - 1 else sl_span sl a j))"
proof -
  let ?as = "ins K x as" and ?L = "sl_level sl"
  have v: "v \<le> ?L" "1 \<le> v" "?L \<le> maxLevel" "1 \<le> ?L" using rep unfolding sl_rep_def by auto
  have x: "As ?as ! Suc K = x" "Hs (ins K v hs) ! Suc K = v" using K len by (simp_all add: nth_ins)
  have U': "U j = As ?as ! lst (Hs (ins K v hs)) j K" for j
  proof -
    have "lst (Hs (ins K v hs)) j K = lst (Hs hs) j K"
      using lst_ins [of K "Hs hs" v j] K len by (simp add: ins_Cons)
    moreover have "As ?as ! p = As as ! p" if "p \<le> K" for p
      using nth_ins [of "Suc K" "As as" x p] that K len by (simp add: ins_Cons)
    ultimately show ?thesis using lst_le [of "Hs hs" j K] by (simp add: U)
  qed
  have hU: "high sl (U j) j" if "j < ?L" for j
    unfolding U' using that v by (intro high_lst [OF rep]) (use K in auto)
  have hx: "high sl x j" if "j < v" for j
    using high_rep [OF rep, of "Suc K" j] x that K by simp
  have hit: "sl_fwd sl (U j) j = Some x \<longleftrightarrow> j < v" if "j < maxLevel" for j
    using sl_fwd_hits [OF rep K len that] by (simp add: U)
  define s1 where "s1 = sl\<lparr>
    sl_fwd := (\<lambda>a j. if j < ?L \<and> a = U j \<and> sl_fwd sl a j = Some x then sl_fwd sl x j else sl_fwd sl a j),
    sl_span := (\<lambda>a j. if j < ?L \<and> a = U j then
       if sl_fwd sl a j = Some x then sl_span sl a j + (sl_span sl x j - 1) else sl_span sl a j - 1 else sl_span sl a j)\<rparr>"
  have e1: "unlink_levels sl x update 0 ?L = Some s1"
    using upd v hU hx hit by (subst unlink_levels_eq) (auto simp: s1_def intro!: skiplist_eqI)
  have Ux: "U j \<noteq> x" if "j < ?L" for j using upd that by (metis nth_mem order_less_le_trans)
  have nd: "sl_nodes sl x = Some \<lparr>zn_elem = e, zn_backward = (if K = 0 then None else Some (as ! (K - 1))), zn_height = v\<rparr>"
  proof -
    have "sl_nodes sl (?as ! K) = Some \<lparr>zn_elem = ins K e es ! K,
        zn_backward = (if K = 0 then None else Some (?as ! (K - 1))), zn_height = ins K v hs ! K\<rparr>"
      using rep K len unfolding sl_rep_def by simp
    then show ?thesis using K len by (auto simp: nth_ins split: if_splits)
  qed
  have nx: "sl_fwd sl x 0 = (if K < length es then Some (as ! K) else None)"
  proof -
    have pos: "0 < Hs (ins K v hs) ! j" if "j < length (Hs (ins K v hs))" for j using sl_rep_heights [OF rep that] .
    have "nxt (Hs (ins K v hs)) 0 (Suc K) = Suc (Suc K)"
      using pos [of "Suc (Suc K)"] K len by (intro nxt_eqI) auto
    then show ?thesis using sl_rep_fwd(1) [OF rep, of "Suc K" 0] x v K len by (auto simp: nth_ins)
  qed
  have e2: "forward s1 x 0 = Some (sl_fwd sl x 0)" using nd v Ux [of 0] by (simp add: forward_def s1_def)
  have e3: "sl_nodes s1 x = sl_nodes sl x" by (simp add: s1_def)
  define b where "b = (if K = 0 then None else Some (as ! (K - 1)))"
  define s2 where "s2 = (case sl_fwd sl x 0 of Some y \<Rightarrow> set_backward s1 y b | None \<Rightarrow> s1\<lparr>sl_tail := b\<rparr>)"
  have eq: "removeNode sl x update = Some (s2\<lparr>sl_level := lower_level s2 (sl_level s2), sl_length := sl_length s2 - 1\<rparr>)"
    unfolding s2_def b_def by (cases "sl_fwd sl x 0") (simp_all add: removeNode_def e1 e2 e3 nd Let_def)
  have low: "lower_level (s2\<lparr>sl_level := l, sl_length := m\<rparr>) j = lower_level s2 j" for l m j
    by (induction j) auto
  have flds: "sl_level s2 = ?L" "sl_fresh s2 = sl_fresh sl" "sl_length s2 = sl_length sl" "sl_fwd s2 = sl_fwd s1" "sl_span s2 = sl_span s1"
    by (simp_all add: s2_def s1_def set_backward_def split: option.splits)
  have "sl_tail s2 = (if K < length es then sl_tail sl else b)"
    by (simp add: s2_def s1_def set_backward_def nx)
  moreover have "sl_nodes s2 = (\<lambda>a. if K < length es \<and> a = as ! K
      then map_option (\<lambda>nd. nd\<lparr>zn_backward := b\<rparr>) (sl_nodes sl a) else sl_nodes sl a)"
    by (auto simp: fun_eq_iff s2_def s1_def set_backward_def nx)
  ultimately show ?thesis
    unfolding eq b_def [symmetric]
    by (intro exI [of _ "s2\<lparr>sl_level := lower_level s2 (sl_level s2), sl_length := sl_length s2 - 1\<rparr>"])
      (simp add: flds low s1_def)
qed

lemma sorted_ins_rev: "sorted_wrt elt (ins K e es) \<Longrightarrow> sorted_wrt elt es"
  unfolding ins_def by (metis append_take_drop_id sorted_wrt_append sorted_wrt.simps(2) list.set_intros(2))

lemma removeNode_rep:
  assumes rep: "sl_rep sl (ins K e es) (ins K v hs) (ins K x as)" and K: "K \<le> length es"
    and len: "length hs = length es" "length as = length es"
    and upd: "sl_level sl \<le> length update" "\<And>j. j < sl_level sl \<Longrightarrow> update ! j = As as ! lst (Hs hs) j K" "x \<notin> set update"
  shows "\<exists>sl'. removeNode sl x update = Some sl' \<and> sl_rep sl' es hs as \<and> sl_level sl' \<le> sl_level sl"
proof -
  let ?L = "sl_level sl" and ?U = "\<lambda>j. As as ! lst (Hs hs) j K"
  obtain sl' where s: "removeNode sl x update = Some sl'" "sl_length sl' = sl_length sl - 1" "sl_fresh sl' = sl_fresh sl"
    "sl_level sl' = lower_level sl' ?L"
    "sl_tail sl' = (if K < length es then sl_tail sl else if K = 0 then None else Some (as ! (K - 1)))"
    "sl_nodes sl' = (\<lambda>a. if K < length es \<and> a = as ! K
      then map_option (\<lambda>nd. nd\<lparr>zn_backward := (if K = 0 then None else Some (as ! (K - 1)))\<rparr>) (sl_nodes sl a) else sl_nodes sl a)"
    and f: "\<And>a j. sl_fwd sl' a j = (if j < ?L \<and> a = ?U j \<and> sl_fwd sl a j = Some x then sl_fwd sl x j else sl_fwd sl a j)"
    and g: "\<And>a j. sl_span sl' a j = (if j < ?L \<and> a = ?U j then
       if sl_fwd sl a j = Some x then sl_span sl a j + (sl_span sl x j - 1) else sl_span sl a j - 1 else sl_span sl a j)"
    using removeNode_eq [OF rep K len refl upd] by blast
  have L: "1 \<le> ?L" "?L \<le> maxLevel" using rep unfolding sl_rep_def by auto
  note low = lower_level_spec [OF L(1), of sl', folded s(4)]
  have links: "sl_links sl' (Hs hs) (As as)"
    using low by (intro sl_remove_links [OF rep K len refl _ f g]) simp
  have hd: "sl_fwd sl' 0 j = (if nxt (Hs hs) j 0 < length (Hs hs) then Some (As as ! nxt (Hs hs) j 0) else None)"
    if "j < maxLevel" for j using links that unfolding sl_links_def by (metis length_greater_0_conv list.distinct(1) nth_Cons_0)
  have hl: "1 \<le> h \<and> h \<le> ?L" if "h \<in> set hs" for h using rep that unfolding sl_rep_def by auto
  have dist: "distinct (As as)" "x \<notin> set (As as)" using rep unfolding sl_rep_def by auto
  have below: "h \<le> sl_level sl'" if h: "h \<in> set hs" for h
  proof (rule ccontr)
    assume n: "\<not> h \<le> sl_level sl'"
    then have "sl_fwd sl' 0 (h - 1) = None" using low hl [OF h] by (metis Suc_diff_1 Suc_le_eq less_imp_le_nat not_le le_less_trans diff_less zero_less_one not_less_eq_eq)
    moreover have "h - 1 < maxLevel" using hl [OF h] L by arith
    ultimately have "length (Hs hs) \<le> nxt (Hs hs) (h - 1) 0" using hd by (auto split: if_splits)
    moreover obtain q where "q < length hs" "hs ! q = h" using h by (metis in_set_conv_nth)
    ultimately have "Hs hs ! Suc q \<le> h - 1" by (intro nxt_low) auto
    then show False using \<open>hs ! q = h\<close> hl [OF h] by auto
  qed
  have top: "sl_level sl' = 1 \<or> sl_level sl' \<in> set hs"
  proof (cases "sl_level sl' = 1")
    case False
    let ?l = "sl_level sl' - 1"
    have l: "?l < maxLevel" "sl_fwd sl' 0 ?l \<noteq> None" using low L False by auto
    then have n: "nxt (Hs hs) ?l 0 < length (Hs hs)" using hd by (auto split: if_splits)
    then obtain q where q: "nxt (Hs hs) ?l 0 = Suc q" using nxt_gt [of 0 "Hs hs" ?l] by (cases "nxt (Hs hs) ?l 0") auto
    have "?l < hs ! q" using nxt_high [OF n] q by simp
    moreover have "hs ! q \<in> set hs" using n q by simp
    moreover from this have "hs ! q \<le> sl_level sl'" by (rule below)
    ultimately have "hs ! q = sl_level sl'" by simp
    with \<open>hs ! q \<in> set hs\<close> show ?thesis by simp
  qed simp
  have old: "sl_nodes sl (ins K x as ! q) = Some \<lparr>zn_elem = ins K e es ! q,
      zn_backward = (if q = 0 then None else Some (ins K x as ! (q - 1))), zn_height = ins K v hs ! q\<rparr>"
    if "q < Suc (length es)" for q
    using rep that unfolding sl_rep_def by simp
  have inj: "as ! q = as ! r \<longleftrightarrow> q = r" if "q < length es" "r < length es" for q r
    using that dist len by (simp add: nth_eq_iff_index_eq)
  have nodes: "sl_nodes sl' (as ! p) = Some \<lparr>zn_elem = es ! p,
      zn_backward = (if p = 0 then None else Some (as ! (p - 1))), zn_height = hs ! p\<rparr>" if p: "p < length es" for p
  proof -
    consider "p < K" | "p = K" | "K < p" by linarith
    then show ?thesis
    proof cases
      case 1
      then show ?thesis using p K len old [of p] inj [of p K] by (auto simp: s(6) nth_ins)
    next
      case 2
      then show ?thesis using p K len old [of "Suc p"] by (auto simp: s(6) nth_ins)
    next
      case 3
      then show ?thesis using p K len old [of "Suc p"] inj [of p K] by (auto simp: s(6) nth_ins)
    qed
  qed
  have a0: "as ! q \<noteq> 0" if "q < length es" for q
    using dist(1) that len nth_mem [of q as] by (metis distinct.simps(2))
  have "sl_rep sl' es hs as" unfolding sl_rep_def
  proof (intro conjI)
    show "\<forall>a \<in> set (As as). a < sl_fresh sl'" using rep unfolding sl_rep_def s(3) by simp
    show "\<exists>s. sl_nodes sl' 0 = Some \<lparr>zn_elem = \<lparr>Member = [], Score = s\<rparr>, zn_backward = None, zn_height = maxLevel\<rparr>"
      using rep a0 [of K] unfolding sl_rep_def by (auto simp: s(6))
    show "sl_tail sl' = (if as = [] then None else Some (last as))"
    proof (cases "K < length es")
      case True
      have "sl_tail sl = Some (last (ins K x as))" using rep unfolding sl_rep_def by simp
      with True len show ?thesis by (auto simp: s(5) last_ins)
    next
      case False
      with K len show ?thesis by (auto simp: s(5) last_conv_nth)
    qed
    show "sl_length sl' = int (length es)" using rep unfolding sl_rep_def s(2) by simp
    show "sorted_wrt elt es" using rep sorted_ins_rev unfolding sl_rep_def by blast
  qed (use len dist links nodes hl below top low L in auto)
  with s(1) low show ?thesis by blast
qed

lemma remove_nth_ins: "K < length xs \<Longrightarrow> xs = ins K (xs ! K) (take K xs @ drop (Suc K) xs)"
  by (simp add: ins_def min_def id_take_nth_drop)

text \<open>
  Removing the node at position \<open>Suc K\<close> with the predecessors of \<open>K\<close>, as found by a search that
  cuts at \<open>K\<close> in a list that agrees up to \<open>K\<close>.
\<close>

lemma removeNode_at:
  assumes rep: "sl_rep sl es hs as" and K: "K < length es"
    and upd: "sl_level sl \<le> length update" "\<And>j. j < sl_level sl \<Longrightarrow> update ! j = As as ! lst (Hs hs) j K"
      "set update \<subseteq> set (take (Suc K) (As as))"
  shows "\<exists>sl'. removeNode sl (as ! K) update = Some sl' \<and>
    sl_rep sl' (take K es @ drop (Suc K) es) (take K hs @ drop (Suc K) hs) (take K as @ drop (Suc K) as) \<and>
    sl_level sl' \<le> sl_level sl"
proof -
  have len: "length hs = length es" "length as = length es" using sl_rep_lengths [OF rep] by simp_all
  let ?es = "take K es @ drop (Suc K) es" and ?hs = "take K hs @ drop (Suc K) hs" and ?as = "take K as @ drop (Suc K) as"
  have i: "es = ins K (es ! K) ?es" "hs = ins K (hs ! K) ?hs" "as = ins K (as ! K) ?as"
    using K len by (intro remove_nth_ins; simp)+
  have rep': "sl_rep sl (ins K (es ! K) ?es) (ins K (hs ! K) ?hs) (ins K (as ! K) ?as)"
    using rep i by simp
  have nth: "As ?as ! p = As as ! p" "Hs ?hs ! p = Hs hs ! p" if "p \<le> K" for p
    using that K len by (cases p; simp add: nth_append)+
  have "As ?as ! lst (Hs ?hs) j K = As as ! lst (Hs hs) j K" for j
    using nth lst_le [of "Hs hs" j K] lst_cong [of K "Hs ?hs" "Hs hs" j] by simp
  moreover have "as ! K \<notin> set update"
  proof
    assume "as ! K \<in> set update"
    then have "as ! K \<in> set (take (Suc K) (As as))" using upd(3) by blast
    moreover have "distinct (As as)" using rep unfolding sl_rep_def by simp
    ultimately show False using K len
      by (auto simp: in_set_conv_nth nth_Cons' nth_eq_iff_index_eq split: if_splits)
  qed
  ultimately show ?thesis
    using removeNode_rep [OF rep', of update] upd K len by simp
qed

lemma set_lst_take:
  assumes "K < length as + 1"
  shows "set (map (\<lambda>i. As as ! lst H i K) is) \<subseteq> set (take (Suc K) (As as))"
proof
  fix a assume "a \<in> set (map (\<lambda>i. As as ! lst H i K) is)"
  then obtain i where "a = As as ! lst H i K" by auto
  moreover have "lst H i K < length (take (Suc K) (As as))" using lst_le [of H i K] assms by simp
  ultimately show "a \<in> set (take (Suc K) (As as))"
    by (metis length_take min_less_iff_conj nth_mem nth_take)
qed

lemma sl_remove_rep:
  assumes rep: "sl_rep sl es hs as" and K: "K = pos es \<lparr>Member = m, Score = sc\<rparr>"
  shows "if \<lparr>Member = m, Score = sc\<rparr> \<in> set es
    then \<exists>sl'. sl_remove sl m sc = Some (sl', True) \<and> K < length es \<and> es ! K = \<lparr>Member = m, Score = sc\<rparr> \<and>
      sl_rep sl' (take K es @ drop (Suc K) es) (take K hs @ drop (Suc K) hs) (take K as @ drop (Suc K) as)
    else sl_remove sl m sc = Some (sl, False)"
proof -
  let ?e = "\<lparr>Member = m, Score = sc\<rparr>"
  have len: "length hs = length es" "length as = length es" using sl_rep_lengths [OF rep] by simp_all
  have srt: "sorted_wrt elt es" using rep by (simp add: sl_rep_def)
  have Kn: "K \<le> length es" by (simp add: K pos_le)
  note d = descend_top [OF rep cuts_before [OF srt, of m sc], folded K]
  have nx: "forward sl (As as ! K) 0 = Some (if K < length es then Some (as ! K) else None)"
  proof -
    have "nxt (Hs hs) 0 K = Suc K"
      using sl_rep_heights [OF rep, of "Suc K"] Kn len by (intro nxt_eqI) auto
    then show ?thesis
      using sl_rep_forward [OF rep Kn, of 0] sl_rep_heights [OF rep, of K] Kn len by (simp add: Suc_le_eq)
  qed
  have mem: "?e \<in> set es \<longleftrightarrow> K < length es \<and> es ! K = ?e"
  proof
    assume "?e \<in> set es"
    then obtain i where i: "i < length es" "es ! i = ?e" by (metis in_set_conv_nth)
    have "\<not> i < K" using pos_nth [OF srt i(1), of ?e] i(2) elt_irrefl by (metis K)
    moreover have "\<not> K < i"
    proof
      assume "K < i"
      then have "elt (es ! K) ?e" using sorted_wrt_nth_less [OF srt _ i(1), of K] i(2) by simp
      then show False using pos_nth [OF srt, of K ?e] \<open>K < i\<close> i(1) by (simp add: K)
    qed
    ultimately show "K < length es \<and> es ! K = ?e" using i by (metis linorder_neqE_nat)
  qed (metis nth_mem)
  have nd: "sl_nodes sl (as ! K) = Some \<lparr>zn_elem = es ! K,
      zn_backward = (if K = 0 then None else Some (as ! (K - 1))), zn_height = hs ! K\<rparr>" if "K < length es"
    using rep that by (simp add: sl_rep_def)
  show ?thesis
  proof (cases "?e \<in> set es")
    case True
    then have k: "K < length es" "es ! K = ?e" using mem by simp_all
    let ?u = "map (\<lambda>i. As as ! lst (Hs hs) i K) [0..<sl_level sl]"
    obtain sl' where "removeNode sl (as ! K) ?u = Some sl'"
      "sl_rep sl' (take K es @ drop (Suc K) es) (take K hs @ drop (Suc K) hs) (take K as @ drop (Suc K) as)"
      using removeNode_at [OF rep k(1), of ?u] set_lst_take [of K as] k(1) len by (auto simp del: set_map)
    with True k nx nd d show ?thesis by (simp add: sl_remove_def)
  next
    case False
    have "\<not> (sc = Score (es ! K) \<and> Member (es ! K) = m)" if "K < length es"
      using False mem that by (cases "es ! K") auto
    with False nx nd d show ?thesis by (cases "K < length es") (auto simp: sl_remove_def)
  qed
qed

subsection \<open>Ranks\<close>

lemma cuts_notAfter:
  assumes srt: "sorted_wrt elt es" and k: "k < length es" "es ! k = \<lparr>Member = m, Score = sc\<rparr>"
  shows "cuts (\<lambda>r s e. notAfter m sc e) es (Suc k)"
proof -
  have "notAfter m sc (es ! i) \<longleftrightarrow> i \<le> k" if i: "i < length es" for i
  proof -
    have n: "notAfter m sc e \<longleftrightarrow> elt e (es ! k) \<or> e = es ! k" for e
      unfolding k(2) by (cases e) (auto simp: notAfter_def elt_def before_def)
    consider "i < k" | "i = k" | "k < i" by linarith
    then show ?thesis
    proof cases
      case 1
      with sorted_wrt_nth_less [OF srt 1 k(1)] show ?thesis by (simp add: n)
    next
      case 3
      have "\<not> notAfter m sc (es ! i)"
      proof
        assume "notAfter m sc (es ! i)"
        then have "elt (es ! k) (es ! k)"
          using sorted_wrt_nth_less [OF srt 3 i] elt_trans [of "es ! k" "es ! i" "es ! k"] by (auto simp: n)
        then show False by (simp add: elt_irrefl)
      qed
      with 3 show ?thesis by simp
    qed (simp add: n)
  qed
  then show ?thesis using k(1) by (auto simp: cuts_def)
qed

lemma getRank_rep:
  assumes rep: "sl_rep sl es hs as" and k: "k < length es" "es ! k = \<lparr>Member = m, Score = sc\<rparr>"
    and uniq: "distinct (map Member es)" and m: "m \<noteq> []"
  shows "getRank sl m sc = Some (int (Suc k))"
proof -
  have srt: "sorted_wrt elt es" using rep by (simp add: sl_rep_def)
  have len: "length hs = length es" "length as = length es" using sl_rep_lengths [OF rep] by simp_all
  note cut = cuts_notAfter [OF srt k]
  have *: "getRank_levels sl m sc L (As as ! p) (int p) = Some (int (Suc k))"
    if "0 < L" "L \<le> sl_level sl" "p \<le> Suc k" "\<And>i. i < L \<Longrightarrow> i < Hs hs ! p" for L p
    using that
  proof (induction L arbitrary: p)
    case (Suc L)
    let ?l = "lst (Hs hs) L (Suc k)"
    have w: "walk sl L (\<lambda>r s e. notAfter m sc e) (As as ! p) (int p) = Some (As as ! ?l, int ?l)"
      using Suc.prems by (intro walk_rep [OF rep cut]) auto
    have l: "?l \<le> Suc k" by (rule lst_le)
    have "?l \<le> length es" using l k(1) by simp
    then obtain nd where nd: "sl_nodes sl (As as ! ?l) = Some nd" "zn_height nd = Hs hs ! ?l"
      "0 < ?l \<Longrightarrow> zn_elem nd = es ! (?l - 1)" "?l = 0 \<Longrightarrow> Member (zn_elem nd) = []"
      using sl_rep_node [OF rep] by blast
    have found: "Member (zn_elem nd) = m \<longleftrightarrow> ?l = Suc k"
    proof (cases "?l = 0")
      case False
      then have "Member (zn_elem nd) = map Member es ! (?l - 1)" using nd(3) l k(1) by simp
      moreover have "m = map Member es ! k" using k by simp
      moreover have "map Member es ! (?l - 1) = map Member es ! k \<longleftrightarrow> ?l - 1 = k"
        using l k(1) by (intro nth_eq_iff_index_eq [OF uniq]) auto
      ultimately show ?thesis using False by auto
    qed (use nd(4) m in simp)
    show ?case
    proof (cases "?l = Suc k")
      case True
      then show ?thesis using w nd(1) found by simp
    next
      case False
      have "L \<noteq> 0"
      proof
        assume "L = 0"
        moreover have "lst (Hs hs) 0 (Suc k) = Suc k"
          using sl_rep_heights [OF rep] k len by (intro lst_0) auto
        ultimately show False using False by simp
      qed
      moreover have "L < Hs hs ! ?l"
        using Suc.prems(2) sl_rep_level [OF rep] lst_high [of L "Hs hs" "Suc k"] by simp
      ultimately show ?thesis using Suc l w nd(1) found False by (simp del: of_nat_Suc)
    qed
  qed simp
  from * [of "sl_level sl" 0] sl_rep_level [OF rep] show ?thesis by (simp add: getRank_def)
qed

lemma getByRank_rep:
  assumes rep: "sl_rep sl es hs as" and k: "k < length es"
  shows "getByRank sl (int (Suc k)) = Some (Some (as ! k))"
proof -
  have len: "length hs = length es" "length as = length es" using sl_rep_lengths [OF rep] by simp_all
  have cut: "cuts (\<lambda>r s e. r + s \<le> int (Suc k)) es (Suc k)" using k by (auto simp: cuts_def)
  have *: "getByRank_levels sl (int (Suc k)) L (As as ! p) (int p) = Some (Some (as ! k))"
    if "0 < L" "L \<le> sl_level sl" "p \<le> Suc k" "\<And>i. i < L \<Longrightarrow> i < Hs hs ! p" for L p
    using that
  proof (induction L arbitrary: p)
    case (Suc L)
    let ?l = "lst (Hs hs) L (Suc k)"
    have w: "walk sl L (\<lambda>r s e. r + s \<le> int (Suc k)) (As as ! p) (int p) = Some (As as ! ?l, int ?l)"
      using Suc.prems by (intro walk_rep [OF rep cut]) auto
    have l: "?l \<le> Suc k" by (rule lst_le)
    show ?case
    proof (cases "?l = Suc k")
      case True
      then show ?thesis using w by simp
    next
      case False
      have "L \<noteq> 0"
      proof
        assume "L = 0"
        moreover have "lst (Hs hs) 0 (Suc k) = Suc k"
          using sl_rep_heights [OF rep] k len by (intro lst_0) auto
        ultimately show False using False by simp
      qed
      moreover have "L < Hs hs ! ?l"
        using Suc.prems(2) sl_rep_level [OF rep] lst_high [of L "Hs hs" "Suc k"] by simp
      ultimately show ?thesis using Suc l w False by (simp del: of_nat_Suc)
    qed
  qed simp
  from * [of "sl_level sl" 0] sl_rep_level [OF rep] show ?thesis by (simp add: getByRank_def)
qed

lemma makeSkiplist_rep: "sl_rep (makeSkiplist :: ('f :: {linorder, zero}) skiplist) [] [] []"
proof -
  have "1 \<le> maxLevel" by (simp add: maxLevel_def)
  then show ?thesis by (simp add: sl_rep_def makeSkiplist_def makeNode_def Let_def sl_links_def nxt_def)
qed

end
