(* ===== verification/SortedSet.thy ===== *)
theory SortedSet
  imports SkipList
begin

text \<open>
  \<^verbatim>\<open>datastruct/sortedset/sortedset.go\<close> and \<^verbatim>\<open>border.go\<close>: a sorted set is a map from members to
  elements together with a skip list of the same elements. The border types are the two
  implementations of the interface \<^verbatim>\<open>Border\<close>; comparing borders of different types is the failed
  type assertion of \<^verbatim>\<open>isIntersected\<close>, a panic. The conversion of decimal strings to floating
  point numbers is an argument of the functions that need it.
\<close>

datatype 'f Border =
  ScoreBorder (sb_Inf: int) (sb_Value: 'f) (sb_Exclude: bool)
| LexBorder (lb_Inf: int) (lb_Value: string) (lb_Exclude: bool)

definition lexNegativeInf :: int where "lexNegativeInf = 45"
definition lexPositiveInf :: int where "lexPositiveInf = 43"

fun border_greater :: "('f :: linorder) Border \<Rightarrow> 'f Element \<Rightarrow> bool" where
  "border_greater (ScoreBorder i v ex) e =
     (if i = - 1 then False else if i = 1 then True else if ex then v > Score e else v \<ge> Score e)"
| "border_greater (LexBorder i v ex) e =
     (if i = lexNegativeInf then False else if i = lexPositiveInf then True
      else if ex then v > Member e else v \<ge> Member e)"

fun border_less :: "('f :: linorder) Border \<Rightarrow> 'f Element \<Rightarrow> bool" where
  "border_less (ScoreBorder i v ex) e =
     (if i = - 1 then True else if i = 1 then False else if ex then v < Score e else v \<le> Score e)"
| "border_less (LexBorder i v ex) e =
     (if i = lexNegativeInf then True else if i = lexPositiveInf then False
      else if ex then v < Member e else v \<le> Member e)"

fun isIntersected :: "('f :: linorder) Border \<Rightarrow> 'f Border \<Rightarrow> bool option" where
  "isIntersected (ScoreBorder i v ex) (ScoreBorder i' v' ex') = Some (v > v' \<or> (v = v' \<and> (ex \<or> ex')))"
| "isIntersected (LexBorder i v ex) (LexBorder i' v' ex') =
     Some (i = lexPositiveInf \<or> v > v' \<or> (v = v' \<and> (ex \<or> ex')))"
| "isIntersected _ _ = None"

definition scorePositiveInfBorder :: "('f :: zero) Border" where
  "scorePositiveInfBorder = ScoreBorder 1 0 False"

definition scoreNegativeInfBorder :: "('f :: zero) Border" where
  "scoreNegativeInfBorder = ScoreBorder (- 1) 0 False"

text \<open>The parsers: \<open>None\<close> is the index panic on an empty argument, \<open>Inl\<close> the returned error.\<close>

definition ParseScoreBorder :: "(string \<Rightarrow> ('f :: zero) option) \<Rightarrow> string \<Rightarrow> (string + 'f Border) option" where
  "ParseScoreBorder parseFloat s =
     (if s = ''inf'' \<or> s = ''+inf'' then Some (Inr scorePositiveInfBorder)
      else if s = ''-inf'' then Some (Inr scoreNegativeInfBorder)
      else case s of
        [] \<Rightarrow> None
      | c # cs \<Rightarrow> if c = CHR ''('' then
          (case parseFloat cs of
             None \<Rightarrow> Some (Inl ''ERR min or max is not a float'')
           | Some value \<Rightarrow> Some (Inr (ScoreBorder 0 value True)))
        else (case parseFloat s of
             None \<Rightarrow> Some (Inl ''ERR min or max is not a float'')
           | Some value \<Rightarrow> Some (Inr (ScoreBorder 0 value False))))"

definition ParseLexBorder :: "string \<Rightarrow> (string + 'f Border) option" where
  "ParseLexBorder s =
     (if s = ''+'' then Some (Inr (LexBorder lexPositiveInf [] False))
      else if s = ''-'' then Some (Inr (LexBorder lexNegativeInf [] False))
      else case s of
        [] \<Rightarrow> None
      | c # cs \<Rightarrow> if c = CHR ''('' then Some (Inr (LexBorder 0 cs True))
          else if c = CHR ''['' then Some (Inr (LexBorder 0 cs False))
          else Some (Inl ''ERR min or max not valid string range item''))"

subsection \<open>Ranges of the skip list\<close>

definition hasInRange :: "('f :: linorder) skiplist \<Rightarrow> 'f Border \<Rightarrow> 'f Border \<Rightarrow> bool option" where
  "hasInRange sl mn mx = do {
     b \<leftarrow> isIntersected mn mx;
     (if b then Some False
      else case sl_tail sl of
        None \<Rightarrow> Some False
      | Some t \<Rightarrow> do {
          nt \<leftarrow> sl_nodes sl t;
          (if \<not> border_less mn (zn_elem nt) then Some False
           else do {
             f \<leftarrow> forward sl 0 0;
             (case f of
                None \<Rightarrow> Some False
              | Some h \<Rightarrow> do { nh \<leftarrow> sl_nodes sl h; Some (border_greater mx (zn_elem nh)) })
           })
        })
   }"

definition getFirstInRange :: "('f :: linorder) skiplist \<Rightarrow> 'f Border \<Rightarrow> 'f Border \<Rightarrow> nat option option" where
  "getFirstInRange sl mn mx = do {
     b \<leftarrow> hasInRange sl mn mx;
     (if \<not> b then Some None
      else do {
        (x, r, update, rank) \<leftarrow> descend sl (\<lambda>r s e. \<not> border_less mn e) (sl_level sl) 0 0 [] [];
        f \<leftarrow> forward sl x 0;
        n \<leftarrow> f;
        nn \<leftarrow> sl_nodes sl n;
        (if \<not> border_greater mx (zn_elem nn) then Some None else Some (Some n))
      })
   }"

definition getLastInRange :: "('f :: linorder) skiplist \<Rightarrow> 'f Border \<Rightarrow> 'f Border \<Rightarrow> nat option option" where
  "getLastInRange sl mn mx = do {
     b \<leftarrow> hasInRange sl mn mx;
     (if \<not> b then Some None
      else do {
        (x, r, update, rank) \<leftarrow> descend sl (\<lambda>r s e. border_greater mx e) (sl_level sl) 0 0 [] [];
        nx \<leftarrow> sl_nodes sl x;
        (if \<not> border_less mn (zn_elem nx) then Some None else Some (Some x))
      })
   }"

partial_function (option) removeRange_loop ::
  "('f :: linorder) skiplist \<Rightarrow> 'f Border \<Rightarrow> int \<Rightarrow> nat list \<Rightarrow> nat option \<Rightarrow> 'f Element list
     \<Rightarrow> ('f skiplist \<times> 'f Element list) option" where
  "removeRange_loop sl mx limit update node removed =
     (case node of
        None \<Rightarrow> Some (sl, removed)
      | Some x \<Rightarrow> do {
          nd \<leftarrow> sl_nodes sl x;
          (if \<not> border_greater mx (zn_elem nd) then Some (sl, removed)
           else do {
             next \<leftarrow> forward sl x 0;
             sl' \<leftarrow> removeNode sl x update;
             (if limit > 0 \<and> int (length (removed @ [zn_elem nd])) = limit then Some (sl', removed @ [zn_elem nd])
              else removeRange_loop sl' mx limit update next (removed @ [zn_elem nd]))
           })
        })"

definition sl_RemoveRange :: "('f :: linorder) skiplist \<Rightarrow> 'f Border \<Rightarrow> 'f Border \<Rightarrow> int
    \<Rightarrow> ('f skiplist \<times> 'f Element list) option" where
  "sl_RemoveRange sl mn mx limit = do {
     (x, r, update, rank) \<leftarrow> descend sl (\<lambda>r s e. \<not> border_less mn e) (sl_level sl) 0 0 [] [];
     node \<leftarrow> forward sl x 0;
     removeRange_loop sl mx limit update node []
   }"

partial_function (option) removeByRank_loop ::
  "'f skiplist \<Rightarrow> int \<Rightarrow> nat list \<Rightarrow> nat option \<Rightarrow> int \<Rightarrow> 'f Element list
     \<Rightarrow> ('f skiplist \<times> 'f Element list) option" where
  "removeByRank_loop sl stop update node i removed =
     (case node of
        None \<Rightarrow> Some (sl, removed)
      | Some x \<Rightarrow>
          (if \<not> i < stop then Some (sl, removed)
           else do {
             nd \<leftarrow> sl_nodes sl x;
             next \<leftarrow> forward sl x 0;
             sl' \<leftarrow> removeNode sl x update;
             removeByRank_loop sl' stop update next (i + 1) (removed @ [zn_elem nd])
           }))"

definition sl_RemoveRangeByRank :: "'f skiplist \<Rightarrow> int \<Rightarrow> int \<Rightarrow> ('f skiplist \<times> 'f Element list) option" where
  "sl_RemoveRangeByRank sl start stop = do {
     (x, i, update, rank) \<leftarrow> descend sl (\<lambda>r s e. r + s < start) (sl_level sl) 0 0 [] [];
     node \<leftarrow> forward sl x 0;
     removeByRank_loop sl stop update node (i + 1) []
   }"

subsection \<open>SortedSet\<close>

record 'f SortedSet =
  ss_dict :: "(string, 'f Element) gomap"
  ss_list :: "'f skiplist"

definition SS_Make :: "('f :: zero) SortedSet" where
  "SS_Make = \<lparr>ss_dict = [], ss_list = makeSkiplist\<rparr>"

text \<open>\<open>rnd\<close> is the random value that the insertion draws.\<close>

definition SS_Add :: "nat \<Rightarrow> ('f :: linorder) SortedSet \<Rightarrow> string \<Rightarrow> 'f \<Rightarrow> ('f SortedSet \<times> bool) option" where
  "SS_Add rnd ss member score =
     (let element = map_of (ss_dict ss) member;
          dict = map_put member \<lparr>Member = member, Score = score\<rparr> (ss_dict ss) in
      case element of
        Some el \<Rightarrow>
          (if score \<noteq> Score el then do {
             (sl, b) \<leftarrow> sl_remove (ss_list ss) member (Score el);
             sl \<leftarrow> sl_insert rnd sl member score;
             Some (\<lparr>ss_dict = dict, ss_list = sl\<rparr>, False)
           } else Some (\<lparr>ss_dict = dict, ss_list = ss_list ss\<rparr>, False))
      | None \<Rightarrow> do {
          sl \<leftarrow> sl_insert rnd (ss_list ss) member score;
          Some (\<lparr>ss_dict = dict, ss_list = sl\<rparr>, True)
        })"

definition SS_Len :: "'f SortedSet \<Rightarrow> int" where
  "SS_Len ss = int (length (ss_dict ss))"

definition SS_Get :: "'f SortedSet \<Rightarrow> string \<Rightarrow> 'f Element option" where
  "SS_Get ss member = map_of (ss_dict ss) member"

definition SS_Remove :: "('f :: linorder) SortedSet \<Rightarrow> string \<Rightarrow> ('f SortedSet \<times> bool) option" where
  "SS_Remove ss member =
     (case map_of (ss_dict ss) member of
        Some v \<Rightarrow> do {
          (sl, b) \<leftarrow> sl_remove (ss_list ss) member (Score v);
          Some (\<lparr>ss_dict = map_del member (ss_dict ss), ss_list = sl\<rparr>, True)
        }
      | None \<Rightarrow> Some (ss, False))"

definition SS_GetRank :: "('f :: linorder) SortedSet \<Rightarrow> string \<Rightarrow> bool \<Rightarrow> int option" where
  "SS_GetRank ss member desc =
     (case map_of (ss_dict ss) member of
        None \<Rightarrow> Some (- 1)
      | Some element \<Rightarrow> do {
          r \<leftarrow> getRank (ss_list ss) member (Score element);
          Some (if desc then sl_length (ss_list ss) - r else r - 1)
        })"

text \<open>One step to the neighbour in the direction of a traversal.\<close>

definition neighbour :: "'f skiplist \<Rightarrow> bool \<Rightarrow> nat \<Rightarrow> nat option option" where
  "neighbour sl desc x = (if desc then map_option zn_backward (sl_nodes sl x) else forward sl x 0)"

fun visit :: "'f skiplist \<Rightarrow> bool \<Rightarrow> ('s \<Rightarrow> 'f Element \<Rightarrow> bool \<times> 's) \<Rightarrow> nat \<Rightarrow> nat option \<Rightarrow> 's \<Rightarrow> 's option" where
  "visit sl desc consumer 0 node s = Some s"
| "visit sl desc consumer (Suc n) node s = do {
     x \<leftarrow> node;
     nd \<leftarrow> sl_nodes sl x;
     (case consumer s (zn_elem nd) of (go, s') \<Rightarrow>
        if \<not> go then Some s'
        else do { node' \<leftarrow> neighbour sl desc x; visit sl desc consumer n node' s' })
   }"

definition SS_ForEachByRank :: "'f SortedSet \<Rightarrow> int \<Rightarrow> int \<Rightarrow> bool \<Rightarrow> ('s \<Rightarrow> 'f Element \<Rightarrow> bool \<times> 's) \<Rightarrow> 's \<Rightarrow> 's option" where
  "SS_ForEachByRank ss start stop desc consumer s =
     (let size = SS_Len ss; sl = ss_list ss in
      if start < 0 \<or> start \<ge> size then None
      else if stop < start \<or> stop > size then None
      else do {
        node \<leftarrow> (if desc then (if start > 0 then getByRank sl (size - start) else Some (sl_tail sl))
                 else (if start > 0 then getByRank sl (start + 1) else forward sl 0 0));
        visit sl desc consumer (nat (stop - start)) node s
      })"

definition SS_RangeByRank :: "'f SortedSet \<Rightarrow> int \<Rightarrow> int \<Rightarrow> bool \<Rightarrow> 'f Element option list option" where
  "SS_RangeByRank ss start stop desc =
     (if \<not> make_ok 8 (stop - start) then None
      else map_option fst (SS_ForEachByRank ss start stop desc
        (\<lambda>(slic, i) e. (True, (slic[i := Some e], Suc i))) (replicate (nat (stop - start)) None, 0)))"

definition SS_RangeCount :: "('f :: linorder) SortedSet \<Rightarrow> 'f Border \<Rightarrow> 'f Border \<Rightarrow> int option" where
  "SS_RangeCount ss mn mx =
     SS_ForEachByRank ss 0 (SS_Len ss) False
       (\<lambda>i e. if \<not> border_less mn e then (True, i)
              else if \<not> border_greater mx e then (False, i) else (True, i + 1)) 0"

fun skip_offset :: "'f skiplist \<Rightarrow> bool \<Rightarrow> nat \<Rightarrow> nat option \<Rightarrow> nat option option" where
  "skip_offset sl desc 0 node = Some node"
| "skip_offset sl desc (Suc n) node =
     (case node of None \<Rightarrow> Some None
      | Some x \<Rightarrow> do { node' \<leftarrow> neighbour sl desc x; skip_offset sl desc n node' })"

partial_function (option) forEachRange_loop ::
  "('f :: linorder) skiplist \<Rightarrow> 'f Border \<Rightarrow> 'f Border \<Rightarrow> int \<Rightarrow> bool \<Rightarrow> ('s \<Rightarrow> 'f Element \<Rightarrow> bool \<times> 's)
     \<Rightarrow> int \<Rightarrow> nat option \<Rightarrow> 's \<Rightarrow> 's option" where
  "forEachRange_loop sl mn mx limit desc consumer i node s =
     (if \<not> (i < limit \<or> limit < 0) then Some s
      else case node of
        None \<Rightarrow> Some s
      | Some x \<Rightarrow> do {
          nd \<leftarrow> sl_nodes sl x;
          (case consumer s (zn_elem nd) of (go, s') \<Rightarrow>
             if \<not> go then Some s'
             else do {
               node' \<leftarrow> neighbour sl desc x;
               (case node' of
                  None \<Rightarrow> Some s'
                | Some y \<Rightarrow> do {
                    ny \<leftarrow> sl_nodes sl y;
                    (if \<not> border_less mn (zn_elem ny) \<or> \<not> border_greater mx (zn_elem ny) then Some s'
                     else forEachRange_loop sl mn mx limit desc consumer (i + 1) node' s')
                  })
             })
        })"

definition SS_ForEach :: "('f :: linorder) SortedSet \<Rightarrow> 'f Border \<Rightarrow> 'f Border \<Rightarrow> int \<Rightarrow> int \<Rightarrow> bool
    \<Rightarrow> ('s \<Rightarrow> 'f Element \<Rightarrow> bool \<times> 's) \<Rightarrow> 's \<Rightarrow> 's option" where
  "SS_ForEach ss mn mx offset limit desc consumer s = do {
     node \<leftarrow> (if desc then getLastInRange (ss_list ss) mn mx else getFirstInRange (ss_list ss) mn mx);
     node \<leftarrow> skip_offset (ss_list ss) desc (nat offset) node;
     forEachRange_loop (ss_list ss) mn mx limit desc consumer 0 node s
   }"

definition SS_Range :: "('f :: linorder) SortedSet \<Rightarrow> 'f Border \<Rightarrow> 'f Border \<Rightarrow> int \<Rightarrow> int \<Rightarrow> bool
    \<Rightarrow> 'f Element list option" where
  "SS_Range ss mn mx offset limit desc =
     (if limit = 0 \<or> offset < 0 then Some []
      else SS_ForEach ss mn mx offset limit desc (\<lambda>slic e. (True, slic @ [e])) [])"

definition del_members :: "'f SortedSet \<Rightarrow> 'f skiplist \<Rightarrow> 'f Element list \<Rightarrow> 'f SortedSet" where
  "del_members ss sl removed = \<lparr>ss_dict = foldl (\<lambda>d e. map_del (Member e) d) (ss_dict ss) removed, ss_list = sl\<rparr>"

definition SS_RemoveRange :: "('f :: linorder) SortedSet \<Rightarrow> 'f Border \<Rightarrow> 'f Border \<Rightarrow> ('f SortedSet \<times> int) option" where
  "SS_RemoveRange ss mn mx = do {
     (sl, removed) \<leftarrow> sl_RemoveRange (ss_list ss) mn mx 0;
     Some (del_members ss sl removed, int (length removed))
   }"

definition SS_PopMin :: "('f :: {linorder, zero}) SortedSet \<Rightarrow> int \<Rightarrow> ('f SortedSet \<times> 'f Element list) option" where
  "SS_PopMin ss cnt = do {
     first \<leftarrow> getFirstInRange (ss_list ss) scoreNegativeInfBorder scorePositiveInfBorder;
     (case first of
        None \<Rightarrow> Some (ss, [])
      | Some x \<Rightarrow> do {
          nd \<leftarrow> sl_nodes (ss_list ss) x;
          (sl, removed) \<leftarrow> sl_RemoveRange (ss_list ss) (ScoreBorder 0 (Score (zn_elem nd)) False)
            scorePositiveInfBorder cnt;
          Some (del_members ss sl removed, removed)
        })
   }"

definition SS_RemoveByRank :: "'f SortedSet \<Rightarrow> int \<Rightarrow> int \<Rightarrow> ('f SortedSet \<times> int) option" where
  "SS_RemoveByRank ss start stop = do {
     (sl, removed) \<leftarrow> sl_RemoveRangeByRank (ss_list ss) (start + 1) (stop + 1);
     Some (del_members ss sl removed, int (length removed))
   }"

subsection \<open>What a sorted set holds\<close>

text \<open>The map and the skip list hold the same elements, \<open>es\<close> in the order of the skip list.\<close>

definition SS_rep :: "('f :: linorder) SortedSet \<Rightarrow> 'f Element list \<Rightarrow> bool" where
  "SS_rep ss es \<longleftrightarrow> map_ok (ss_dict ss) \<and> (\<exists>hs as. sl_rep (ss_list ss) es hs as) \<and>
     (\<forall>m e. map_of (ss_dict ss) m = Some e \<longleftrightarrow> e \<in> set es \<and> Member e = m)"

definition without :: "string \<Rightarrow> 'f Element list \<Rightarrow> 'f Element list" where
  "without m es = filter (\<lambda>e. Member e \<noteq> m) es"

definition place :: "('f :: linorder) Element \<Rightarrow> 'f Element list \<Rightarrow> 'f Element list" where
  "place e es = ins (pos es e) e es"

definition upd_ok :: "'f skiplist \<Rightarrow> nat list \<Rightarrow> nat list \<Rightarrow> nat list \<Rightarrow> nat \<Rightarrow> bool" where
  "upd_ok sl hs as update K \<longleftrightarrow> sl_level sl \<le> length update \<and>
     (\<forall>j < sl_level sl. update ! j = As as ! lst (Hs hs) j K) \<and> set update \<subseteq> set (take (Suc K) (As as))"

section \<open>Lemmas\<close>

subsection \<open>The loops that remove consecutive nodes\<close>

lemma forward_0:
  assumes rep: "sl_rep sl es hs as" and "p \<le> length es"
  shows "forward sl (As as ! p) 0 = Some (if p < length es then Some (as ! p) else None)"
proof -
  have len: "length hs = length es" using sl_rep_lengths [OF rep] by simp
  have "nxt (Hs hs) 0 p = Suc p"
    using sl_rep_heights [OF rep, of "Suc p"] assms(2) len by (intro nxt_eqI) auto
  then show ?thesis
    using sl_rep_forward [OF rep assms(2), of 0] sl_rep_heights [OF rep, of p] assms(2) len by (simp add: Suc_le_eq)
qed

lemma node_at: "sl_rep sl es hs as \<Longrightarrow> k < length es \<Longrightarrow> sl_nodes sl (as ! k) = Some \<lparr>zn_elem = es ! k,
    zn_backward = (if k = 0 then None else Some (as ! (k - 1))), zn_height = hs ! k\<rparr>"
  by (simp add: sl_rep_def)

lemma upd_ok_descend:
  assumes "sl_rep sl es hs as" and "K \<le> length es"
  shows "upd_ok sl hs as (map (\<lambda>i. As as ! lst (Hs hs) i K) [0..<sl_level sl]) K"
  using set_lst_take [of K as "Hs hs" "[0..<sl_level sl]"] assms sl_rep_lengths [OF assms(1)]
  by (simp add: upd_ok_def)

lemma remove_step:
  assumes rep: "sl_rep sl es hs as" and K: "K < length es" and u: "upd_ok sl hs as update K"
  shows "\<exists>sl' hs' as'. removeNode sl (as ! K) update = Some sl' \<and> sl_rep sl' (take K es @ drop (Suc K) es) hs' as' \<and>
    upd_ok sl' hs' as' update K \<and>
    forward sl (as ! K) 0 = Some (if Suc K < length es then Some (as' ! K) else None)"
proof -
  have len: "length hs = length es" "length as = length es" using sl_rep_lengths [OF rep] by simp_all
  let ?hs = "take K hs @ drop (Suc K) hs" and ?as = "take K as @ drop (Suc K) as"
  obtain sl' where s: "removeNode sl (as ! K) update = Some sl'"
    "sl_rep sl' (take K es @ drop (Suc K) es) ?hs ?as" "sl_level sl' \<le> sl_level sl"
    using removeNode_at [OF rep K, of update] u unfolding upd_ok_def by blast
  have nth: "As ?as ! p = As as ! p" "Hs ?hs ! p = Hs hs ! p" if "p \<le> K" for p
    using that K len by (cases p; simp add: nth_append)+
  have "As ?as ! lst (Hs ?hs) j K = As as ! lst (Hs hs) j K" for j
    using nth lst_le [of "Hs hs" j K] lst_cong [of K "Hs ?hs" "Hs hs" j] by simp
  moreover have "take (Suc K) (As ?as) = take (Suc K) (As as)" using K len by simp
  ultimately have "upd_ok sl' ?hs ?as update K" using u s(3) unfolding upd_ok_def by (metis less_le_trans order_trans)
  moreover have "forward sl (as ! K) 0 = Some (if Suc K < length es then Some (?as ! K) else None)"
    using forward_0 [OF rep, of "Suc K"] K len by (simp add: nth_append)
  ultimately show ?thesis using s by blast
qed

lemma removeByRank_loop_rep:
  assumes "sl_rep sl es hs as" and "K \<le> length es" and "upd_ok sl hs as update K"
    and "node = (if K < length es then Some (as ! K) else None)" and "n = min (nat (stop - i)) (length es - K)"
  shows "\<exists>sl' hs' as'. removeByRank_loop sl stop update node i rm = Some (sl', rm @ take n (drop K es)) \<and>
    sl_rep sl' (take K es @ drop (K + n) es) hs' as'"
  using assms
proof (induction n arbitrary: sl es hs as node i rm)
  case 0
  show ?case
  proof (cases "K < length es")
    case True
    with 0 have "\<not> i < stop" by auto
    with True 0 show ?thesis by (subst removeByRank_loop.simps) auto
  next
    case False
    with 0 show ?thesis by (subst removeByRank_loop.simps) auto
  qed
next
  case (Suc n)
  then have K: "K < length es" and i: "i < stop" by auto
  obtain sl' hs' as' where s: "removeNode sl (as ! K) update = Some sl'"
    "sl_rep sl' (take K es @ drop (Suc K) es) hs' as'" "upd_ok sl' hs' as' update K"
    "forward sl (as ! K) 0 = Some (if Suc K < length es then Some (as' ! K) else None)"
    using remove_step [OF Suc.prems(1) K Suc.prems(3)] by blast
  let ?es = "take K es @ drop (Suc K) es" and ?node = "if Suc K < length es then Some (as' ! K) else None"
  have "\<exists>sl'' hs'' as''. removeByRank_loop sl' stop update ?node (i + 1) (rm @ [es ! K]) =
      Some (sl'', (rm @ [es ! K]) @ take n (drop K ?es)) \<and> sl_rep sl'' (take K ?es @ drop (K + n) ?es) hs'' as''"
    using Suc.prems(5) K i by (intro Suc.IH [OF s(2) _ s(3)]) auto
  then obtain sl'' hs'' as'' where r: "removeByRank_loop sl' stop update ?node (i + 1) (rm @ [es ! K]) =
      Some (sl'', (rm @ [es ! K]) @ take n (drop K ?es))" "sl_rep sl'' (take K ?es @ drop (K + n) ?es) hs'' as''" by blast
  have e: "(rm @ [es ! K]) @ take n (drop K ?es) = rm @ take (Suc n) (drop K es)"
    "take K ?es @ drop (K + n) ?es = take K es @ drop (K + Suc n) es"
    using K by (simp_all add: min_def Cons_nth_drop_Suc [symmetric] add.commute)
  have "removeByRank_loop sl stop update node i rm = Some (sl'', rm @ take (Suc n) (drop K es))"
    using Suc.prems(4) K i s node_at [OF Suc.prems(1) K] r(1) unfolding e(1)
    by (subst removeByRank_loop.simps) simp
  with r(2) show ?case unfolding e(2) by blast
qed

text \<open>The loop of \<^verbatim>\<open>RemoveRange\<close> removes the elements behind \<open>K\<close> as long as the border allows, up to the limit.\<close>

definition run_length :: "('f :: linorder) Border \<Rightarrow> int \<Rightarrow> 'f Element list \<Rightarrow> nat" where
  "run_length mx limit es = (let n = length (takeWhile (border_greater mx) es) in
     if limit > 0 then min n (nat limit) else n)"

lemma removeRange_loop_rep:
  assumes "sl_rep sl es hs as" and "K \<le> length es" and "upd_ok sl hs as update K"
    and "node = (if K < length es then Some (as ! K) else None)" and "limit \<le> 0 \<or> int (length rm) < limit"
    and "n = run_length mx (if limit > 0 then limit - int (length rm) else 0) (drop K es)"
  shows "\<exists>sl' hs' as'. removeRange_loop sl mx limit update node rm = Some (sl', rm @ take n (drop K es)) \<and>
    sl_rep sl' (take K es @ drop (K + n) es) hs' as'"
  using assms
proof (induction "length es - K" arbitrary: sl es hs as node rm n)
  case 0
  then show ?case by (subst removeRange_loop.simps) (auto simp: run_length_def)
next
  case (Suc d)
  then have K: "K < length es" by simp
  then have dr: "drop K es = es ! K # drop (Suc K) es" by (simp add: Cons_nth_drop_Suc)
  show ?case
  proof (cases "border_greater mx (es ! K)")
    case False
    then have "n = 0" using Suc.prems(6) dr by (simp add: run_length_def Let_def)
    with False K Suc.prems(1,4) node_at [OF Suc.prems(1) K] show ?thesis
      by (subst removeRange_loop.simps) auto
  next
    case True
    obtain sl' hs' as' where s: "removeNode sl (as ! K) update = Some sl'"
      "sl_rep sl' (take K es @ drop (Suc K) es) hs' as'" "upd_ok sl' hs' as' update K"
      "forward sl (as ! K) 0 = Some (if Suc K < length es then Some (as' ! K) else None)"
      using remove_step [OF Suc.prems(1) K Suc.prems(3)] by blast
    let ?es = "take K es @ drop (Suc K) es" and ?node = "if Suc K < length es then Some (as' ! K) else None"
    show ?thesis
    proof (cases "limit > 0 \<and> int (length (rm @ [es ! K])) = limit")
      case stop: True
      then have "n = 1" using Suc.prems(6) dr True by (auto simp: run_length_def Let_def min_def)
      with stop True K s Suc.prems(4) node_at [OF Suc.prems(1) K] dr show ?thesis
        by (subst removeRange_loop.simps) auto
    next
      case go: False
      let ?m = "run_length mx (if limit > 0 then limit - int (length (rm @ [es ! K])) else 0) (drop K ?es)"
      have dr': "drop K ?es = drop (Suc K) es" using K by simp
      have n: "n = Suc ?m"
        using Suc.prems(5,6) dr dr' True go by (auto simp: run_length_def Let_def min_def)
      have "\<exists>sl'' hs'' as''. removeRange_loop sl' mx limit update ?node (rm @ [es ! K]) =
          Some (sl'', (rm @ [es ! K]) @ take ?m (drop K ?es)) \<and> sl_rep sl'' (take K ?es @ drop (K + ?m) ?es) hs'' as''"
        using Suc.hyps(2) Suc.prems(5) K go by (intro Suc.hyps(1) [OF _ s(2) _ s(3)]) auto
      then obtain sl'' hs'' as'' where r: "removeRange_loop sl' mx limit update ?node (rm @ [es ! K]) =
          Some (sl'', (rm @ [es ! K]) @ take ?m (drop K ?es))" "sl_rep sl'' (take K ?es @ drop (K + ?m) ?es) hs'' as''" by blast
      have e: "(rm @ [es ! K]) @ take ?m (drop K ?es) = rm @ take n (drop K es)"
        "take K ?es @ drop (K + ?m) ?es = take K es @ drop (K + n) es"
        using K unfolding n dr' by (simp_all add: min_def dr add.commute)
      have "removeRange_loop sl mx limit update node rm = Some (sl'', rm @ take n (drop K es))"
        using Suc.prems(4) K go True s node_at [OF Suc.prems(1) K] r(1) unfolding e(1)
        by (subst removeRange_loop.simps) auto
      with r(2) show ?thesis unfolding e(2) by blast
    qed
  qed
qed

subsection \<open>Sorted lists of elements\<close>

lemma sorted_elt_unique:
  fixes xs ys :: "('f :: linorder) Element list"
  assumes "sorted_wrt elt xs" and "sorted_wrt elt ys" and "set xs = set ys"
  shows "xs = ys"
  using assms
proof (induction xs arbitrary: ys)
  case (Cons x xs)
  from Cons.prems(3) obtain y ys' where ys: "ys = y # ys'" by (cases ys) auto
  have x: "x \<notin> set xs" "y \<notin> set ys'" using Cons.prems(1,2) ys elt_irrefl by auto
  have "x = y"
  proof (rule ccontr)
    assume "x \<noteq> y"
    with Cons.prems(3) ys have "y \<in> set xs" "x \<in> set ys'" by auto
    with Cons.prems(1,2) ys have "elt x y" "elt y x" by auto
    then show False using elt_trans elt_irrefl by blast
  qed
  moreover from this x Cons.prems(3) ys have "set xs = set ys'" by auto
  ultimately show ?case using Cons ys by auto
qed simp

lemma sorted_elt_distinct: "sorted_wrt elt es \<Longrightarrow> distinct es"
  by (induction es) (auto simp: elt_irrefl)

lemma SS_rep_sorted: "SS_rep ss es \<Longrightarrow> sorted_wrt elt es"
  by (auto simp: SS_rep_def sl_rep_def)

lemma SS_rep_members: "SS_rep ss es \<Longrightarrow> distinct (map Member es)"
proof -
  assume r: "SS_rep ss es"
  then have "distinct es" using SS_rep_sorted sorted_elt_distinct by blast
  moreover have "inj_on Member (set es)"
  proof (rule inj_onI)
    fix e e' assume "e \<in> set es" "e' \<in> set es" "Member e = Member e'"
    with r have "map_of (ss_dict ss) (Member e) = Some e" "map_of (ss_dict ss) (Member e) = Some e'"
      unfolding SS_rep_def by metis+
    then show "e = e'" by simp
  qed
  ultimately show ?thesis by (simp add: distinct_map)
qed

lemma SS_rep_dict: "SS_rep ss es \<Longrightarrow> map_of (ss_dict ss) m = Some e \<longleftrightarrow> e \<in> set es \<and> Member e = m"
  by (simp add: SS_rep_def)

lemma SS_rep_dict_None: "SS_rep ss es \<Longrightarrow> map_of (ss_dict ss) m = None \<longleftrightarrow> m \<notin> Member ` set es"
  using SS_rep_dict [of ss es m] by (cases "map_of (ss_dict ss) m") force+

lemma SS_rep_length: "SS_rep ss es \<Longrightarrow> length (ss_dict ss) = length es"
proof -
  assume r: "SS_rep ss es"
  have "dom (map_of (ss_dict ss)) = Member ` set es"
    using SS_rep_dict_None [OF r] by (auto simp: dom_def)
  then have "length (ss_dict ss) = card (set (map Member es))"
    using r map_ok_card [of "ss_dict ss"] by (simp add: SS_rep_def)
  then show ?thesis using distinct_card [OF SS_rep_members [OF r]] by simp
qed

lemma set_without [simp]: "set (without m es) = {e \<in> set es. Member e \<noteq> m}"
  by (simp add: without_def)

lemma sorted_without: "sorted_wrt elt es \<Longrightarrow> sorted_wrt elt (without m es)"
  by (simp add: without_def sorted_wrt_filter)

lemma set_place [simp]: "set (place e es) = insert e (set es)"
  by (simp add: place_def)

lemma sorted_place: "sorted_wrt elt es \<Longrightarrow> e \<notin> set es \<Longrightarrow> sorted_wrt elt (place e es)"
  by (simp add: place_def sorted_ins)

lemma sl_rep_sorted: "sl_rep sl es hs as \<Longrightarrow> sorted_wrt elt es"
  by (simp add: sl_rep_def)

lemma drop_nth_without:
  assumes "SS_rep ss es" and "k < length es" and "Member (es ! k) = m"
  shows "take k es @ drop (Suc k) es = without m es"
proof (rule sorted_elt_unique)
  have srt: "sorted_wrt elt es" by (rule SS_rep_sorted [OF assms(1)])
  have i: "es = ins k (es ! k) (take k es @ drop (Suc k) es)" by (rule remove_nth_ins [OF assms(2)])
  then show "sorted_wrt elt (take k es @ drop (Suc k) es)" using srt sorted_ins_rev by metis
  show "sorted_wrt elt (without m es)" by (rule sorted_without [OF srt])
  have d: "distinct (map Member es)" by (rule SS_rep_members [OF assms(1)])
  have "es = take k es @ es ! k # drop (Suc k) es" using assms(2) by (rule id_take_nth_drop)
  then have "distinct (map Member (take k es @ es ! k # drop (Suc k) es))" using d by simp
  then have "m \<notin> Member ` set (take k es @ drop (Suc k) es)" using assms(3) by auto
  then have n: "Member e \<noteq> m" if "e \<in> set (take k es @ drop (Suc k) es)" for e using that by blast
  have w: "set es = insert (es ! k) (set (take k es @ drop (Suc k) es))"
    using arg_cong [OF id_take_nth_drop [OF assms(2)], of set] by simp
  show "set (take k es @ drop (Suc k) es) = set (without m es)"
    unfolding set_without w using n assms(3) by (auto simp del: set_append)
qed

subsection \<open>Add and Remove\<close>

lemma sl_remove_member:
  assumes r: "SS_rep ss es" and e: "map_of (ss_dict ss) m = Some e"
  shows "\<exists>sl hs as. sl_remove (ss_list ss) m (Score e) = Some (sl, True) \<and> sl_rep sl (without m es) hs as"
proof -
  obtain hs as where rep: "sl_rep (ss_list ss) es hs as" using r by (auto simp: SS_rep_def)
  have e': "e \<in> set es" "\<lparr>Member = m, Score = Score e\<rparr> = e" using SS_rep_dict [OF r] e by auto
  define K where "K = pos es e"
  have "if e \<in> set es
    then \<exists>sl'. sl_remove (ss_list ss) m (Score e) = Some (sl', True) \<and> K < length es \<and> es ! K = e \<and>
      sl_rep sl' (take K es @ drop (Suc K) es) (take K hs @ drop (Suc K) hs) (take K as @ drop (Suc K) as)
    else sl_remove (ss_list ss) m (Score e) = Some (ss_list ss, False)"
    using sl_remove_rep [OF rep refl, of m "Score e"] by (simp only: e'(2) K_def)
  with e'(1) obtain sl' where "sl_remove (ss_list ss) m (Score e) = Some (sl', True)" "K < length es" "es ! K = e"
      "sl_rep sl' (take K es @ drop (Suc K) es) (take K hs @ drop (Suc K) hs) (take K as @ drop (Suc K) as)" by auto
  moreover from this have "take K es @ drop (Suc K) es = without m es"
    using drop_nth_without [OF r, of K m] SS_rep_dict [OF r] e by simp
  ultimately show ?thesis by auto
qed

lemma SS_Remove_rep:
  assumes r: "SS_rep ss es"
  shows "\<exists>ss'. SS_Remove ss m = Some (ss', m \<in> Member ` set es) \<and> SS_rep ss' (without m es)"
proof (cases "map_of (ss_dict ss) m")
  case None
  then have m: "m \<notin> Member ` set es" using SS_rep_dict_None [OF r] by simp
  then have "without m es = es" unfolding without_def by (intro filter_True) auto
  with None r m show ?thesis by (simp add: SS_Remove_def)
next
  case (Some e)
  obtain sl hs as where s: "sl_remove (ss_list ss) m (Score e) = Some (sl, True)" "sl_rep sl (without m es) hs as"
    using sl_remove_member [OF r Some] by blast
  have "m \<in> Member ` set es" using SS_rep_dict_None [OF r, of m] Some by simp
  moreover have "SS_rep \<lparr>ss_dict = map_del m (ss_dict ss), ss_list = sl\<rparr> (without m es)"
    using r s(2) by (auto simp: SS_rep_def)
  ultimately show ?thesis using Some s by (simp add: SS_Remove_def)
qed

lemma SS_Add_rep:
  assumes r: "SS_rep ss es"
  shows "\<exists>ss'. SS_Add rnd ss m sc = Some (ss', m \<notin> Member ` set es) \<and>
    SS_rep ss' (place \<lparr>Member = m, Score = sc\<rparr> (without m es))"
proof -
  let ?e = "\<lparr>Member = m, Score = sc\<rparr>" and ?d = "map_put m \<lparr>Member = m, Score = sc\<rparr> (ss_dict ss)"
  have srt: "sorted_wrt elt (without m es)" using sorted_without SS_rep_sorted [OF r] by blast
  have n: "?e \<notin> set (without m es)" by simp
  have new: "SS_rep \<lparr>ss_dict = ?d, ss_list = sl\<rparr> (place ?e (without m es))"
    if "sl_rep sl (place ?e (without m es)) hs as" for sl hs as
    using that r by (auto simp: SS_rep_def)
  have insert: "\<exists>sl'. sl_insert rnd sl m sc = Some sl' \<and> (\<exists>hs as. sl_rep sl' (place ?e (without m es)) hs as)"
    if "sl_rep sl (without m es) hs as" for sl hs as
    using sl_insert_rep [OF that refl n refl] unfolding place_def by blast
  show ?thesis
  proof (cases "map_of (ss_dict ss) m")
    case None
    then have m: "m \<notin> Member ` set es" using SS_rep_dict_None [OF r] by simp
    then have w: "without m es = es" unfolding without_def by (intro filter_True) auto
    obtain hs as where "sl_rep (ss_list ss) (without m es) hs as" using r w by (auto simp: SS_rep_def)
    from insert [OF this] new None m show ?thesis by (auto simp: SS_Add_def Let_def)
  next
    case (Some e)
    then have m: "m \<in> Member ` set es" and e: "e \<in> set es" "Member e = m"
      using SS_rep_dict [OF r] by auto
    show ?thesis
    proof (cases "sc = Score e")
      case False
      obtain sl hs as where s: "sl_remove (ss_list ss) m (Score e) = Some (sl, True)" "sl_rep sl (without m es) hs as"
        using sl_remove_member [OF r Some] by blast
      from insert [OF s(2)] new False Some s(1) m show ?thesis by (auto simp: SS_Add_def Let_def)
    next
      case True
      have ee: "?e = e" using True e(2) by simp
      have "place ?e (without m es) = es"
      proof (rule sorted_elt_unique [OF sorted_place [OF srt n] SS_rep_sorted [OF r]])
        have "e' = e" if "e' \<in> set es" "Member e' = m" for e'
          using SS_rep_dict [OF r, of m e'] that Some by simp
        then show "set (place ?e (without m es)) = set es" unfolding set_place set_without ee using e(1) by auto
      qed
      moreover obtain hs as where "sl_rep (ss_list ss) es hs as" using r by (auto simp: SS_rep_def)
      ultimately have "SS_rep \<lparr>ss_dict = ?d, ss_list = ss_list ss\<rparr> (place ?e (without m es))"
        using new [of "ss_list ss" hs as] by simp
      with True Some m show ?thesis by (auto simp: SS_Add_def Let_def)
    qed
  qed
qed

end
