(* ===== verification/SortedSetSpec.thy ===== *)
theory SortedSetSpec
  imports SortedSet
begin

text \<open>
  What a sorted set promises: a list of elements with distinct members, sorted by score and then
  by member. \<open>zset_spec\<close> gives the meaning of every method on such a list, independent of the
  random levels of the skip list, and the methods of \<^verbatim>\<open>datastruct/sortedset/sortedset.go\<close> are
  proved to answer any sequence of calls as the list does.
\<close>

definition dir :: "bool \<Rightarrow> 'a list \<Rightarrow> 'a list" where
  "dir desc xs = (if desc then rev xs else xs)"

definition inRange :: "('f :: linorder) Border \<Rightarrow> 'f Border \<Rightarrow> 'f Element \<Rightarrow> bool" where
  "inRange mn mx e \<longleftrightarrow> border_less mn e \<and> border_greater mx e"

text \<open>A negative limit is no limit.\<close>

definition limited :: "int \<Rightarrow> 'a list \<Rightarrow> 'a list" where
  "limited n xs = (if n < 0 then xs else take (nat n) xs)"

text \<open>A traversal: the consumer sees the elements in turn and may stop it.\<close>

fun consume :: "('s \<Rightarrow> 'a \<Rightarrow> bool \<times> 's) \<Rightarrow> 'a list \<Rightarrow> 's \<Rightarrow> 's" where
  "consume f [] s = s"
| "consume f (x # xs) s = (case f s x of (go, s') \<Rightarrow> if go then consume f xs s' else s')"

text \<open>The element a range traversal starts from is not checked again.\<close>

definition from_first :: "('a \<Rightarrow> bool) \<Rightarrow> 'a list \<Rightarrow> 'a list" where
  "from_first P zs = (case zs of [] \<Rightarrow> [] | y # ys \<Rightarrow> y # takeWhile P ys)"

definition range_elems :: "('f :: linorder) Border \<Rightarrow> 'f Border \<Rightarrow> int \<Rightarrow> int \<Rightarrow> bool \<Rightarrow> 'f Element list \<Rightarrow> 'f Element list" where
  "range_elems mn mx offset limit desc es =
     (if isIntersected mn mx = Some True then []
      else limited limit (from_first (inRange mn mx)
        (drop (nat offset) (dropWhile (\<lambda>e. \<not> inRange mn mx e) (dir desc es)))))"

definition isScore :: "'f Border \<Rightarrow> bool" where
  "isScore b = (case b of ScoreBorder i v ex \<Rightarrow> True | LexBorder i v ex \<Rightarrow> False)"

definition same_score :: "'f Element list \<Rightarrow> bool" where
  "same_score es \<longleftrightarrow> list_all (\<lambda>e. Score e = Score (hd es)) es"

text \<open>
  The ranges that make sense of a list: score borders, or lexicographic ones while all scores are
  the same (as the documentation of Redis demands).
\<close>

definition borders_ok :: "'f Border \<Rightarrow> 'f Border \<Rightarrow> 'f Element list \<Rightarrow> bool" where
  "borders_ok mn mx es \<longleftrightarrow> (isScore mn \<longleftrightarrow> isScore mx) \<and> (isScore mn \<or> same_score es)"

datatype 'f zset_op = ZAdd nat string 'f | ZGet string | ZLen | ZRemove string | ZRank string bool
  | ZRangeByRank int int bool | ZCount "'f Border" "'f Border" | ZRange "'f Border" "'f Border" int int bool
  | ZRemoveRange "'f Border" "'f Border" | ZPopMin int | ZRemoveByRank int int

datatype 'f zset_ans = ZBool bool | ZNum int | ZElem "'f Element option" | ZElems "'f Element list"
  | ZSlice "'f Element option list"

definition index_of :: "string \<Rightarrow> 'f Element list \<Rightarrow> nat" where
  "index_of m es = length (takeWhile (\<lambda>e. Member e \<noteq> m) es)"

fun zset_spec :: "('f :: linorder) Element list \<Rightarrow> 'f zset_op \<Rightarrow> 'f Element list \<times> 'f zset_ans" where
  "zset_spec es (ZAdd rnd m sc) =
     (place \<lparr>Member = m, Score = sc\<rparr> (without m es), ZBool (m \<notin> Member ` set es))"
| "zset_spec es (ZGet m) = (es, ZElem (List.find (\<lambda>e. Member e = m) es))"
| "zset_spec es ZLen = (es, ZNum (int (length es)))"
| "zset_spec es (ZRemove m) = (without m es, ZBool (m \<in> Member ` set es))"
| "zset_spec es (ZRank m desc) = (es, ZNum (if m \<in> Member ` set es then int (index_of m (dir desc es)) else - 1))"
| "zset_spec es (ZRangeByRank start stop desc) =
     (es, ZSlice (map Some (take (nat (stop - start)) (drop (nat start) (dir desc es)))))"
| "zset_spec es (ZCount mn mx) = (es, ZNum (int (length (filter (inRange mn mx) es))))"
| "zset_spec es (ZRange mn mx offset limit desc) =
     (es, ZElems (if offset < 0 then [] else range_elems mn mx offset limit desc es))"
| "zset_spec es (ZRemoveRange mn mx) =
     (filter (\<lambda>e. \<not> inRange mn mx e) es, ZNum (int (length (filter (inRange mn mx) es))))"
| "zset_spec es (ZPopMin n) = (let k = (if n > 0 then nat n else length es) in (drop k es, ZElems (take k es)))"
| "zset_spec es (ZRemoveByRank start stop) =
     (let a = nat start; b = nat (stop - max 0 start) in
      (take a es @ drop (a + b) es, ZNum (int (length (take b (drop a es))))))"

text \<open>The calls the methods answer: the bounds that the callers check, and ranges that make sense.\<close>

fun zset_ok :: "'f Element list \<Rightarrow> 'f zset_op \<Rightarrow> bool" where
  "zset_ok es (ZAdd rnd m sc) = (m \<noteq> [])"
| "zset_ok es (ZRangeByRank start stop desc) = (0 \<le> start \<and> start < int (length es) \<and> start \<le> stop \<and>
     stop \<le> int (length es) \<and> 8 * (stop - start) \<le> maxAlloc)"
| "zset_ok es (ZCount mn mx) = (es \<noteq> [] \<and> borders_ok mn mx es)"
| "zset_ok es (ZRange mn mx offset limit desc) = borders_ok mn mx es"
| "zset_ok es (ZRemoveRange mn mx) = borders_ok mn mx es"
| "zset_ok es _ = True"

fun SS_exec :: "('f :: {linorder, zero}) SortedSet \<Rightarrow> 'f zset_op \<Rightarrow> ('f SortedSet \<times> 'f zset_ans) option" where
  "SS_exec ss (ZAdd rnd m sc) = do { (ss', b) \<leftarrow> SS_Add rnd ss m sc; Some (ss', ZBool b) }"
| "SS_exec ss (ZGet m) = Some (ss, ZElem (SS_Get ss m))"
| "SS_exec ss ZLen = Some (ss, ZNum (SS_Len ss))"
| "SS_exec ss (ZRemove m) = do { (ss', b) \<leftarrow> SS_Remove ss m; Some (ss', ZBool b) }"
| "SS_exec ss (ZRank m desc) = do { r \<leftarrow> SS_GetRank ss m desc; Some (ss, ZNum r) }"
| "SS_exec ss (ZRangeByRank start stop desc) = do { es \<leftarrow> SS_RangeByRank ss start stop desc; Some (ss, ZSlice es) }"
| "SS_exec ss (ZCount mn mx) = do { n \<leftarrow> SS_RangeCount ss mn mx; Some (ss, ZNum n) }"
| "SS_exec ss (ZRange mn mx offset limit desc) = do { es \<leftarrow> SS_Range ss mn mx offset limit desc; Some (ss, ZElems es) }"
| "SS_exec ss (ZRemoveRange mn mx) = do { (ss', n) \<leftarrow> SS_RemoveRange ss mn mx; Some (ss', ZNum n) }"
| "SS_exec ss (ZPopMin n) = do { (ss', es) \<leftarrow> SS_PopMin ss n; Some (ss', ZElems es) }"
| "SS_exec ss (ZRemoveByRank start stop) = do { (ss', n) \<leftarrow> SS_RemoveByRank ss start stop; Some (ss', ZNum n) }"

fun SS_run :: "('f :: {linorder, zero}) SortedSet \<Rightarrow> 'f zset_op list \<Rightarrow> 'f zset_ans list option" where
  "SS_run ss [] = Some []"
| "SS_run ss (c # cs) = do { (ss', a) \<leftarrow> SS_exec ss c; as \<leftarrow> SS_run ss' cs; Some (a # as) }"

fun zset_run :: "('f :: linorder) Element list \<Rightarrow> 'f zset_op list \<Rightarrow> 'f zset_ans list" where
  "zset_run es [] = []"
| "zset_run es (c # cs) = (case zset_spec es c of (es', a) \<Rightarrow> a # zset_run es' cs)"

fun zset_run_ok :: "('f :: linorder) Element list \<Rightarrow> 'f zset_op list \<Rightarrow> bool" where
  "zset_run_ok es [] = True"
| "zset_run_ok es (c # cs) = (zset_ok es c \<and> zset_run_ok (fst (zset_spec es c)) cs)"

section \<open>Lemmas\<close>

lemma length_dir [simp]: "length (dir desc xs) = length xs"
  by (simp add: dir_def)

lemma set_dir [simp]: "set (dir desc xs) = set xs"
  by (simp add: dir_def)

lemma dir_nth: "k < length xs \<Longrightarrow> dir desc xs ! k = xs ! (if desc then length xs - Suc k else k)"
  by (simp add: dir_def rev_nth)

subsection \<open>Traversals\<close>

text \<open>The node at a position, counted in the direction of the traversal.\<close>

definition at :: "nat list \<Rightarrow> bool \<Rightarrow> nat \<Rightarrow> nat option" where
  "at as desc k = (if k < length as then Some (dir desc as ! k) else None)"

lemma at_node:
  assumes "sl_rep sl es hs as" and "k < length es"
  shows "\<exists>x nd. at as desc k = Some x \<and> sl_nodes sl x = Some nd \<and> zn_elem nd = dir desc es ! k \<and>
    neighbour sl desc x = Some (at as desc (Suc k))"
proof -
  have len: "length as = length es" using sl_rep_lengths [OF assms(1)] by simp
  let ?p = "if desc then length es - Suc k else k"
  have p: "?p < length es" using assms(2) by auto
  have x: "at as desc k = Some (as ! ?p)" using assms(2) len by (simp add: at_def dir_nth)
  have "neighbour sl desc (as ! ?p) = Some (at as desc (Suc k))"
  proof (cases desc)
    case True
    have "length es - Suc k = 0 \<longleftrightarrow> \<not> Suc k < length es" using assms(2) by auto
    with True node_at [OF assms(1) p] assms(2) len show ?thesis
      by (auto simp: neighbour_def at_def dir_nth Suc_diff_Suc)
  next
    case False
    with forward_0 [OF assms(1), of "Suc k"] assms(2) len show ?thesis
      by (simp add: neighbour_def at_def dir_nth)
  qed
  with x node_at [OF assms(1) p] assms(2) show ?thesis by (simp add: dir_nth)
qed

lemma visit_rep:
  assumes "sl_rep sl es hs as" and "k + n \<le> length es"
  shows "visit sl desc f n (at as desc k) s = Some (consume f (take n (drop k (dir desc es))) s)"
  using assms(2)
proof (induction n arbitrary: k s)
  case (Suc n)
  then have k: "k < length es" by simp
  then have "drop k (dir desc es) = dir desc es ! k # drop (Suc k) (dir desc es)" by (simp add: Cons_nth_drop_Suc)
  with at_node [OF assms(1) k, of desc] Suc.IH [of "Suc k"] Suc.prems show ?case
    by (auto split: prod.split)
qed simp

lemma ForEachByRank_rep:
  assumes r: "SS_rep ss es" and "0 \<le> start" "start < int (length es)" "start \<le> stop" "stop \<le> int (length es)"
  shows "SS_ForEachByRank ss start stop desc f s =
    Some (consume f (take (nat (stop - start)) (drop (nat start) (dir desc es))) s)"
proof -
  obtain hs as where rep: "sl_rep (ss_list ss) es hs as" using r by (auto simp: SS_rep_def)
  have len: "length as = length es" using sl_rep_lengths [OF rep] by simp
  have L: "SS_Len ss = int (length es)" using SS_rep_length [OF r] by (simp add: SS_Len_def)
  have k: "nat start < length es" using assms(2,3) by linarith
  have "(if desc then if start > 0 then getByRank (ss_list ss) (int (length es) - start) else Some (sl_tail (ss_list ss))
      else if start > 0 then getByRank (ss_list ss) (start + 1) else forward (ss_list ss) 0 0) = Some (at as desc (nat start))"
  proof (cases "start > 0")
    case True
    have "getByRank (ss_list ss) (int (Suc (length es - Suc (nat start)))) = Some (Some (as ! (length es - Suc (nat start))))"
      by (rule getByRank_rep [OF rep]) (use k in simp)
    moreover note getByRank_rep [OF rep k]
    moreover have "int (Suc (length es - Suc (nat start))) = int (length es) - start" "int (Suc (nat start)) = start + 1"
      using k assms(2) by auto
    ultimately show ?thesis using True k len by (simp add: at_def dir_nth add.commute)
  next
    case False
    with assms(2) have "start = 0" by simp
    with forward_0 [OF rep, of 0] k len rep show ?thesis
      by (auto simp: at_def dir_nth sl_rep_def last_conv_nth)
  qed
  moreover have "nat start + nat (stop - start) \<le> length es" using assms(2-5) by linarith
  then have "visit (ss_list ss) desc f (nat (stop - start)) (at as desc (nat start)) s =
      Some (consume f (take (nat (stop - start)) (drop (nat start) (dir desc es))) s)" by (rule visit_rep [OF rep])
  ultimately show ?thesis using assms(2-5) L
    by (simp add: SS_ForEachByRank_def Let_def)
qed

lemma consume_fill:
  "length xs = n \<Longrightarrow> i + n \<le> length slic \<Longrightarrow>
   consume (\<lambda>(slic, i) e. (True, (slic[i := Some e], Suc i))) xs (slic, i) =
     (take i slic @ map Some xs @ drop (i + n) slic, i + n)"
proof (induction xs arbitrary: n i slic)
  case (Cons x xs)
  then obtain m where n: "n = Suc m" by auto
  have "take (Suc i) (slic[i := Some x]) = take i slic @ [Some x]"
    using Cons.prems n by (simp add: take_Suc_conv_app_nth)
  with Cons n show ?case by simp
qed simp

lemma SS_RangeByRank_rep:
  assumes "SS_rep ss es" "0 \<le> start" "start < int (length es)" "start \<le> stop" "stop \<le> int (length es)"
    "8 * (stop - start) \<le> maxAlloc"
  shows "SS_RangeByRank ss start stop desc =
    Some (map Some (take (nat (stop - start)) (drop (nat start) (dir desc es))))"
proof -
  let ?xs = "take (nat (stop - start)) (drop (nat start) (dir desc es))"
  have "length ?xs = nat (stop - start)" using assms(2-5) by auto
  from consume_fill [OF this, of 0 "replicate (nat (stop - start)) None"]
  show ?thesis using assms by (simp add: SS_RangeByRank_def make_ok_def ForEachByRank_rep [OF assms(1)])
qed

subsection \<open>Borders are monotone along the list\<close>

lemma takeWhile_nth_iff:
  assumes "sorted_wrt (\<lambda>a b. P b \<longrightarrow> P a) xs" and "i < length xs"
  shows "P (xs ! i) \<longleftrightarrow> i < length (takeWhile P xs)"
proof
  assume P: "P (xs ! i)"
  show "i < length (takeWhile P xs)"
  proof (rule ccontr)
    assume n: "\<not> i < length (takeWhile P xs)"
    then have l: "length (takeWhile P xs) < length xs" using assms(2) by simp
    then have "\<not> P (xs ! length (takeWhile P xs))" by (rule nth_length_takeWhile)
    moreover have "length (takeWhile P xs) \<noteq> i" using calculation P by auto
    then have "P (xs ! length (takeWhile P xs))"
      using sorted_wrt_nth_less [OF assms(1) _ assms(2), of "length (takeWhile P xs)"] n P by simp
    ultimately show False by simp
  qed
next
  assume "i < length (takeWhile P xs)"
  then show "P (xs ! i)" by (metis nth_mem set_takeWhileD takeWhile_nth)
qed

lemma cuts_pred:
  assumes "sorted_wrt (\<lambda>a b. P b \<longrightarrow> P a) es"
  shows "cuts (\<lambda>r s e. P e) es (length (takeWhile P es))"
proof -
  have "P (es ! (q - 1)) \<longleftrightarrow> q \<le> length (takeWhile P es)" if "p < q" "q \<le> length es" for p q :: nat
    using takeWhile_nth_iff [OF assms, of "q - 1"] that by auto
  then show ?thesis by (simp add: cuts_def length_takeWhile_le)
qed

text \<open>\<open>A\<close> holds from some position on, \<open>B\<close> up to some position.\<close>

definition upto_range :: "('a \<Rightarrow> bool) \<Rightarrow> ('a \<Rightarrow> bool) \<Rightarrow> 'a list \<Rightarrow> bool" where
  "upto_range A B zs \<longleftrightarrow> sorted_wrt (\<lambda>a b. (A a \<longrightarrow> A b) \<and> (B b \<longrightarrow> B a)) zs"

lemma upto_range_Cons:
  "upto_range A B (z # zs) \<longleftrightarrow> (\<forall>y \<in> set zs. (A z \<longrightarrow> A y) \<and> (B y \<longrightarrow> B z)) \<and> upto_range A B zs"
  by (simp add: upto_range_def)

lemma upto_range_rev: "upto_range A B (rev zs) \<longleftrightarrow> upto_range B A zs"
  by (simp add: upto_range_def sorted_wrt_rev conj_commute)

lemma upto_range_A: "upto_range A B zs \<Longrightarrow> sorted_wrt (\<lambda>a b. \<not> A b \<longrightarrow> \<not> A a) zs"
  by (induction zs) (simp add: upto_range_def, unfold upto_range_Cons sorted_wrt.simps, blast)

lemma upto_range_B: "upto_range A B zs \<Longrightarrow> sorted_wrt (\<lambda>a b. B b \<longrightarrow> B a) zs"
  by (induction zs) (simp add: upto_range_def, unfold upto_range_Cons sorted_wrt.simps, blast)

lemma first_in_range:
  assumes "upto_range A B zs" and "K = length (takeWhile (\<lambda>e. \<not> A e) zs)"
  shows "length (takeWhile (\<lambda>e. \<not> (A e \<and> B e)) zs) = (if K < length zs \<and> B (zs ! K) then K else length zs)"
  using assms
proof (induction zs arbitrary: K)
  case (Cons z zs)
  show ?case
  proof (cases "A z")
    case True
    with Cons.prems show ?thesis
      by (auto simp: upto_range_Cons) (metis (no_types, lifting) length_map takeWhile_eq_all_conv)+
  next
    case False
    with Cons show ?thesis by (auto simp: upto_range_Cons)
  qed
qed simp

lemma range_contiguous:
  assumes "upto_range A B zs"
  shows "takeWhile (\<lambda>e. A e \<and> B e) (dropWhile (\<lambda>e. \<not> (A e \<and> B e)) zs) = filter (\<lambda>e. A e \<and> B e) zs"
  using assms
proof (induction zs)
  case (Cons z zs)
  have "takeWhile (\<lambda>e. A e \<and> B e) zs = filter (\<lambda>e. A e \<and> B e) zs" if "A z" "upto_range A B (z # zs)" for z zs
    using that
  proof (induction zs arbitrary: z)
    case (Cons y ys)
    then have y: "A y" "upto_range A B (y # ys)" by (auto simp: upto_range_Cons)
    have "filter (\<lambda>e. A e \<and> B e) ys = []" if "\<not> B y"
      using that y(2) by (auto simp: upto_range_Cons filter_empty_conv)
    with Cons.IH [OF y] y(1) show ?case by auto
  qed simp
  with Cons show ?case by (auto simp: upto_range_Cons)
qed simp

lemma drop_takeWhile_filter:
  assumes "upto_range A B zs" and "K = length (takeWhile (\<lambda>e. \<not> A e) zs)"
  shows "takeWhile B (drop K zs) = filter (\<lambda>e. A e \<and> B e) zs"
    "take K zs @ dropWhile B (drop K zs) = filter (\<lambda>e. \<not> (A e \<and> B e)) zs"
  using assms
proof (induction zs arbitrary: K)
  case (Cons z zs)
  have *: "takeWhile B zs = filter (\<lambda>e. A e \<and> B e) zs \<and> dropWhile B zs = filter (\<lambda>e. \<not> (A e \<and> B e)) zs"
    if "A z" "upto_range A B (z # zs)" for z zs
    using that
  proof (induction zs arbitrary: z)
    case (Cons y ys)
    then have y: "A y" "upto_range A B (y # ys)" by (auto simp: upto_range_Cons)
    have "filter (\<lambda>e. A e \<and> B e) ys = []" "filter (\<lambda>e. A e \<longrightarrow> \<not> B e) ys = ys" if "\<not> B y"
      using that y(2) by (auto simp: upto_range_Cons filter_empty_conv filter_id_conv)
    with Cons.IH [OF y] y(1) show ?case by auto
  qed simp
  { case 1
    with Cons.IH(1) [of "length (takeWhile (\<lambda>e. \<not> A e) zs)"] * [of z zs] show ?case
      by (cases "A z"; cases "B z") (auto simp: upto_range_Cons filter_empty_conv)
  next
    case 2
    with Cons.IH(2) [of "length (takeWhile (\<lambda>e. \<not> A e) zs)"] * [of z zs] show ?case
      by (cases "A z"; cases "B z") (auto simp: upto_range_Cons filter_id_conv) }
qed simp_all

lemma elt_Score: "elt a b \<Longrightarrow> Score a \<le> Score b"
  by (auto simp: elt_def before_def)

lemma elt_same: "elt a b \<Longrightarrow> Score a = Score b \<Longrightarrow> Member a < Member b"
  by (auto simp: elt_def before_def)

lemma border_mono:
  assumes "elt a b" and "isScore br \<or> Score a = Score b"
  shows "border_less br a \<longrightarrow> border_less br b" "border_greater br b \<longrightarrow> border_greater br a"
proof -
  note s = elt_Score [OF assms(1)] and m = elt_same [OF assms(1)]
  show "border_less br a \<longrightarrow> border_less br b"
    using s m assms(2) by (cases br) (auto simp: isScore_def)
  show "border_greater br b \<longrightarrow> border_greater br a"
    using s m assms(2) by (cases br) (auto simp: isScore_def)
qed

lemma borders_upto:
  assumes "sorted_wrt elt es" and "borders_ok mn mx es"
  shows "upto_range (border_less mn) (border_greater mx) es"
  unfolding upto_range_def
proof (rule sorted_wrt_mono_rel [OF _ assms(1)])
  fix a b assume ab: "a \<in> set es" "b \<in> set es" "elt a b"
  have "isScore mn \<or> Score a = Score b" "isScore mx \<or> Score a = Score b"
    using assms(2) ab by (auto simp: borders_ok_def same_score_def list_all_iff)
  with border_mono [OF ab(3)] show "(border_less mn a \<longrightarrow> border_less mn b) \<and> (border_greater mx b \<longrightarrow> border_greater mx a)"
    by blast
qed

subsection \<open>Ranges by border\<close>

lemma hasInRange_rep:
  assumes rep: "sl_rep sl es hs as" and b: "isIntersected mn mx = Some b"
  shows "hasInRange sl mn mx = Some (\<not> b \<and> es \<noteq> [] \<and> border_less mn (last es) \<and> border_greater mx (hd es))"
proof (cases "es = []")
  case True
  with rep sl_rep_lengths [OF rep] b show ?thesis by (auto simp: hasInRange_def sl_rep_def)
next
  case False
  have len: "length as = length es" using sl_rep_lengths [OF rep] by simp
  have "sl_tail sl = Some (as ! (length es - 1))" using rep False len by (auto simp: sl_rep_def last_conv_nth)
  moreover have "forward sl 0 0 = Some (Some (as ! 0))" using forward_0 [OF rep, of 0] False by simp
  ultimately show ?thesis
    using node_at [OF rep, of "length es - 1"] node_at [OF rep, of 0] b False
    by (simp add: hasInRange_def last_conv_nth hd_conv_nth)
qed

lemma getFirstInRange_rep:
  assumes rep: "sl_rep sl es hs as" and ok: "borders_ok mn mx es" and b: "isIntersected mn mx = Some b"
  shows "getFirstInRange sl mn mx =
    Some (if b then None else at as False (length (takeWhile (\<lambda>e. \<not> inRange mn mx e) es)))"
proof -
  define K where "K = length (takeWhile (\<lambda>e. \<not> border_less mn e) es)"
  have up: "upto_range (border_less mn) (border_greater mx) es" by (rule borders_upto [OF sl_rep_sorted [OF rep] ok])
  have len: "length as = length es" using sl_rep_lengths [OF rep] by simp
  have K: "K \<le> length es" by (simp add: K_def length_takeWhile_le)
  have d: "descend sl (\<lambda>r s e. \<not> border_less mn e) (sl_level sl) 0 0 [] [] = Some (As as ! K, int K,
    map (\<lambda>i. As as ! lst (Hs hs) i K) [0..<sl_level sl], map (\<lambda>i. int (lst (Hs hs) i K)) [0..<sl_level sl])"
    unfolding K_def by (rule descend_top [OF rep cuts_pred [OF upto_range_A [OF up]]])
  have f: "length (takeWhile (\<lambda>e. \<not> inRange mn mx e) es) = (if K < length es \<and> border_greater mx (es ! K) then K else length es)"
    unfolding inRange_def by (rule first_in_range [OF up K_def])
  show ?thesis
  proof (cases "es \<noteq> [] \<and> border_less mn (last es) \<and> border_greater mx (hd es)")
    case True
    then have l: "length es - 1 < length es" by simp
    have "\<not> length es - 1 < K"
      using takeWhile_nth_iff [OF upto_range_A [OF up] l] True by (auto simp: K_def last_conv_nth)
    then have "K < length es" using l by linarith
    with True d forward_0 [OF rep K] node_at [OF rep, of K] hasInRange_rep [OF rep b] len f show ?thesis
      by (auto simp: getFirstInRange_def at_def dir_def)
  next
    case False
    have "\<not> (K < length es \<and> border_greater mx (es ! K))"
    proof
      assume a: "K < length es \<and> border_greater mx (es ! K)"
      then have ne: "es \<noteq> []" by auto
      have "K < length (takeWhile (border_greater mx) es)"
        using takeWhile_nth_iff [OF upto_range_B [OF up], of K] a by simp
      then have "border_greater mx (hd es)"
        using takeWhile_nth_iff [OF upto_range_B [OF up], of 0] ne by (auto simp: hd_conv_nth)
      moreover have "border_less mn (last es)"
        using takeWhile_nth_iff [OF upto_range_A [OF up], of "length es - 1"] a ne
        by (auto simp: K_def [symmetric] last_conv_nth)
      ultimately show False using False ne by blast
    qed
    with f hasInRange_rep [OF rep b] False len show ?thesis
      by (auto simp: getFirstInRange_def at_def)
  qed
qed

lemma getLastInRange_rep:
  assumes rep: "sl_rep sl es hs as" and ok: "borders_ok mn mx es" and b: "isIntersected mn mx = Some b"
  shows "getLastInRange sl mn mx =
    Some (if b then None else at as True (length (takeWhile (\<lambda>e. \<not> inRange mn mx e) (rev es))))"
proof -
  define K where "K = length (takeWhile (border_greater mx) es)"
  define J where "J = length (takeWhile (\<lambda>e. \<not> border_greater mx e) (rev es))"
  have up: "upto_range (border_less mn) (border_greater mx) es" by (rule borders_upto [OF sl_rep_sorted [OF rep] ok])
  then have ur: "upto_range (border_greater mx) (border_less mn) (rev es)" by (simp add: upto_range_rev)
  have len: "length as = length es" using sl_rep_lengths [OF rep] by simp
  have K: "K \<le> length es" by (simp add: K_def length_takeWhile_le)
  note nth = takeWhile_nth_iff [OF upto_range_B [OF up], folded K_def]
  have J: "J = length es - K"
  proof -
    have "\<not> border_greater mx (rev es ! i) \<longleftrightarrow> i < length es - K" if "i < length es" for i
      using nth [of "length es - Suc i"] that by (auto simp: rev_nth)
    with takeWhile_nth_iff [OF upto_range_A [OF ur], folded J_def]
    have *: "i < J \<longleftrightarrow> i < length es - K" if "i < length es" for i using that by simp
    have "J \<le> length es" using length_takeWhile_le [of "\<lambda>e. \<not> border_greater mx e" "rev es"] by (simp add: J_def)
    with * [of J] * [of "length es - K"] show ?thesis by linarith
  qed
  have d: "descend sl (\<lambda>r s e. border_greater mx e) (sl_level sl) 0 0 [] [] = Some (As as ! K, int K,
    map (\<lambda>i. As as ! lst (Hs hs) i K) [0..<sl_level sl], map (\<lambda>i. int (lst (Hs hs) i K)) [0..<sl_level sl])"
    unfolding K_def by (rule descend_top [OF rep cuts_pred [OF upto_range_B [OF up]]])
  have "length (takeWhile (\<lambda>e. \<not> (border_greater mx e \<and> border_less mn e)) (rev es)) =
      (if J < length (rev es) \<and> border_less mn (rev es ! J) then J else length (rev es))"
    by (rule first_in_range [OF ur J_def])
  then have f: "length (takeWhile (\<lambda>e. \<not> inRange mn mx e) (rev es)) =
      (if 0 < K \<and> border_less mn (es ! (K - 1)) then length es - K else length es)"
    using J K by (auto simp: inRange_def rev_nth conj_commute)
  show ?thesis
  proof (cases "es \<noteq> [] \<and> border_less mn (last es) \<and> border_greater mx (hd es)")
    case True
    then have "0 < K" using nth [of 0] by (auto simp: hd_conv_nth)
    with True d node_at [OF rep, of "K - 1"] hasInRange_rep [OF rep b] len f K show ?thesis
      by (cases K) (auto simp: getLastInRange_def at_def dir_def rev_nth)
  next
    case False
    have "\<not> (0 < K \<and> border_less mn (es ! (K - 1)))"
    proof
      assume a: "0 < K \<and> border_less mn (es ! (K - 1))"
      then have ne: "es \<noteq> []" "K - 1 < length es" using K by auto
      have "border_greater mx (hd es)" using nth [of 0] a ne by (simp add: hd_conv_nth)
      moreover have "\<not> K - 1 < length (takeWhile (\<lambda>e. \<not> border_less mn e) es)"
        using takeWhile_nth_iff [OF upto_range_A [OF up] ne(2)] a by auto
      then have "border_less mn (last es)"
        using takeWhile_nth_iff [OF upto_range_A [OF up], of "length es - 1"] K ne by (auto simp: last_conv_nth)
      ultimately show False using False ne by blast
    qed
    with f hasInRange_rep [OF rep b] False len show ?thesis
      by (auto simp: getLastInRange_def at_def)
  qed
qed

lemma skip_offset_rep:
  assumes "sl_rep sl es hs as"
  shows "skip_offset sl desc n (at as desc k) = Some (at as desc (k + n))"
proof (induction n arbitrary: k)
  case (Suc n)
  show ?case
  proof (cases "k < length es")
    case True
    with at_node [OF assms True, of desc] Suc.IH [of "Suc k"] show ?thesis by auto
  next
    case False
    then show ?thesis using sl_rep_lengths [OF assms] by (simp add: at_def)
  qed
qed simp

lemma forEachRange_loop_rep:
  assumes "sl_rep sl es hs as" and "limit < 0 \<or> i \<le> limit"
  shows "forEachRange_loop sl mn mx limit desc f i (at as desc k) s =
    Some (consume f (limited (if limit < 0 then - 1 else limit - i) (from_first (inRange mn mx) (drop k (dir desc es)))) s)"
  using assms(2)
proof (induction "length es - k" arbitrary: k i s)
  case 0
  then have "at as desc k = None" "drop k (dir desc es) = []" using sl_rep_lengths [OF assms(1)] by (auto simp: at_def)
  then show ?case by (subst forEachRange_loop.simps) (simp add: from_first_def limited_def)
next
  case (Suc d)
  then have k: "k < length es" by simp
  obtain x nd where x: "at as desc k = Some x" "sl_nodes sl x = Some nd" "zn_elem nd = dir desc es ! k"
    "neighbour sl desc x = Some (at as desc (Suc k))" using at_node [OF assms(1) k] by blast
  have dr: "drop k (dir desc es) = dir desc es ! k # drop (Suc k) (dir desc es)" using k by (simp add: Cons_nth_drop_Suc)
  let ?l = "if limit < 0 then - 1 else limit - i"
  show ?case
  proof (cases "i < limit \<or> limit < 0")
    case True
    then have l: "limited ?l (y # ys) = y # limited (if limit < 0 then - 1 else limit - (i + 1)) ys" for y and ys :: "'a Element list"
      by (auto simp: limited_def take_Cons' intro!: arg_cong [where f = "\<lambda>n. take n ys"])
    show ?thesis
    proof (cases "Suc k < length es")
      case last: False
      then have "at as desc (Suc k) = None" "drop (Suc k) (dir desc es) = []"
        using sl_rep_lengths [OF assms(1)] by (auto simp: at_def)
      with x dr True l show ?thesis
        by (subst forEachRange_loop.simps) (simp add: from_first_def limited_def split: prod.split)
    next
      case more: True
      obtain y ny where y: "at as desc (Suc k) = Some y" "sl_nodes sl y = Some ny" "zn_elem ny = dir desc es ! Suc k"
        using at_node [OF assms(1) more] by blast
      have dr': "drop (Suc k) (dir desc es) = dir desc es ! Suc k # drop (Suc (Suc k)) (dir desc es)"
        using more by (simp add: Cons_nth_drop_Suc)
      have IH: "forEachRange_loop sl mn mx limit desc f (i + 1) (Some y) s' =
          Some (consume f (limited (if limit < 0 then - 1 else limit - (i + 1)) (from_first (inRange mn mx) (drop (Suc k) (dir desc es)))) s')" for s'
        using Suc.hyps(1) [of "Suc k" "i + 1" s'] Suc.hyps(2) True y(1) by auto
      show ?thesis
        using x y dr dr' l IH True
        by (subst forEachRange_loop.simps) (auto simp: from_first_def inRange_def limited_def split: prod.split)
    qed
  next
    case False
    with Suc.prems show ?thesis by (subst forEachRange_loop.simps) (auto simp: limited_def)
  qed
qed

lemma SS_ForEach_rep:
  assumes r: "SS_rep ss es" and ok: "borders_ok mn mx es"
  shows "SS_ForEach ss mn mx offset limit desc f s = Some (consume f (range_elems mn mx offset limit desc es) s)"
proof -
  obtain hs as where rep: "sl_rep (ss_list ss) es hs as" using r by (auto simp: SS_rep_def)
  have "isScore mn = isScore mx" using ok by (simp add: borders_ok_def)
  then obtain b where b: "isIntersected mn mx = Some b" by (cases mn; cases mx) (auto simp: isScore_def)
  let ?k = "length (takeWhile (\<lambda>e. \<not> inRange mn mx e) (dir desc es))"
  have node: "(if desc then getLastInRange (ss_list ss) mn mx else getFirstInRange (ss_list ss) mn mx) =
      Some (if b then None else at as desc ?k)"
    using getFirstInRange_rep [OF rep ok b] getLastInRange_rep [OF rep ok b] by (simp add: dir_def)
  show ?thesis
  proof (cases b)
    case True
    have "skip_offset (ss_list ss) desc (nat offset) None = Some None" by (cases "nat offset") auto
    moreover have "forEachRange_loop (ss_list ss) mn mx limit desc f 0 None s = Some s"
      by (subst forEachRange_loop.simps) simp
    ultimately show ?thesis using node True b by (simp add: SS_ForEach_def range_elems_def)
  next
    case False
    have "drop (?k + nat offset) (dir desc es) = drop (nat offset) (dropWhile (\<lambda>e. \<not> inRange mn mx e) (dir desc es))"
      by (simp add: dropWhile_eq_drop add.commute)
    moreover have "limited (if limit < 0 then - 1 else limit - 0) xs = limited limit xs" for xs :: "'a Element list"
      by (simp add: limited_def)
    moreover have "limit < 0 \<or> 0 \<le> limit" by linarith
    ultimately show ?thesis
      using node False b skip_offset_rep [OF rep, of desc "nat offset" ?k]
        forEachRange_loop_rep [OF rep, of limit 0 mn mx desc f "?k + nat offset" s]
      by (simp add: SS_ForEach_def range_elems_def)
  qed
qed

lemma consume_append: "consume (\<lambda>slic e. (True, slic @ [e])) xs acc = acc @ xs"
  by (induction xs arbitrary: acc) auto

lemma SS_Range_rep:
  assumes "SS_rep ss es" and "borders_ok mn mx es"
  shows "SS_Range ss mn mx offset limit desc = Some (if offset < 0 then [] else range_elems mn mx offset limit desc es)"
  by (auto simp: SS_Range_def SS_ForEach_rep [OF assms] consume_append) (simp add: range_elems_def limited_def)

lemma consume_count:
  "upto_range A B xs \<Longrightarrow> consume (\<lambda>i e. if \<not> A e then (True, i) else if \<not> B e then (False, i) else (True, i + 1)) xs n =
     n + int (length (filter (\<lambda>e. A e \<and> B e) xs))"
proof (induction xs arbitrary: n)
  case (Cons x xs)
  have "filter (\<lambda>e. A e \<and> B e) xs = []" if "\<not> B x"
    using that Cons.prems by (auto simp: upto_range_Cons filter_empty_conv)
  with Cons show ?case by (auto simp: upto_range_Cons)
qed simp

lemma SS_RangeCount_rep:
  assumes r: "SS_rep ss es" and "es \<noteq> []" and ok: "borders_ok mn mx es"
  shows "SS_RangeCount ss mn mx = Some (int (length (filter (inRange mn mx) es)))"
proof -
  have L: "SS_Len ss = int (length es)" using SS_rep_length [OF r] by (simp add: SS_Len_def)
  have "upto_range (border_less mn) (border_greater mx) es" by (rule borders_upto [OF SS_rep_sorted [OF r] ok])
  from consume_count [OF this, of 0] show ?thesis
    using L assms(2) by (simp add: SS_RangeCount_def ForEachByRank_rep [OF r] dir_def inRange_def [abs_def])
qed

lemma SS_RangeCount_empty: "SS_rep ss [] \<Longrightarrow> SS_RangeCount ss mn mx = None"
  using SS_rep_length [of ss "[]"] by (simp add: SS_RangeCount_def SS_ForEachByRank_def SS_Len_def Let_def)

subsection \<open>Removals\<close>

lemma del_members_map: "map_of (foldl (\<lambda>d e. map_del (Member e) d) d rm) m =
    (if m \<in> Member ` set rm then None else map_of d m)"
  by (induction rm arbitrary: d) auto

lemma del_members_ok: "map_ok d \<Longrightarrow> map_ok (foldl (\<lambda>d e. map_del (Member e) d) d rm)"
  by (induction rm arbitrary: d) auto

lemma del_members_rep:
  assumes r: "SS_rep ss es" and sl: "sl_rep sl es' hs as" and "set es' = set es - set rm" and "set rm \<subseteq> set es"
  shows "SS_rep (del_members ss sl rm) es'"
proof -
  have "map_of (ss_dict (del_members ss sl rm)) m = Some e \<longleftrightarrow> e \<in> set es' \<and> Member e = m" for m e
  proof -
    have "e' = e" if "e \<in> set es" "Member e = m" "e' \<in> set rm" "Member e' = m" for e'
      using SS_rep_dict [OF r, of m e'] SS_rep_dict [OF r, of m e] that assms(4) by auto
    then have "m \<in> Member ` set rm \<longleftrightarrow> e \<in> set rm" if "e \<in> set es" "Member e = m"
      using that by blast
    with assms(3) SS_rep_dict [OF r, of m e] show ?thesis by (auto simp: del_members_def del_members_map)
  qed
  with r sl show ?thesis by (auto simp: SS_rep_def del_members_def del_members_ok)
qed

lemma set_take_cut:
  assumes "distinct xs"
  shows "set (take a xs @ drop (a + b) xs) = set xs - set (take b (drop a xs))"
proof -
  have "xs = take a xs @ take b (drop a xs) @ drop (a + b) xs"
    by (metis add.commute append_take_drop_id drop_drop)
  with assms have "distinct (take a xs @ take b (drop a xs) @ drop (a + b) xs)" by metis
  moreover have "set xs = set (take a xs @ take b (drop a xs) @ drop (a + b) xs)"
    using \<open>xs = take a xs @ take b (drop a xs) @ drop (a + b) xs\<close> by (rule arg_cong)
  ultimately show ?thesis by auto
qed

lemma removed_rep:
  assumes r: "SS_rep ss es" and sl: "sl_rep sl (take a es @ drop (a + b) es) hs as"
  shows "SS_rep (del_members ss sl (take b (drop a es))) (take a es @ drop (a + b) es)"
  using set_take_cut [of es a b] sorted_elt_distinct [OF SS_rep_sorted [OF r]]
  by (intro del_members_rep [OF r sl]) (auto dest: in_set_takeD in_set_dropD)

lemma sl_RemoveRange_rep:
  assumes rep: "sl_rep sl es hs as" and up: "sorted_wrt (\<lambda>a b. \<not> border_less mn b \<longrightarrow> \<not> border_less mn a) es"
    and K: "K = length (takeWhile (\<lambda>e. \<not> border_less mn e) es)" and n: "n = run_length mx limit (drop K es)"
  shows "\<exists>sl' hs' as'. sl_RemoveRange sl mn mx limit = Some (sl', take n (drop K es)) \<and>
    sl_rep sl' (take K es @ drop (K + n) es) hs' as'"
proof -
  have le: "K \<le> length es" by (simp add: K length_takeWhile_le)
  have d: "descend sl (\<lambda>r s e. \<not> border_less mn e) (sl_level sl) 0 0 [] [] = Some (As as ! K, int K,
    map (\<lambda>i. As as ! lst (Hs hs) i K) [0..<sl_level sl], map (\<lambda>i. int (lst (Hs hs) i K)) [0..<sl_level sl])"
    unfolding K by (rule descend_top [OF rep cuts_pred [OF up]])
  have "n = run_length mx (if limit > 0 then limit - int (length ([] :: 'a Element list)) else 0) (drop K es)"
    unfolding n by (simp add: run_length_def)
  moreover have "limit \<le> 0 \<or> int (length ([] :: 'a Element list)) < limit" by auto
  moreover note removeRange_loop_rep [OF rep le upd_ok_descend [OF rep le] refl, of limit "[]" n mx]
  ultimately
  show ?thesis using d forward_0 [OF rep le] by (auto simp: sl_RemoveRange_def)
qed

lemma SS_RemoveRange_rep:
  assumes r: "SS_rep ss es" and ok: "borders_ok mn mx es"
  shows "\<exists>ss'. SS_RemoveRange ss mn mx = Some (ss', int (length (filter (inRange mn mx) es))) \<and>
    SS_rep ss' (filter (\<lambda>e. \<not> inRange mn mx e) es)"
proof -
  obtain hs as where rep: "sl_rep (ss_list ss) es hs as" using r by (auto simp: SS_rep_def)
  define K where "K = length (takeWhile (\<lambda>e. \<not> border_less mn e) es)"
  define n where "n = run_length mx 0 (drop K es)"
  have up: "upto_range (border_less mn) (border_greater mx) es" by (rule borders_upto [OF SS_rep_sorted [OF r] ok])
  note f = drop_takeWhile_filter [OF up K_def]
  have nn: "n = length (takeWhile (border_greater mx) (drop K es))" by (simp add: n_def run_length_def)
  have n: "take n (drop K es) = filter (inRange mn mx) es" "take K es @ drop (K + n) es = filter (\<lambda>e. \<not> inRange mn mx e) es"
    unfolding inRange_def [abs_def] f [symmetric] unfolding nn
    by (simp_all only: takeWhile_eq_take [symmetric] dropWhile_eq_drop add.commute [of K] drop_drop [symmetric])
  obtain sl' hs' as' where s: "sl_RemoveRange (ss_list ss) mn mx 0 = Some (sl', take n (drop K es))"
    "sl_rep sl' (take K es @ drop (K + n) es) hs' as'"
    using sl_RemoveRange_rep [OF rep upto_range_A [OF up] K_def n_def] by blast
  with removed_rep [OF r s(2)] show ?thesis unfolding n by (simp add: SS_RemoveRange_def)
qed

lemma SS_RemoveByRank_rep:
  assumes r: "SS_rep ss es" and ab: "a = nat start" "b = nat (stop - max 0 start)"
  shows "\<exists>ss'. SS_RemoveByRank ss start stop = Some (ss', int (length (take b (drop a es)))) \<and>
    SS_rep ss' (take a es @ drop (a + b) es)"
proof -
  obtain hs as where rep: "sl_rep (ss_list ss) es hs as" using r by (auto simp: SS_rep_def)
  define K where "K = min a (length es)"
  have le: "K \<le> length es" by (simp add: K_def)
  have "cuts (\<lambda>r s e. r + s < start + 1) es K" using ab(1) by (auto simp: cuts_def K_def)
  note d = descend_top [OF rep this]
  define n where "n = min (nat (stop + 1 - (int K + 1))) (length es - K)"
  obtain sl' hs' as' where s: "sl_RemoveRangeByRank (ss_list ss) (start + 1) (stop + 1) = Some (sl', take n (drop K es))"
    "sl_rep sl' (take K es @ drop (K + n) es) hs' as'"
    using removeByRank_loop_rep [OF rep le upd_ok_descend [OF rep le] refl n_def, of "[]"] d forward_0 [OF rep le]
    by (auto simp: sl_RemoveRangeByRank_def)
  have n: "take n (drop K es) = take b (drop a es)" "take K es @ drop (K + n) es = take a es @ drop (a + b) es"
  proof (atomize (full), cases "a \<le> length es")
    case True
    then have "n = min b (length es - a)" "K = a" using ab by (auto simp: n_def K_def max_def)
    then show "take n (drop K es) = take b (drop a es) \<and> take K es @ drop (K + n) es = take a es @ drop (a + b) es"
      by (auto simp: min_def)
  qed (simp add: K_def)
  from s removed_rep [OF r s(2)] show ?thesis unfolding n by (simp add: SS_RemoveByRank_def)
qed

lemma SS_PopMin_rep:
  assumes r: "SS_rep ss es" and k: "k = (if cnt > 0 then nat cnt else length es)"
  shows "\<exists>ss'. SS_PopMin ss cnt = Some (ss', take k es) \<and> SS_rep ss' (drop k es)"
proof -
  obtain hs as where rep: "sl_rep (ss_list ss) es hs as" using r by (auto simp: SS_rep_def)
  have ok: "borders_ok scoreNegativeInfBorder scorePositiveInfBorder es"
    by (simp add: borders_ok_def isScore_def scoreNegativeInfBorder_def scorePositiveInfBorder_def)
  have "inRange scoreNegativeInfBorder scorePositiveInfBorder e" for e :: "'a Element"
    by (simp add: inRange_def scoreNegativeInfBorder_def scorePositiveInfBorder_def)
  then have first: "getFirstInRange (ss_list ss) scoreNegativeInfBorder scorePositiveInfBorder = Some (at as False 0)"
    using getFirstInRange_rep [OF rep ok, of False]
    by (cases es) (simp_all add: scoreNegativeInfBorder_def scorePositiveInfBorder_def)
  show ?thesis
  proof (cases "es = []")
    case True
    with first r sl_rep_lengths [OF rep] show ?thesis by (simp add: SS_PopMin_def at_def)
  next
    case False
    let ?mn = "ScoreBorder 0 (Score (es ! 0)) False"
    have "border_less ?mn e" if "e \<in> set es" for e
      using that SS_rep_sorted [OF r] False by (cases es) (auto dest: elt_Score)
    then have less: "takeWhile (\<lambda>e. \<not> border_less ?mn e) es = []" using False by (cases es) auto
    have up: "sorted_wrt (\<lambda>a b. \<not> border_less ?mn b \<longrightarrow> \<not> border_less ?mn a) es"
      by (rule upto_range_A [OF borders_upto [OF SS_rep_sorted [OF r], of ?mn ?mn]]) (simp add: borders_ok_def isScore_def)
    have n: "run_length scorePositiveInfBorder cnt es = min k (length es)"
      using k by (simp add: run_length_def scorePositiveInfBorder_def takeWhile_eq_all_conv [THEN iffD2] min.commute)
    obtain sl' hs' as' where s: "sl_RemoveRange (ss_list ss) ?mn scorePositiveInfBorder cnt = Some (sl', take (min k (length es)) (drop 0 es))"
      "sl_rep sl' (take 0 es @ drop (0 + min k (length es)) es) hs' as'"
      using sl_RemoveRange_rep [OF rep up, of 0 _ scorePositiveInfBorder cnt] less n by auto
    have t: "take (min k (length es)) (drop 0 es) = take k es" "take 0 es @ drop (0 + min k (length es)) es = drop k es"
      by (simp_all add: min_def)
    have "at as False 0 = Some (as ! 0)" using False sl_rep_lengths [OF rep] by (simp add: at_def dir_def)
    with first s node_at [OF rep, of 0] False removed_rep [OF r s(2)] show ?thesis
      unfolding t by (simp add: SS_PopMin_def)
  qed
qed

subsection \<open>Ranges with an offset\<close>

lemma dir_range:
  assumes "SS_rep ss es" and "borders_ok mn mx es"
  shows "takeWhile (inRange mn mx) (dropWhile (\<lambda>e. \<not> inRange mn mx e) (dir desc es)) = filter (inRange mn mx) (dir desc es)"
proof -
  have "upto_range (border_less mn) (border_greater mx) es" by (rule borders_upto [OF SS_rep_sorted [OF assms(1)] assms(2)])
  then consider "upto_range (border_less mn) (border_greater mx) (dir desc es)"
    | "upto_range (border_greater mx) (border_less mn) (dir desc es)"
    by (cases desc) (simp_all add: dir_def upto_range_rev)
  then show ?thesis
  proof cases
    case 1
    then show ?thesis unfolding inRange_def [abs_def] by (rule range_contiguous)
  next
    case 2
    then show ?thesis using range_contiguous [OF 2] unfolding inRange_def [abs_def] by (simp add: conj_commute)
  qed
qed

lemma from_first_offset:
  assumes f: "takeWhile P (dropWhile (\<lambda>e. \<not> P e) zs) = filter P zs" and n: "n < length (filter P zs) \<or> filter P zs = []"
  shows "from_first P (drop n (dropWhile (\<lambda>e. \<not> P e) zs)) = drop n (filter P zs)"
proof (cases "filter P zs = []")
  case True
  then have e: "dropWhile (\<lambda>e. \<not> P e) zs = []" by (auto simp: filter_empty_conv)
  show ?thesis unfolding e True by (simp add: from_first_def)
next
  case False
  let ?ds = "dropWhile (\<lambda>e. \<not> P e) zs"
  from False n have n: "n < length (filter P zs)" by simp
  have split: "?ds = filter P zs @ dropWhile P ?ds" by (metis f takeWhile_dropWhile_id)
  have "drop n ?ds = drop n (filter P zs) @ dropWhile P ?ds" using n by (subst split) simp
  moreover obtain y ys where y: "drop n (filter P zs) = y # ys" using n by (cases "drop n (filter P zs)") auto
  moreover have "\<forall>e \<in> set ys. P e"
    using y set_drop_subset [of n "filter P zs"] by (auto simp: subset_iff)
  moreover have "takeWhile P (dropWhile P ?ds) = []" by (metis hd_dropWhile takeWhile_eq_Nil_iff)
  ultimately show ?thesis by (simp add: from_first_def takeWhile_append2)
qed

subsection \<open>Lookups and ranks\<close>

lemma index_of_nth:
  assumes "distinct (map Member es)" and "k < length es"
  shows "index_of (Member (es ! k)) es = k"
  using assms
proof (induction es arbitrary: k)
  case (Cons e es)
  show ?case
  proof (cases k)
    case 0
    then show ?thesis by (simp add: index_of_def)
  next
    case (Suc j)
    with Cons have "Member e \<noteq> Member (es ! j)" "index_of (Member (es ! j)) es = j" by auto
    with Suc show ?thesis by (simp add: index_of_def)
  qed
qed simp

lemma SS_Get_rep:
  assumes r: "SS_rep ss es"
  shows "SS_Get ss m = List.find (\<lambda>e. Member e = m) es"
proof (cases "List.find (\<lambda>e. Member e = m) es")
  case None
  then have "m \<notin> Member ` set es" by (auto simp: find_None_iff)
  with None SS_rep_dict_None [OF r, of m] show ?thesis by (simp add: SS_Get_def)
next
  case (Some e)
  then have "e \<in> set es" "Member e = m" by (auto simp: find_Some_iff)
  with Some SS_rep_dict [OF r, of m e] show ?thesis by (simp add: SS_Get_def)
qed

lemma SS_GetRank_rep:
  assumes r: "SS_rep ss es" and ne: "[] \<notin> Member ` set es"
  shows "SS_GetRank ss m desc = Some (if m \<in> Member ` set es then int (index_of m (dir desc es)) else - 1)"
proof (cases "m \<in> Member ` set es")
  case False
  then show ?thesis using SS_rep_dict_None [OF r, of m] by (simp add: SS_GetRank_def)
next
  case True
  then obtain k where k: "k < length es" "Member (es ! k) = m" by (auto simp: in_set_conv_nth)
  obtain hs as where rep: "sl_rep (ss_list ss) es hs as" using r by (auto simp: SS_rep_def)
  note dist = SS_rep_members [OF r]
  have e: "map_of (ss_dict ss) m = Some (es ! k)" using SS_rep_dict [OF r] k by simp
  have "getRank (ss_list ss) m (Score (es ! k)) = Some (int (Suc k))"
    using k ne True by (intro getRank_rep [OF rep k(1) _ dist]) auto
  moreover have "index_of m es = k" using index_of_nth [OF dist k(1)] k(2) by simp
  moreover have "index_of m (rev es) = length es - Suc k"
    using index_of_nth [of "rev es" "length es - Suc k"] dist k by (simp add: rev_nth distinct_rev flip: rev_map)
  moreover have "sl_length (ss_list ss) = int (length es)" using rep by (simp add: sl_rep_def)
  ultimately show ?thesis using True e k(1) by (auto simp: SS_GetRank_def dir_def)
qed

subsection \<open>Every method answers as the list does\<close>

definition SS_holds :: "('f :: linorder) SortedSet \<Rightarrow> 'f Element list \<Rightarrow> bool" where
  "SS_holds ss es \<longleftrightarrow> SS_rep ss es \<and> [] \<notin> Member ` set es"

lemma SS_Make_holds: "SS_holds (SS_Make :: ('f :: {linorder, zero}) SortedSet) []"
  using makeSkiplist_rep by (auto simp: SS_holds_def SS_rep_def SS_Make_def)

lemma zset_spec_members: "zset_ok es c \<Longrightarrow> [] \<notin> Member ` set es \<Longrightarrow> [] \<notin> Member ` set (fst (zset_spec es c))"
  by (cases c) (auto simp: Let_def dest: in_set_takeD in_set_dropD)

lemma SS_exec_holds:
  assumes "SS_holds ss es" and ok: "zset_ok es c"
  shows "\<exists>ss'. SS_exec ss c = Some (ss', snd (zset_spec es c)) \<and> SS_holds ss' (fst (zset_spec es c))"
proof -
  have r: "SS_rep ss es" and ne: "[] \<notin> Member ` set es" using assms(1) by (simp_all add: SS_holds_def)
  have "\<exists>ss'. SS_exec ss c = Some (ss', snd (zset_spec es c)) \<and> SS_rep ss' (fst (zset_spec es c))"
  proof (cases c)
    case (ZAdd rnd m sc)
    with SS_Add_rep [OF r, of rnd m sc] show ?thesis by auto
  next
    case (ZGet m)
    with SS_Get_rep [OF r] r show ?thesis by simp
  next
    case ZLen
    with SS_rep_length [OF r] r show ?thesis by (simp add: SS_Len_def)
  next
    case (ZRemove m)
    with SS_Remove_rep [OF r, of m] show ?thesis by auto
  next
    case (ZRank m desc)
    with SS_GetRank_rep [OF r ne] r show ?thesis by simp
  next
    case (ZRangeByRank start stop desc)
    with SS_RangeByRank_rep [OF r] ok r show ?thesis by simp
  next
    case (ZCount mn mx)
    with SS_RangeCount_rep [OF r] ok r show ?thesis by simp
  next
    case (ZRange mn mx offset limit desc)
    with SS_Range_rep [OF r] ok r show ?thesis by simp
  next
    case (ZRemoveRange mn mx)
    with SS_RemoveRange_rep [OF r, of mn mx] ok show ?thesis by auto
  next
    case (ZPopMin n)
    with SS_PopMin_rep [OF r refl, of n] show ?thesis by (auto simp: Let_def)
  next
    case (ZRemoveByRank start stop)
    with SS_RemoveByRank_rep [OF r refl refl, of start stop] show ?thesis by (auto simp: Let_def)
  qed
  with zset_spec_members [OF ok ne] show ?thesis by (auto simp: SS_holds_def)
qed

lemma SS_run_holds:
  "SS_holds ss es \<Longrightarrow> zset_run_ok es cs \<Longrightarrow> SS_run ss cs = Some (zset_run es cs)"
proof (induction cs arbitrary: ss es)
  case (Cons c cs)
  obtain ss' where "SS_exec ss c = Some (ss', snd (zset_spec es c))" "SS_holds ss' (fst (zset_spec es c))"
    using SS_exec_holds [OF Cons.prems(1), of c] Cons.prems(2) by auto
  with Cons.IH [of ss' "fst (zset_spec es c)"] Cons.prems(2) show ?case by (auto split: prod.split)
qed simp



text \<open>
  C21: a range query by finite score borders returns the elements within the borders, in the
  requested direction, from the offset and up to the limit, as long as the offset lies within the
  range or the range is empty.
\<close>

theorem SS_Range_filter:
  assumes "SS_holds ss es" and "fs = filter (inRange (ScoreBorder 0 a x) (ScoreBorder 0 b y)) (dir desc es)"
    and "0 \<le> offset" "offset < int (length fs) \<or> fs = []"
  shows "SS_Range ss (ScoreBorder 0 a x) (ScoreBorder 0 b y) offset limit desc = Some (limited limit (drop (nat offset) fs))"
proof -
  let ?mn = "ScoreBorder 0 a x" and ?mx = "ScoreBorder 0 b y"
  have r: "SS_rep ss es" using assms(1) by (simp add: SS_holds_def)
  have ok: "borders_ok ?mn ?mx es" by (simp add: borders_ok_def isScore_def)
  have "nat offset < length fs \<or> fs = []" using assms(3,4) by linarith
  then have "from_first (inRange ?mn ?mx) (drop (nat offset) (dropWhile (\<lambda>e. \<not> inRange ?mn ?mx e) (dir desc es))) =
      drop (nat offset) fs"
    unfolding assms(2) by (rule from_first_offset [OF dir_range [OF r ok]])
  moreover have "fs = []" if "isIntersected ?mn ?mx = Some True"
    using that unfolding assms(2) by (auto simp: inRange_def filter_empty_conv split: if_splits)
  ultimately show ?thesis
    using SS_Range_rep [OF r ok, of offset limit desc] assms(3) by (auto simp: range_elems_def limited_def)
qed

theorem SS_Range_filter_witness:
  "\<exists>ss. SS_exec SS_Make (ZAdd 1 ''a'' (3::int)) = Some (ss, ZBool True) \<and>
     SS_Range ss (ScoreBorder 0 1 False) (ScoreBorder 0 3 False) 0 (- 1) True = Some [\<lparr>Member = ''a'', Score = 3\<rparr>]"
proof -
  obtain ss where s: "SS_exec SS_Make (ZAdd 1 ''a'' (3::int)) = Some (ss, ZBool True)"
    "SS_holds ss [\<lparr>Member = ''a'', Score = 3\<rparr>]"
    using SS_exec_holds [OF SS_Make_holds, of "ZAdd 1 ''a'' (3::int)"]
    by (auto simp: without_def place_def pos_def ins_def)
  with SS_Range_filter [OF s(2) refl, where a = 1 and x = False and b = 3 and y = False and desc = True and offset = 0 and limit = "- 1"] show ?thesis
    by (auto simp: dir_def inRange_def limited_def)
qed

text \<open>
  C35: the offset of a range query is applied without looking at the upper border. When as many
  elements are skipped as the range holds, the first element of the answer lies outside the range.
\<close>

theorem SS_Range_offset_escapes:
  assumes "SS_holds ss es" and "borders_ok mn mx es" and "isIntersected mn mx = Some False"
    and "dir desc es = xs @ ys @ e # zs" and "list_all (\<lambda>e. \<not> inRange mn mx e) xs" and "ys \<noteq> []"
    and "list_all (inRange mn mx) ys" and "\<not> inRange mn mx e" and "limit \<noteq> 0"
  shows "\<exists>r. SS_Range ss mn mx (int (length ys)) limit desc = Some (e # r)"
proof -
  have "dropWhile (\<lambda>e. \<not> inRange mn mx e) (dir desc es) = ys @ e # zs"
    using assms(4-7) by (cases ys) (auto simp: list_all_iff dropWhile_append3)
  then have "range_elems mn mx (int (length ys)) limit desc es = limited limit (e # takeWhile (inRange mn mx) zs)"
    using assms(3) by (simp add: range_elems_def from_first_def)
  moreover have "\<exists>r. limited limit (e # takeWhile (inRange mn mx) zs) = e # r"
    using assms(9) by (auto simp: limited_def take_Cons')
  ultimately show ?thesis using SS_Range_rep [of ss es mn mx] assms(1,2) by (auto simp: SS_holds_def)
qed

theorem SS_Range_offset_escapes_witness:
  "\<exists>ss r. SS_run SS_Make [ZAdd 1 ''a'' (1::int), ZAdd 1 ''b'' 5] = Some [ZBool True, ZBool True] \<and>
     SS_holds ss [\<lparr>Member = ''a'', Score = 1\<rparr>, \<lparr>Member = ''b'', Score = 5 :: int\<rparr>] \<and>
     SS_Range ss (ScoreBorder 0 0 False) (ScoreBorder 0 2 False) 1 10 False = Some (\<lparr>Member = ''b'', Score = 5\<rparr> # r)"
proof -
  let ?a = "ZAdd 1 ''a'' (1::int)" and ?b = "ZAdd 1 ''b'' (5::int)"
  obtain s1 where s1: "SS_exec SS_Make ?a = Some (s1, ZBool True)" "SS_holds s1 [\<lparr>Member = ''a'', Score = 1\<rparr>]"
    using SS_exec_holds [OF SS_Make_holds, of ?a] by (auto simp: without_def place_def pos_def ins_def)
  obtain s2 where s2: "SS_exec s1 ?b = Some (s2, ZBool True)"
    "SS_holds s2 [\<lparr>Member = ''a'', Score = 1\<rparr>, \<lparr>Member = ''b'', Score = 5\<rparr>]"
    using SS_exec_holds [OF s1(2), of ?b] by (auto simp: without_def place_def pos_def ins_def elt_def before_def)
  from SS_Range_offset_escapes [OF s2(2), of "ScoreBorder 0 0 False" "ScoreBorder 0 2 False" False "[]"
      "[\<lparr>Member = ''a'', Score = 1\<rparr>]" "\<lparr>Member = ''b'', Score = 5\<rparr>" "[]" 10]
  have "\<exists>r. SS_Range s2 (ScoreBorder 0 0 False) (ScoreBorder 0 2 False) 1 10 False = Some (\<lparr>Member = ''b'', Score = 5\<rparr> # r)"
    by (simp add: dir_def inRange_def borders_ok_def isScore_def)
  moreover have "SS_run SS_Make [?a, ?b] = Some [ZBool True, ZBool True]" using s1(1) s2(1) by (simp del: SS_exec.simps)
  ultimately show ?thesis using s2(2) by blast
qed

text \<open>
  C37: a range query from minus infinity to a negative score always answers the empty list: the
  test for empty ranges compares the number stored in the infinite border, which is 0.
\<close>

theorem SS_Range_infinity_bug:
  assumes "v < (0 :: 'f :: {linorder, zero})" and "Score e < v"
  shows "inRange scoreNegativeInfBorder (ScoreBorder 0 v ex) e \<and>
    SS_Range ss scoreNegativeInfBorder (ScoreBorder 0 v ex) offset limit desc = Some []"
proof
  show "inRange scoreNegativeInfBorder (ScoreBorder 0 v ex) e"
    using assms(2) by (simp add: inRange_def scoreNegativeInfBorder_def less_imp_le)
  have h: "hasInRange (ss_list ss) scoreNegativeInfBorder (ScoreBorder 0 v ex) = Some False"
    using assms(1) by (simp add: hasInRange_def scoreNegativeInfBorder_def)
  have "skip_offset (ss_list ss) d (nat offset) None = Some None" for d by (cases "nat offset") auto
  moreover have "forEachRange_loop (ss_list ss) mn mx limit d f 0 None s = Some s" for mn mx d f and s :: "'f Element list"
    by (subst forEachRange_loop.simps) simp
  ultimately show "SS_Range ss scoreNegativeInfBorder (ScoreBorder 0 v ex) offset limit desc = Some []"
    using h by (simp add: SS_Range_def SS_ForEach_def getFirstInRange_def getLastInRange_def)
qed

theorem SS_Range_infinity_bug_witness:
  "inRange scoreNegativeInfBorder (ScoreBorder 0 (- 1) False) \<lparr>Member = ''a'', Score = (- 5 :: int)\<rparr> \<and>
   SS_Range (SS_Make :: int SortedSet) scoreNegativeInfBorder (ScoreBorder 0 (- 1) False) 0 (- 1) False = Some []"
  using SS_Range_infinity_bug [of "- 1 :: int" "\<lparr>Member = ''a'', Score = - 5\<rparr>" False SS_Make 0 "- 1" False] by simp

end
