(* ===== verification/GoList.thy ===== *)
theory GoList
  imports Godis_Prelude
begin

text \<open>
  The interface \<^verbatim>\<open>List\<close> of \<^verbatim>\<open>datastruct/list\<close>: its calls as a datatype, what they mean on a HOL
  list, and a locale whose law is that an implementation answers one call as the list does.
  A run-time panic is \<open>None\<close>. \<open>rep l xs\<close> says that the structure \<open>l\<close> is well formed and holds \<open>xs\<close>;
  \<open>ok xs c\<close> are the calls for which the implementation keeps the contract.
\<close>

text \<open>
  The list functions that the methods implement. \<open>removeN f n\<close> removes the first \<open>n\<close> elements
  that satisfy \<open>f\<close>, and all of them for \<open>n \<le> 0\<close>.
\<close>

fun removeN :: "('a \<Rightarrow> bool) \<Rightarrow> int \<Rightarrow> 'a list \<Rightarrow> 'a list" where
  "removeN f n [] = []"
| "removeN f n (x # xs) = (if f x then (if n = 1 then xs else removeN f (n - 1) xs) else x # removeN f n xs)"

fun foreach :: "('s \<Rightarrow> int \<Rightarrow> 'a \<Rightarrow> bool \<times> 's) \<Rightarrow> int \<Rightarrow> 'a list \<Rightarrow> 's \<Rightarrow> 's" where
  "foreach f i [] s = s"
| "foreach f i (x # xs) s = (case f s i x of (goNext, s') \<Rightarrow> if goNext then foreach f (i + 1) xs s' else s')"

definition go_insert :: "'a list \<Rightarrow> int \<Rightarrow> 'a \<Rightarrow> 'a list option" where
  "go_insert xs i v = (if 0 \<le> i \<and> i \<le> int (length xs) then Some (take (nat i) xs @ v # drop (nat i) xs) else None)"

datatype 'a list_op = LAdd 'a | LGet int | LSet int 'a | LInsert int 'a | LRemove int | LRemoveLast
  | LRemoveAllByVal "'a \<Rightarrow> bool" | LRemoveByVal "'a \<Rightarrow> bool" int | LReverseRemoveByVal "'a \<Rightarrow> bool" int
  | LLen | LContains "'a \<Rightarrow> bool" | LRange int int

datatype 'a list_ans = LUnit | LVal 'a | LOpt "'a option" | LNum int | LBool bool | LVals "'a list"

fun list_spec :: "'a list \<Rightarrow> 'a list_op \<Rightarrow> ('a list \<times> 'a list_ans) option" where
  "list_spec xs (LAdd v) = Some (xs @ [v], LUnit)"
| "list_spec xs (LGet i) = map_option (\<lambda>v. (xs, LVal v)) (go_index xs i)"
| "list_spec xs (LSet i v) = map_option (\<lambda>ys. (ys, LUnit)) (go_update xs i v)"
| "list_spec xs (LInsert i v) = map_option (\<lambda>ys. (ys, LUnit)) (go_insert xs i v)"
| "list_spec xs (LRemove i) =
     map_option (\<lambda>v. (take (nat i) xs @ drop (Suc (nat i)) xs, LVal v)) (go_index xs i)"
| "list_spec xs LRemoveLast = Some (butlast xs, LOpt (if xs = [] then None else Some (last xs)))"
| "list_spec xs (LRemoveAllByVal f) = (if xs = [] then None
     else Some (filter (\<lambda>x. \<not> f x) xs, LNum (int (length (filter f xs)))))"
| "list_spec xs (LRemoveByVal f n) =
     (let ys = removeN f n xs in Some (ys, LNum (int (length xs) - int (length ys))))"
| "list_spec xs (LReverseRemoveByVal f n) =
     (let ys = removeN f n (rev xs) in Some (rev ys, LNum (int (length xs) - int (length ys))))"
| "list_spec xs LLen = Some (xs, LNum (int (length xs)))"
| "list_spec xs (LContains f) = Some (xs, LBool (\<exists>x \<in> set xs. f x))"
| "list_spec xs (LRange a b) =
     (if 0 \<le> a \<and> a < int (length xs) \<and> a \<le> b \<and> b \<le> int (length xs)
      then Some (xs, LVals (take (nat b - nat a) (drop (nat a) xs))) else None)"

text \<open>A client that makes calls one after the other and collects the answers; a panic ends it.\<close>

fun list_run :: "('l \<Rightarrow> 'a list_op \<Rightarrow> ('l \<times> 'a list_ans) option) \<Rightarrow> 'l \<Rightarrow> 'a list_op list
    \<Rightarrow> 'a list_ans list option" where
  "list_run exec l [] = Some []"
| "list_run exec l (c # cs) = do { (l', a) \<leftarrow> exec l c; as \<leftarrow> list_run exec l' cs; Some (a # as) }"

fun calls_ok :: "('a list \<Rightarrow> 'a list_op \<Rightarrow> bool) \<Rightarrow> 'a list \<Rightarrow> 'a list_op list \<Rightarrow> bool" where
  "calls_ok ok xs [] = True"
| "calls_ok ok xs (c # cs) = (ok xs c \<and>
     (case list_spec xs c of Some (ys, a) \<Rightarrow> calls_ok ok ys cs | None \<Rightarrow> True))"

locale go_list =
  fixes exec :: "'l \<Rightarrow> 'a list_op \<Rightarrow> ('l \<times> 'a list_ans) option"
    and rep :: "'l \<Rightarrow> 'a list \<Rightarrow> bool"
    and ok :: "'a list \<Rightarrow> 'a list_op \<Rightarrow> bool"
    and empty :: 'l
  assumes rep_empty: "rep empty []"
    and exec_law: "rep l xs \<Longrightarrow> ok xs c \<Longrightarrow>
      (case exec l c of None \<Rightarrow> list_spec xs c = None
       | Some (l', a) \<Rightarrow> \<exists>ys. list_spec xs c = Some (ys, a) \<and> rep l' ys)"
begin

lemma run_refines: "rep l xs \<Longrightarrow> calls_ok ok xs cs \<Longrightarrow> list_run exec l cs = list_run list_spec xs cs"
proof (induction cs arbitrary: l xs)
  case (Cons c cs)
  note law = exec_law [OF Cons.prems(1), of c]
  show ?case
  proof (cases "exec l c")
    case None
    with law Cons.prems(2) show ?thesis by simp
  next
    case (Some r)
    with law Cons.prems(2) obtain l' a ys where "r = (l', a)" "list_spec xs c = Some (ys, a)" "rep l' ys"
      by (cases r) auto
    with Some Cons.IH [of l' ys] Cons.prems(2) show ?thesis by simp
  qed
qed simp

lemma fresh_run: "calls_ok ok [] cs \<Longrightarrow> list_run exec empty cs = list_run list_spec [] cs"
  by (rule run_refines [OF rep_empty])

end

section \<open>Lemmas\<close>

lemma removeN_all: "n \<le> 0 \<Longrightarrow> removeN f n xs = filter (\<lambda>x. \<not> f x) xs"
  by (induction f n xs rule: removeN.induct) auto

lemma length_removeN: "length (removeN f n xs) \<le> length xs"
  by (induction f n xs rule: removeN.induct) auto

lemma removeN_count:
  "n > 0 \<Longrightarrow> int (length xs) - int (length (removeN f n xs)) = min n (int (length (filter f xs)))"
  by (induction f n xs rule: removeN.induct) auto

end
