(* ===== verification/QuickList.thy ===== *)
theory QuickList
  imports GoList
begin

text \<open>
  \<^verbatim>\<open>datastruct/list/quicklist.go\<close>: a doubly linked list of pages. The \<^verbatim>\<open>container/list\<close> of pages
  is the list of its pages in order, a node of it is a position, and a page is a slice with its
  capacity, since \<^verbatim>\<open>Add\<close> compares the two. Every page belongs to one node, so slices do not
  alias. A method that can panic returns an option. The loops are partial functions in the
  option type; that they return is part of what is proved of them.
\<close>

definition pageSize :: int where
  "pageSize = 1024"

record 'a page =
  items :: "'a list"
  pcap :: nat

record 'a QuickList =
  ql_data :: "'a page list"
  ql_size :: int

record iterator =
  it_node :: "nat option"
  it_offset :: int

definition NewQuickList :: "'a QuickList" where
  "NewQuickList = \<lparr>ql_data = [], ql_size = 0\<rparr>"

definition newPage :: "'a \<Rightarrow> 'a page" where
  "newPage val = \<lparr>items = [val], pcap = nat pageSize\<rparr>"

definition QL_Add :: "'a QuickList \<Rightarrow> 'a \<Rightarrow> 'a QuickList" where
  "QL_Add ql val =
     (let ql = ql\<lparr>ql_size := ql_size ql + 1\<rparr>; pages = ql_data ql in
      if pages = [] then ql\<lparr>ql_data := [newPage val]\<rparr>
      else let backPage = last pages in
        if length (items backPage) = pcap backPage then ql\<lparr>ql_data := pages @ [newPage val]\<rparr>
        else ql\<lparr>ql_data := butlast pages @ [backPage\<lparr>items := items backPage @ [val]\<rparr>]\<rparr>)"

text \<open>The two search loops of \<^verbatim>\<open>find\<close>; walking past an end of the list is a nil dereference.\<close>

fun find_front :: "'a page list \<Rightarrow> nat \<Rightarrow> int \<Rightarrow> int \<Rightarrow> (nat \<times> int) option" where
  "find_front [] n index pageBeg = None"
| "find_front (p # ps) n index pageBeg =
     (if pageBeg + int (length (items p)) > index then Some (n, pageBeg)
      else find_front ps (Suc n) index (pageBeg + int (length (items p))))"

fun find_back :: "'a page list \<Rightarrow> nat \<Rightarrow> int \<Rightarrow> int \<Rightarrow> (nat \<times> int) option" where
  "find_back [] n index pageBeg = None"
| "find_back (p # ps) n index pageBeg =
     (let pageBeg = pageBeg - int (length (items p)) in
      if pageBeg \<le> index then Some (n, pageBeg) else find_back ps (n - 1) index pageBeg)"

definition QL_find :: "'a QuickList \<Rightarrow> int \<Rightarrow> iterator option" where
  "QL_find ql index =
     (if index < 0 \<or> index \<ge> ql_size ql then None
      else do {
        (n, pageBeg) \<leftarrow>
          (if index < quot (ql_size ql) 2 then find_front (ql_data ql) 0 index 0
           else find_back (rev (ql_data ql)) (length (ql_data ql) - 1) index (ql_size ql));
        Some \<lparr>it_node = Some n, it_offset = index - pageBeg\<rparr>
      })"

definition it_page :: "'a QuickList \<Rightarrow> iterator \<Rightarrow> 'a page option" where
  "it_page ql it = do { n \<leftarrow> it_node it; go_index (ql_data ql) (int n) }"

definition it_get :: "'a QuickList \<Rightarrow> iterator \<Rightarrow> 'a option" where
  "it_get ql it = do { page \<leftarrow> it_page ql it; go_index (items page) (it_offset it) }"

definition ql_Back :: "'a QuickList \<Rightarrow> nat option" where
  "ql_Back ql = (if ql_data ql = [] then None else Some (length (ql_data ql) - 1))"

definition ql_Front :: "'a QuickList \<Rightarrow> nat option" where
  "ql_Front ql = (if ql_data ql = [] then None else Some 0)"

definition it_next :: "'a QuickList \<Rightarrow> iterator \<Rightarrow> (iterator \<times> bool) option" where
  "it_next ql it = do {
     page \<leftarrow> it_page ql it;
     (if it_offset it < int (length (items page)) - 1 then Some (it\<lparr>it_offset := it_offset it + 1\<rparr>, True)
      else if it_node it = ql_Back ql then Some (it\<lparr>it_offset := int (length (items page))\<rparr>, False)
      else Some (it\<lparr>it_offset := 0, it_node := map_option Suc (it_node it)\<rparr>, True))
   }"

definition it_prev :: "'a QuickList \<Rightarrow> iterator \<Rightarrow> (iterator \<times> bool) option" where
  "it_prev ql it =
     (if it_offset it > 0 then Some (it\<lparr>it_offset := it_offset it - 1\<rparr>, True)
      else if it_node it = ql_Front ql then Some (it\<lparr>it_offset := - 1\<rparr>, False)
      else do {
        n \<leftarrow> it_node it;
        prevPage \<leftarrow> go_index (ql_data ql) (int n - 1);
        Some (it\<lparr>it_node := Some (n - 1), it_offset := int (length (items prevPage)) - 1\<rparr>, True)
      })"

definition it_atEnd :: "'a QuickList \<Rightarrow> iterator \<Rightarrow> bool option" where
  "it_atEnd ql it =
     (if ql_data ql = [] then Some True
      else if it_node it \<noteq> ql_Back ql then Some False
      else do { page \<leftarrow> it_page ql it; Some (it_offset it = int (length (items page))) })"

definition it_atBegin :: "'a QuickList \<Rightarrow> iterator \<Rightarrow> bool" where
  "it_atBegin ql it =
     (if ql_data ql = [] then True
      else if it_node it \<noteq> ql_Front ql then False
      else it_offset it = - 1)"

definition QL_Get :: "'a QuickList \<Rightarrow> int \<Rightarrow> 'a option" where
  "QL_Get ql index = do { it \<leftarrow> QL_find ql index; it_get ql it }"

definition ql_store :: "'a QuickList \<Rightarrow> nat \<Rightarrow> 'a page \<Rightarrow> 'a QuickList" where
  "ql_store ql n page = ql\<lparr>ql_data := (ql_data ql)[n := page]\<rparr>"

definition it_set :: "'a QuickList \<Rightarrow> iterator \<Rightarrow> 'a \<Rightarrow> 'a QuickList option" where
  "it_set ql it val = do {
     n \<leftarrow> it_node it;
     page \<leftarrow> it_page ql it;
     vals \<leftarrow> go_update (items page) (it_offset it) val;
     Some (ql_store ql n (page\<lparr>items := vals\<rparr>))
   }"

definition QL_Set :: "'a QuickList \<Rightarrow> int \<Rightarrow> 'a \<Rightarrow> 'a QuickList option" where
  "QL_Set ql index val = do { it \<leftarrow> QL_find ql index; it_set ql it val }"

text \<open>
  \<^verbatim>\<open>append(page[:i+1], page[i:]...)\<close> followed by \<^verbatim>\<open>page[i] = val\<close>: the overlapping copy doubles
  cell \<open>i\<close>, the assignment overwrites its first copy.
\<close>

definition page_insert :: "(nat \<Rightarrow> nat \<Rightarrow> nat) \<Rightarrow> 'a page \<Rightarrow> nat \<Rightarrow> 'a \<Rightarrow> 'a page" where
  "page_insert g page i val =
     \<lparr>items = (take (i + 1) (items page) @ drop i (items page))[i := val],
      pcap = append_cap g (pcap page) (length (items page) + 1)\<rparr>"

definition QL_Insert :: "(nat \<Rightarrow> nat \<Rightarrow> nat) \<Rightarrow> 'a QuickList \<Rightarrow> int \<Rightarrow> 'a \<Rightarrow> 'a QuickList option" where
  "QL_Insert g ql index val =
     (if index = ql_size ql then Some (QL_Add ql val)
      else do {
        it \<leftarrow> QL_find ql index;
        n \<leftarrow> it_node it;
        page \<leftarrow> it_page ql it;
        let off = nat (it_offset it);
        (if int (length (items page)) < pageSize then
           Some ((ql_store ql n (page_insert g page off val))\<lparr>ql_size := ql_size ql + 1\<rparr>)
         else
           let half = nat (pageSize div 2);
               nextPage = \<lparr>items = drop half (items page),
                           pcap = append_cap g 0 (length (items page) - half)\<rparr>;
               page = page\<lparr>items := take half (items page)\<rparr>;
               (page, nextPage) =
                 (if off < length (items page) then (page_insert g page off val, nextPage)
                  else (page, page_insert g nextPage (off - half) val))
           in Some (ql\<lparr>ql_data := take n (ql_data ql) @ page # nextPage # drop (n + 1) (ql_data ql),
                       ql_size := ql_size ql + 1\<rparr>))
      })"

definition it_remove :: "'a QuickList \<Rightarrow> iterator \<Rightarrow> ('a QuickList \<times> iterator \<times> 'a) option" where
  "it_remove ql it = do {
     n \<leftarrow> it_node it;
     page \<leftarrow> it_page ql it;
     val \<leftarrow> go_index (items page) (it_offset it);
     let off = nat (it_offset it);
     let vals = take off (items page) @ drop (off + 1) (items page);
     let pages = ql_data ql;
     let removed = take n pages @ drop (n + 1) pages;
     let (pages', it') =
       (if vals \<noteq> [] then
          (pages[n := page\<lparr>items := vals\<rparr>],
           if it_offset it = int (length vals) \<and> it_node it \<noteq> ql_Back ql
           then it\<lparr>it_node := Some (n + 1), it_offset := 0\<rparr> else it)
        else if it_node it = ql_Back ql then
          (if n > 0 then
             (removed, it\<lparr>it_node := Some (n - 1), it_offset := int (length (items (pages ! (n - 1))))\<rparr>)
           else (removed, it\<lparr>it_node := None, it_offset := 0\<rparr>))
        else (removed, it\<lparr>it_node := Some n, it_offset := 0\<rparr>));
     Some (ql\<lparr>ql_data := pages', ql_size := ql_size ql - 1\<rparr>, it', val)
   }"

definition QL_Remove :: "'a QuickList \<Rightarrow> int \<Rightarrow> ('a QuickList \<times> 'a) option" where
  "QL_Remove ql index = do {
     it \<leftarrow> QL_find ql index;
     (ql', it', val) \<leftarrow> it_remove ql it;
     Some (ql', val)
   }"

definition QL_Len :: "'a QuickList \<Rightarrow> int" where
  "QL_Len ql = ql_size ql"

text \<open>\<^verbatim>\<open>RemoveLast\<close> returns nil on an empty list.\<close>

definition QL_RemoveLast :: "'a QuickList \<Rightarrow> ('a QuickList \<times> 'a option) option" where
  "QL_RemoveLast ql =
     (if QL_Len ql = 0 then Some (ql, None)
      else if ql_data ql = [] then None
      else let pages = ql_data ql; lastPage = last pages; ql = ql\<lparr>ql_size := ql_size ql - 1\<rparr> in
        if length (items lastPage) = 1 then Some (ql\<lparr>ql_data := butlast pages\<rparr>, Some (items lastPage ! 0))
        else do {
          val \<leftarrow> go_index (items lastPage) (int (length (items lastPage)) - 1);
          Some (ql\<lparr>ql_data := butlast pages @ [lastPage\<lparr>items := butlast (items lastPage)\<rparr>]\<rparr>, Some val)
        })"

partial_function (option) removeAll_loop ::
  "('a \<Rightarrow> bool) \<Rightarrow> 'a QuickList \<Rightarrow> iterator \<Rightarrow> int \<Rightarrow> ('a QuickList \<times> int) option" where
  "removeAll_loop expected ql it removed = do {
     done \<leftarrow> it_atEnd ql it;
     (if done then Some (ql, removed)
      else do {
        val \<leftarrow> it_get ql it;
        (if expected val then do {
           (ql', it', v) \<leftarrow> it_remove ql it;
           removeAll_loop expected ql' it' (removed + 1)
         } else do {
           (it', b) \<leftarrow> it_next ql it;
           removeAll_loop expected ql it' removed
         })
      })
   }"

definition QL_RemoveAllByVal :: "('a \<Rightarrow> bool) \<Rightarrow> 'a QuickList \<Rightarrow> ('a QuickList \<times> int) option" where
  "QL_RemoveAllByVal expected ql = do { it \<leftarrow> QL_find ql 0; removeAll_loop expected ql it 0 }"

partial_function (option) removeByVal_loop ::
  "('a \<Rightarrow> bool) \<Rightarrow> int \<Rightarrow> 'a QuickList \<Rightarrow> iterator \<Rightarrow> int \<Rightarrow> ('a QuickList \<times> int) option" where
  "removeByVal_loop expected cnt ql it removed = do {
     done \<leftarrow> it_atEnd ql it;
     (if done then Some (ql, removed)
      else do {
        val \<leftarrow> it_get ql it;
        (if expected val then do {
           (ql', it', v) \<leftarrow> it_remove ql it;
           (if removed + 1 = cnt then Some (ql', removed + 1)
            else removeByVal_loop expected cnt ql' it' (removed + 1))
         } else do {
           (it', b) \<leftarrow> it_next ql it;
           removeByVal_loop expected cnt ql it' removed
         })
      })
   }"

definition QL_RemoveByVal :: "('a \<Rightarrow> bool) \<Rightarrow> int \<Rightarrow> 'a QuickList \<Rightarrow> ('a QuickList \<times> int) option" where
  "QL_RemoveByVal expected cnt ql =
     (if ql_size ql = 0 then Some (ql, 0)
      else do { it \<leftarrow> QL_find ql 0; removeByVal_loop expected cnt ql it 0 })"

partial_function (option) reverseRemove_loop ::
  "('a \<Rightarrow> bool) \<Rightarrow> int \<Rightarrow> 'a QuickList \<Rightarrow> iterator \<Rightarrow> int \<Rightarrow> ('a QuickList \<times> int) option" where
  "reverseRemove_loop expected cnt ql it removed =
     (if it_atBegin ql it then Some (ql, removed)
      else do {
        val \<leftarrow> it_get ql it;
        (if expected val then do {
           (ql', it', v) \<leftarrow> it_remove ql it;
           (if removed + 1 = cnt then Some (ql', removed + 1)
            else do {
              (it'', b) \<leftarrow> it_prev ql' it';
              reverseRemove_loop expected cnt ql' it'' (removed + 1)
            })
         } else do {
           (it', b) \<leftarrow> it_prev ql it;
           reverseRemove_loop expected cnt ql it' removed
         })
      })"

definition QL_ReverseRemoveByVal :: "('a \<Rightarrow> bool) \<Rightarrow> int \<Rightarrow> 'a QuickList \<Rightarrow> ('a QuickList \<times> int) option" where
  "QL_ReverseRemoveByVal expected cnt ql =
     (if ql_size ql = 0 then Some (ql, 0)
      else do { it \<leftarrow> QL_find ql (ql_size ql - 1); reverseRemove_loop expected cnt ql it 0 })"

partial_function (option) forEach_loop ::
  "'a QuickList \<Rightarrow> ('s \<Rightarrow> int \<Rightarrow> 'a \<Rightarrow> bool \<times> 's) \<Rightarrow> iterator \<Rightarrow> int \<Rightarrow> 's \<Rightarrow> 's option" where
  "forEach_loop ql consumer it i s = do {
     val \<leftarrow> it_get ql it;
     (case consumer s i val of (goNext, s') \<Rightarrow>
        if \<not> goNext then Some s'
        else do {
          (it', b) \<leftarrow> it_next ql it;
          (if \<not> b then Some s' else forEach_loop ql consumer it' (i + 1) s')
        })
   }"

definition QL_ForEach :: "'a QuickList \<Rightarrow> ('s \<Rightarrow> int \<Rightarrow> 'a \<Rightarrow> bool \<times> 's) \<Rightarrow> 's \<Rightarrow> 's option" where
  "QL_ForEach ql consumer s =
     (if QL_Len ql = 0 then Some s
      else do { it \<leftarrow> QL_find ql 0; forEach_loop ql consumer it 0 s })"

definition QL_Contains :: "'a QuickList \<Rightarrow> ('a \<Rightarrow> bool) \<Rightarrow> bool option" where
  "QL_Contains ql expected =
     QL_ForEach ql (\<lambda>contains i actual. if expected actual then (False, True) else (True, contains)) False"

fun range_loop :: "'a QuickList \<Rightarrow> iterator \<Rightarrow> nat \<Rightarrow> 'a list \<Rightarrow> 'a list option" where
  "range_loop ql it 0 acc = Some acc"
| "range_loop ql it (Suc n) acc = do {
     val \<leftarrow> it_get ql it;
     (it', b) \<leftarrow> it_next ql it;
     range_loop ql it' n (acc @ [val])
   }"

definition QL_Range :: "'a QuickList \<Rightarrow> int \<Rightarrow> int \<Rightarrow> 'a list option" where
  "QL_Range ql start stop =
     (if start < 0 \<or> start \<ge> QL_Len ql then None
      else if stop < start \<or> stop > QL_Len ql then None
      else do { it \<leftarrow> QL_find ql start; range_loop ql it (nat (stop - start)) [] })"

subsection \<open>Abstraction and invariant\<close>

abbreviation flat :: "'a page list \<Rightarrow> 'a list" where
  "flat ps \<equiv> concat (map items ps)"

definition QL_abs :: "'a QuickList \<Rightarrow> 'a list" where
  "QL_abs ql = flat (ql_data ql)"

text \<open>The size counter is right, no page is empty, and no page is longer than its capacity.\<close>

definition QL_inv :: "'a QuickList \<Rightarrow> bool" where
  "QL_inv ql \<longleftrightarrow> ql_size ql = int (length (QL_abs ql)) \<and>
     (\<forall>p \<in> set (ql_data ql). items p \<noteq> [] \<and> length (items p) \<le> pcap p)"

text \<open>
  The iterator stands between \<open>xs\<close> and \<open>ys\<close>: in page \<open>p\<close> at a cell, or behind the last cell of
  the last page; on an empty list it has no node.
\<close>

definition stands :: "'a QuickList \<Rightarrow> iterator \<Rightarrow> 'a list \<Rightarrow> 'a list \<Rightarrow> bool" where
  "stands ql it xs ys \<longleftrightarrow>
     ql_data ql = [] \<and> it_node it = None \<and> it_offset it = 0 \<and> xs = [] \<and> ys = [] \<or>
     (\<exists>ps p qs k. ql_data ql = ps @ p # qs \<and> it_node it = Some (length ps) \<and> it_offset it = int k \<and>
        (k < length (items p) \<or> k = length (items p) \<and> qs = []) \<and>
        xs = flat ps @ take k (items p) \<and> ys = drop k (items p) @ flat qs)"

section \<open>Lemmas\<close>

lemma stands_abs: "stands ql it xs ys \<Longrightarrow> QL_abs ql = xs @ ys"
  by (auto simp: stands_def QL_abs_def)

lemma standsI:
  assumes "ql_data ql = ps @ p # qs" and "it_node it = Some (length ps)" and "it_offset it = int k"
    and "k < length (items p) \<or> k = length (items p) \<and> qs = []"
    and "xs = flat ps @ take k (items p)" and "ys = drop k (items p) @ flat qs"
  shows "stands ql it xs ys"
  using assms unfolding stands_def by blast

lemma stands_cell:
  assumes "stands ql it xs (y # ys)" and "QL_inv ql"
  obtains ps p qs k where "ql_data ql = ps @ p # qs" "it_node it = Some (length ps)"
    "it_offset it = int k" "k < length (items p)" "xs = flat ps @ take k (items p)"
    "y = items p ! k" "ys = drop (Suc k) (items p) @ flat qs"
proof -
  from assms(1) obtain ps p qs k where s: "ql_data ql = ps @ p # qs" "it_node it = Some (length ps)"
    "it_offset it = int k" "k < length (items p) \<or> k = length (items p) \<and> qs = []"
    "xs = flat ps @ take k (items p)" "y # ys = drop k (items p) @ flat qs"
    unfolding stands_def by auto
  have k: "k < length (items p)" using s(4,6) by auto
  with s(6) have "y = items p ! k" "ys = drop (Suc k) (items p) @ flat qs"
    by (simp_all add: Cons_nth_drop_Suc [symmetric])
  with s k that show ?thesis by blast
qed

lemma find_front_spec:
  assumes "\<forall>p \<in> set ps. items p \<noteq> []" and "b \<le> int i" and "int i < b + int (length (flat ps))"
  shows "\<exists>as p cs. ps = as @ p # cs \<and> find_front ps n (int i) b = Some (n + length as, b + int (length (flat as)))
    \<and> b + int (length (flat as)) \<le> int i \<and> int i < b + int (length (flat as)) + int (length (items p))"
  using assms
proof (induction ps arbitrary: n b)
  case (Cons q ps)
  show ?case
  proof (cases "int i < b + int (length (items q))")
    case True
    with Cons.prems show ?thesis by (intro exI [of _ "[]"]) simp
  next
    case False
    with Cons.prems have "\<exists>as p cs. ps = as @ p # cs \<and>
        find_front ps (Suc n) (int i) (b + int (length (items q)))
          = Some (Suc n + length as, b + int (length (items q)) + int (length (flat as)))
        \<and> b + int (length (items q)) + int (length (flat as)) \<le> int i
        \<and> int i < b + int (length (items q)) + int (length (flat as)) + int (length (items p))"
      by (intro Cons.IH) auto
    then obtain as p cs where "ps = as @ p # cs"
      "find_front ps (Suc n) (int i) (b + int (length (items q)))
          = Some (Suc n + length as, b + int (length (items q)) + int (length (flat as)))"
      "b + int (length (items q)) + int (length (flat as)) \<le> int i"
      "int i < b + int (length (items q)) + int (length (flat as)) + int (length (items p))" by blast
    with False show ?thesis by (intro exI [of _ "q # as"] exI [of _ p] exI [of _ cs]) simp
  qed
qed simp

lemma find_back_spec:
  assumes "0 \<le> i" and "i < int (length (flat (rev ps)))"
  shows "\<exists>as p cs. ps = cs @ p # rev as \<and>
    find_back ps (length ps - 1) i (int (length (flat (rev ps)))) = Some (length as, int (length (flat as)))
    \<and> int (length (flat as)) \<le> i \<and> i < int (length (flat as)) + int (length (items p))"
  using assms
proof (induction ps)
  case (Cons q ps)
  show ?case
  proof (cases "int (length (flat (rev ps))) \<le> i")
    case True
    with Cons.prems show ?thesis by (intro exI [of _ "rev ps"] exI [of _ q] exI [of _ "[]"]) simp
  next
    case False
    with Cons.prems obtain as p cs where "ps = cs @ p # rev as"
      "find_back ps (length ps - 1) i (int (length (flat (rev ps)))) = Some (length as, int (length (flat as)))"
      "int (length (flat as)) \<le> i" "i < int (length (flat as)) + int (length (items p))"
      using Cons.IH by auto
    with False show ?thesis by (intro exI [of _ as] exI [of _ p] exI [of _ "q # cs"]) simp
  qed
qed simp

lemma QL_find_stands:
  assumes inv: "QL_inv ql" and i: "i < length (QL_abs ql)"
  shows "\<exists>it. QL_find ql (int i) = Some it \<and> stands ql it (take i (QL_abs ql)) (drop i (QL_abs ql))"
proof -
  have "\<exists>as p cs. ql_data ql = as @ p # cs \<and> QL_find ql (int i) =
      Some \<lparr>it_node = Some (length as), it_offset = int i - int (length (flat as))\<rparr> \<and>
      length (flat as) \<le> i \<and> i < length (flat as) + length (items p)"
  proof (cases "int i < quot (ql_size ql) 2")
    case True
    with inv i find_front_spec [of "ql_data ql" 0 i 0] show ?thesis
      by (fastforce simp: QL_find_def QL_inv_def QL_abs_def)
  next
    case False
    obtain as p cs where "rev (ql_data ql) = cs @ p # rev as" and
      f: "find_back (rev (ql_data ql)) (length (ql_data ql) - 1) (int i) (int (length (flat (ql_data ql))))
        = Some (length as, int (length (flat as)))"
      and "length (flat as) \<le> i" "i < length (flat as) + length (items p)"
      using find_back_spec [of "int i" "rev (ql_data ql)"] i by (auto simp: QL_abs_def)
    moreover from this(1) have "ql_data ql = as @ p # rev cs"
      by (metis append.assoc append_Cons append_Nil rev.simps(2) rev_append rev_rev_ident)
    ultimately show ?thesis
      using False inv i by (intro exI [of _ as] exI [of _ p] exI [of _ "rev cs"])
        (auto simp: QL_find_def QL_inv_def QL_abs_def)
  qed
  then obtain as p cs where d: "ql_data ql = as @ p # cs" and f: "QL_find ql (int i) =
      Some \<lparr>it_node = Some (length as), it_offset = int i - int (length (flat as))\<rparr>"
    and k: "length (flat as) \<le> i" "i < length (flat as) + length (items p)" by blast
  have "stands ql \<lparr>it_node = Some (length as), it_offset = int i - int (length (flat as))\<rparr>
      (take i (QL_abs ql)) (drop i (QL_abs ql))"
    using k d
    by (intro standsI [where ps = as and p = p and qs = cs and k = "i - length (flat as)"]) (auto simp: QL_abs_def)
  with f show ?thesis by blast
qed

subsection \<open>The iterator moves over the list\<close>

lemma it_get_stands: "QL_inv ql \<Longrightarrow> stands ql it xs (y # ys) \<Longrightarrow> it_get ql it = Some y"
  by (erule (1) stands_cell) (auto simp: it_get_def it_page_def)

lemma it_next_stands:
  assumes "QL_inv ql" and "stands ql it xs (y # ys)"
  shows "\<exists>it'. it_next ql it = Some (it', ys \<noteq> []) \<and> stands ql it' (xs @ [y]) ys"
proof -
  obtain ps p qs k where s: "ql_data ql = ps @ p # qs" "it_node it = Some (length ps)"
    "it_offset it = int k" "k < length (items p)" "xs = flat ps @ take k (items p)"
    "y = items p ! k" "ys = drop (Suc k) (items p) @ flat qs"
    using stands_cell [OF assms(2,1)] .
  show ?thesis
  proof (cases "Suc k < length (items p)")
    case True
    with s have "it_next ql it = Some (it\<lparr>it_offset := int (Suc k)\<rparr>, ys \<noteq> [])"
      by (simp add: it_next_def it_page_def)
    moreover have "stands ql (it\<lparr>it_offset := int (Suc k)\<rparr>) (xs @ [y]) ys"
      using s True
      by (intro standsI [where ps = ps and p = p and qs = qs and k = "Suc k"]) (simp_all add: take_Suc_conv_app_nth)
    ultimately show ?thesis by blast
  next
    case False
    with s(4) have k: "Suc k = length (items p)" by simp
    show ?thesis
    proof (cases qs)
      case Nil
      with s k have "it_next ql it = Some (it\<lparr>it_offset := int (Suc k)\<rparr>, ys \<noteq> [])"
        by (simp add: it_next_def it_page_def ql_Back_def)
      moreover have "stands ql (it\<lparr>it_offset := int (Suc k)\<rparr>) (xs @ [y]) ys"
        using s k Nil
        by (intro standsI [where ps = ps and p = p and qs = qs and k = "Suc k"])
          (simp_all add: take_Suc_conv_app_nth [symmetric])
      ultimately show ?thesis by blast
    next
      case (Cons q qs')
      have q: "items q \<noteq> []" using assms(1) s(1) Cons by (simp add: QL_inv_def)
      with s k Cons have "it_next ql it = Some (it\<lparr>it_offset := 0, it_node := Some (Suc (length ps))\<rparr>, ys \<noteq> [])"
        by (simp add: it_next_def it_page_def ql_Back_def)
      moreover have "stands ql (it\<lparr>it_offset := 0, it_node := Some (Suc (length ps))\<rparr>) (xs @ [y]) ys"
        using s k Cons q
        by (intro standsI [where ps = "ps @ [p]" and p = q and qs = qs' and k = 0])
          (simp_all add: take_Suc_conv_app_nth [symmetric])
      ultimately show ?thesis by blast
    qed
  qed
qed

lemma it_prev_stands:
  assumes "QL_inv ql" and "stands ql it (xs @ [x]) ys"
  shows "\<exists>it'. it_prev ql it = Some (it', True) \<and> stands ql it' xs (x # ys)"
proof -
  obtain ps p qs k where s: "ql_data ql = ps @ p # qs" "it_node it = Some (length ps)"
    "it_offset it = int k" "k < length (items p) \<or> k = length (items p) \<and> qs = []"
    "xs @ [x] = flat ps @ take k (items p)" "ys = drop k (items p) @ flat qs"
    using assms(2) unfolding stands_def by auto
  show ?thesis
  proof (cases k)
    case (Suc j)
    have j: "j < length (items p)" using s(4) Suc by auto
    with s(5) Suc have x: "xs = flat ps @ take j (items p)" "x = items p ! j"
      by (auto simp: take_Suc_conv_app_nth simp flip: append_assoc)
    have "it_prev ql it = Some (it\<lparr>it_offset := int j\<rparr>, True)" using s Suc by (simp add: it_prev_def)
    moreover have "stands ql (it\<lparr>it_offset := int j\<rparr>) xs (x # ys)"
      using s Suc j x
      by (intro standsI [where ps = ps and p = p and qs = qs and k = j]) (simp_all add: Cons_nth_drop_Suc)
    ultimately show ?thesis by blast
  next
    case 0
    with s(5) obtain ps' q where ps: "ps = ps' @ [q]" by (cases ps rule: rev_cases) auto
    have q: "items q \<noteq> []" using assms(1) s(1) ps by (simp add: QL_inv_def)
    let ?j = "length (items q) - 1"
    have xs: "xs = flat ps' @ take ?j (items q)" "x = items q ! ?j"
    proof -
      have "xs @ [x] = (flat ps' @ butlast (items q)) @ [last (items q)]" using s(5) 0 ps q by simp
      then show "xs = flat ps' @ take ?j (items q)" "x = items q ! ?j"
        using q by (simp_all add: butlast_conv_take last_conv_nth)
    qed
    have "it_prev ql it = Some (it\<lparr>it_node := Some (length ps'), it_offset := int ?j\<rparr>, True)"
      using s 0 ps q by (simp add: it_prev_def ql_Front_def nth_append of_nat_diff Suc_le_eq)
    moreover have "stands ql (it\<lparr>it_node := Some (length ps'), it_offset := int ?j\<rparr>) xs (x # ys)"
      using s 0 ps q xs
      by (intro standsI [where ps = ps' and p = q and qs = "p # qs" and k = ?j])
        (auto simp: drop_last_cell)
    ultimately show ?thesis by blast
  qed
qed

lemma it_atEnd_stands: "QL_inv ql \<Longrightarrow> stands ql it xs ys \<Longrightarrow> it_atEnd ql it = Some (ys = [])"
  by (auto simp: stands_def it_atEnd_def ql_Back_def it_page_def QL_inv_def)

lemma it_atBegin_stands: "stands ql it xs ys \<Longrightarrow> it_atBegin ql it = (ql_data ql = [])"
  by (auto simp: stands_def it_atBegin_def)

text \<open>In front of the first element \<^verbatim>\<open>prev\<close> leaves the list.\<close>

lemma it_prev_begin:
  assumes "QL_inv ql" and "stands ql it [] ys"
  shows "\<exists>it'. it_prev ql it = Some (it', False) \<and> it_atBegin ql it'"
proof (cases "ql_data ql = []")
  case True
  with assms(2) show ?thesis by (auto simp: stands_def it_prev_def ql_Front_def it_atBegin_def)
next
  case False
  with assms(2) obtain ps p qs k where s: "ql_data ql = ps @ p # qs" "it_node it = Some (length ps)"
    "it_offset it = int k" "k < length (items p) \<or> k = length (items p) \<and> qs = []"
    "[] = flat ps @ take k (items p)"
    unfolding stands_def by auto
  have "items p \<noteq> []" "\<forall>q \<in> set ps. items q \<noteq> []" using assms(1) s(1) by (auto simp: QL_inv_def)
  with s have "k = 0" "ps = []" by (cases ps; auto)+
  with s show ?thesis by (simp add: it_prev_def ql_Front_def it_atBegin_def)
qed

lemma length_flat_store: "length (flat (ps @ p # qs)) = length (flat ps) + length (items p) + length (flat qs)"
  by simp

lemma it_remove_stands:
  assumes inv: "QL_inv ql" and st: "stands ql it xs (y # ys)"
  shows "\<exists>ql' it'. it_remove ql it = Some (ql', it', y) \<and> QL_inv ql' \<and> stands ql' it' xs ys"
proof -
  obtain ps p qs k where s: "ql_data ql = ps @ p # qs" "it_node it = Some (length ps)"
    "it_offset it = int k" "k < length (items p)" "xs = flat ps @ take k (items p)"
    "y = items p ! k" "ys = drop (Suc k) (items p) @ flat qs"
    using stands_cell [OF st inv] .
  have pg: "it_page ql it = Some p" using s(1,2) by (simp add: it_page_def)
  let ?vals = "take k (items p) @ drop (Suc k) (items p)"
  let ?ql = "\<lambda>d. ql\<lparr>ql_data := d, ql_size := ql_size ql - 1\<rparr>"
  have pages: "\<forall>q \<in> set (ps @ qs). items q \<noteq> [] \<and> length (items q) \<le> pcap q"
    and p: "length (items p) \<le> pcap p" using inv s(1) by (auto simp: QL_inv_def)
  have sz: "ql_size ql = int (length (flat ps) + length (items p) + length (flat qs))"
    using inv s(1) by (simp add: QL_inv_def QL_abs_def)
  show ?thesis
  proof (cases "?vals = []")
    case False
    let ?d = "ps @ p\<lparr>items := ?vals\<rparr> # qs"
    let ?it = "if k = length ?vals \<and> qs \<noteq> [] then it\<lparr>it_node := Some (Suc (length ps)), it_offset := 0\<rparr> else it"
    have len: "length ?vals = length (items p) - 1" using s(4) by simp
    have "it_remove ql it = Some (?ql ?d, ?it, y)"
      using s False by (auto simp: it_remove_def pg ql_Back_def Let_def)
    moreover have "QL_inv (?ql ?d)"
      using pages p False sz s(4) by (auto simp: QL_inv_def QL_abs_def)
    moreover have "stands (?ql ?d) ?it xs ys"
    proof (cases "k = length ?vals \<and> qs \<noteq> []")
      case True
      then obtain q qs' where "qs = q # qs'" "items q \<noteq> []" using pages by (cases qs) auto
      with True s show ?thesis
        by (intro standsI [where ps = "ps @ [p\<lparr>items := ?vals\<rparr>]" and p = q and qs = qs' and k = 0]) simp_all
    next
      case nm: False
      with s len show ?thesis
        by (intro standsI [where ps = ps and p = "p\<lparr>items := ?vals\<rparr>" and qs = qs and k = k]) auto
    qed
    ultimately show ?thesis by blast
  next
    case True
    then have "take k (items p) = []" "length (items p) \<le> Suc k" by simp_all
    moreover from this(1) have "k = 0" using s(4) by auto
    ultimately have k: "k = 0" "length (items p) = 1" using s(4) by linarith+
    then have xs: "xs = flat ps" "ys = flat qs" using s by simp_all
    have inv': "QL_inv (?ql (ps @ qs))" using pages sz k by (auto simp: QL_inv_def QL_abs_def)
    consider q qs' where "qs = q # qs'" | "qs = []" "ps = []" | ps' q where "qs = []" "ps = ps' @ [q]"
      by (metis list.exhaust rev_exhaust)
    then show ?thesis
    proof cases
      case 1
      let ?it = "it\<lparr>it_node := Some (length ps), it_offset := 0\<rparr>"
      have "it_remove ql it = Some (?ql (ps @ qs), ?it, y)"
        using s True k 1 by (auto simp: it_remove_def pg ql_Back_def Let_def)
      moreover have "stands (?ql (ps @ qs)) ?it xs ys" using 1 xs pages
        by (intro standsI [where ps = ps and p = q and qs = qs' and k = 0]) simp_all
      ultimately show ?thesis using inv' by blast
    next
      case 2
      then have "it_remove ql it = Some (?ql (ps @ qs), it\<lparr>it_node := None, it_offset := 0\<rparr>, y)"
        using s True k by (auto simp: it_remove_def pg ql_Back_def Let_def)
      moreover have "stands (?ql (ps @ qs)) (it\<lparr>it_node := None, it_offset := 0\<rparr>) xs ys"
        unfolding stands_def using 2 xs by simp
      ultimately show ?thesis using inv' by blast
    next
      case 3
      let ?it = "it\<lparr>it_node := Some (length ps'), it_offset := int (length (items q))\<rparr>"
      have "it_remove ql it = Some (?ql (ps @ qs), ?it, y)"
        using s True k 3 by (auto simp: it_remove_def pg ql_Back_def Let_def nth_append)
      moreover have "stands (?ql (ps @ qs)) ?it xs ys" using 3 xs
        by (intro standsI [where ps = ps' and p = q and qs = "[]" and k = "length (items q)"]) simp_all
      ultimately show ?thesis using inv' by blast
    qed
  qed
qed

subsection \<open>The loops\<close>

lemma removeByVal_loop_stands:
  assumes "QL_inv ql" and "stands ql it xs ys"
  shows "\<exists>ql'. removeByVal_loop f n ql it r = Some (ql', r + (int (length ys) - int (length (removeN f (n - r) ys))))
    \<and> QL_inv ql' \<and> QL_abs ql' = xs @ removeN f (n - r) ys"
  using assms
proof (induction ys arbitrary: ql it xs r)
  case Nil
  then show ?case
    by (subst removeByVal_loop.simps) (simp add: it_atEnd_stands stands_abs)
next
  case (Cons y ys)
  note st = Cons.prems(2) and inv = Cons.prems(1)
  show ?case
  proof (cases "f y")
    case False
    obtain it' where "it_next ql it = Some (it', ys \<noteq> [])" "stands ql it' (xs @ [y]) ys"
      using it_next_stands [OF inv st] by blast
    with False Cons.IH [OF inv this(2), of r] show ?thesis
      by (subst removeByVal_loop.simps)
        (simp add: it_atEnd_stands [OF inv st] it_get_stands [OF inv st])
  next
    case True
    obtain ql' it' where "it_remove ql it = Some (ql', it', y)" "QL_inv ql'" "stands ql' it' xs ys"
      using it_remove_stands [OF inv st] by blast
    with True Cons.IH [OF this(2,3), of "r + 1"] show ?thesis
      by (subst removeByVal_loop.simps)
        (auto simp: it_atEnd_stands [OF inv st] it_get_stands [OF inv st] stands_abs algebra_simps)
  qed
qed

lemma removeAll_loop_eq: "removeAll_loop f ql it r = removeByVal_loop f n ql it r"
  if "n \<le> r" "QL_inv ql" "stands ql it xs ys" for n
  using that
proof (induction ys arbitrary: ql it xs r)
  case Nil
  then show ?case
    by (subst removeByVal_loop.simps, subst removeAll_loop.simps) (simp add: it_atEnd_stands)
next
  case (Cons y ys)
  note st = Cons.prems(3) and inv = Cons.prems(2)
  show ?case
  proof (cases "f y")
    case False
    obtain it' where "it_next ql it = Some (it', ys \<noteq> [])" "stands ql it' (xs @ [y]) ys"
      using it_next_stands [OF inv st] by blast
    with False Cons.IH [OF Cons.prems(1) inv this(2)] show ?thesis
      by (subst removeByVal_loop.simps, subst removeAll_loop.simps)
        (simp add: it_atEnd_stands [OF inv st] it_get_stands [OF inv st])
  next
    case True
    obtain ql' it' where "it_remove ql it = Some (ql', it', y)" "QL_inv ql'" "stands ql' it' xs ys"
      using it_remove_stands [OF inv st] by blast
    with True Cons.IH [OF _ this(2,3), of "r + 1"] Cons.prems(1) show ?thesis
      by (subst removeByVal_loop.simps, subst removeAll_loop.simps)
        (auto simp: it_atEnd_stands [OF inv st] it_get_stands [OF inv st])
  qed
qed

lemma reverseRemove_end: "it_atBegin ql it \<Longrightarrow> reverseRemove_loop f n ql it r = Some (ql, r)"
  by (subst reverseRemove_loop.simps) simp

lemma reverseRemove_loop_stands:
  assumes "QL_inv ql" and "stands ql it xs (y # ys)"
  shows "\<exists>ql'. reverseRemove_loop f n ql it r =
      Some (ql', r + (int (length (xs @ [y])) - int (length (removeN f (n - r) (y # rev xs)))))
    \<and> QL_inv ql' \<and> QL_abs ql' = rev (removeN f (n - r) (y # rev xs)) @ ys"
  using assms
proof (induction xs arbitrary: ql it y ys r rule: rev_induct)
  case Nil
  note st = Nil(2) and inv = Nil(1)
  have nb: "\<not> it_atBegin ql it"
    using it_atBegin_stands [OF st] stands_abs [OF st] by (auto simp: QL_abs_def)
  obtain ql' it' where rm: "it_remove ql it = Some (ql', it', y)" "QL_inv ql'" "stands ql' it' [] ys"
    using it_remove_stands [OF inv st] by blast
  obtain it1 where "it_prev ql' it' = Some (it1, False)" "it_atBegin ql' it1" using it_prev_begin [OF rm(2,3)] by blast
  moreover obtain it2 where "it_prev ql it = Some (it2, False)" "it_atBegin ql it2" using it_prev_begin [OF inv st] by blast
  ultimately show ?case
    using rm inv stands_abs [OF st] stands_abs [OF rm(3)]
    by (subst reverseRemove_loop.simps) (simp add: nb it_get_stands [OF inv st] reverseRemove_end)
next
  case (snoc x xs)
  note st = snoc(3) and inv = snoc(2)
  have nb: "\<not> it_atBegin ql it"
    using it_atBegin_stands [OF st] stands_abs [OF st] by (auto simp: QL_abs_def)
  show ?case
  proof (cases "f y")
    case True
    obtain ql' it' where rm: "it_remove ql it = Some (ql', it', y)" "QL_inv ql'" "stands ql' it' (xs @ [x]) ys"
      using it_remove_stands [OF inv st] by blast
    obtain it1 where pv: "it_prev ql' it' = Some (it1, True)" "stands ql' it1 xs (x # ys)"
      using it_prev_stands [OF rm(2,3)] by blast
    show ?thesis
      using True rm pv snoc.IH [OF rm(2) pv(2), of "r + 1"] stands_abs [OF rm(3)]
      by (subst reverseRemove_loop.simps) (auto simp: nb it_get_stands [OF inv st] algebra_simps)
  next
    case False
    obtain it1 where pv: "it_prev ql it = Some (it1, True)" "stands ql it1 xs (x # y # ys)"
      using it_prev_stands [OF inv st] by blast
    show ?thesis
      using False pv snoc.IH [OF inv pv(2), of r]
      by (subst reverseRemove_loop.simps) (auto simp: nb it_get_stands [OF inv st])
  qed
qed

lemma forEach_loop_stands:
  assumes "QL_inv ql" and "stands ql it xs (y # ys)"
  shows "forEach_loop ql f it i s = Some (foreach f i (y # ys) s)"
  using assms
proof (induction ys arbitrary: it xs y i s)
  case Nil
  then show ?case using it_next_stands [OF Nil]
    by (subst forEach_loop.simps) (auto simp: it_get_stands split: prod.splits)
next
  case (Cons z zs)
  obtain it' where "it_next ql it = Some (it', True)" "stands ql it' (xs @ [y]) (z # zs)"
    using it_next_stands [OF Cons.prems] by auto
  with Cons.IH [OF Cons.prems(1) this(2)] show ?case
    by (subst forEach_loop.simps) (simp add: it_get_stands [OF Cons.prems] split: prod.splits)
qed

lemma range_loop_stands:
  assumes "QL_inv ql" and "stands ql it xs ys" and "n \<le> length ys"
  shows "range_loop ql it n acc = Some (acc @ take n ys)"
  using assms
proof (induction n arbitrary: it xs ys acc)
  case (Suc n)
  then obtain y zs where ys: "ys = y # zs" by (cases ys) auto
  note st = Suc.prems(2) [unfolded ys]
  obtain it' where "it_next ql it = Some (it', zs \<noteq> [])" "stands ql it' (xs @ [y]) zs"
    using it_next_stands [OF Suc.prems(1) st] by blast
  with Suc.IH [OF Suc.prems(1) this(2)] Suc.prems(3) ys show ?case
    by (simp add: it_get_stands [OF Suc.prems(1) st])
qed simp

subsection \<open>The methods implement list operations\<close>

lemma QL_inv_size: "QL_inv ql \<Longrightarrow> ql_size ql = int (length (QL_abs ql))"
  by (simp add: QL_inv_def)

lemma QL_inv_empty: "QL_inv ql \<Longrightarrow> ql_data ql = [] \<longleftrightarrow> QL_abs ql = []"
  by (cases "ql_data ql") (auto simp: QL_inv_def QL_abs_def)

lemma QL_New: "QL_inv NewQuickList \<and> QL_abs NewQuickList = []"
  by (simp add: QL_inv_def QL_abs_def NewQuickList_def)

lemma QL_Add_abs: "QL_inv ql \<Longrightarrow> QL_inv (QL_Add ql v) \<and> QL_abs (QL_Add ql v) = QL_abs ql @ [v]"
  by (cases "ql_data ql" rule: rev_cases)
     (auto simp: QL_Add_def QL_inv_def QL_abs_def newPage_def pageSize_def Let_def)

lemma QL_find_None: "QL_inv ql \<Longrightarrow> i < 0 \<or> int (length (QL_abs ql)) \<le> i \<Longrightarrow> QL_find ql i = None"
  by (auto simp: QL_find_def QL_inv_size)

lemma QL_find_cell:
  assumes "QL_inv ql" and "0 \<le> i" and "i < int (length (QL_abs ql))"
  obtains it where "QL_find ql i = Some it"
    "stands ql it (take (nat i) (QL_abs ql)) (QL_abs ql ! nat i # drop (Suc (nat i)) (QL_abs ql))"
proof -
  have "nat i < length (QL_abs ql)" using assms by simp
  from QL_find_stands [OF assms(1) this] assms(2) that show ?thesis
    by (auto simp: Cons_nth_drop_Suc [OF \<open>nat i < length (QL_abs ql)\<close>])
qed

lemma QL_Get_abs: "QL_inv ql \<Longrightarrow> QL_Get ql i = go_index (QL_abs ql) i"
proof (cases "0 \<le> i \<and> i < int (length (QL_abs ql))")
  case True
  assume inv: "QL_inv ql"
  obtain it where "QL_find ql i = Some it"
    "stands ql it (take (nat i) (QL_abs ql)) (QL_abs ql ! nat i # drop (Suc (nat i)) (QL_abs ql))"
    using QL_find_cell [OF inv] True by blast
  with True it_get_stands [OF inv this(2)] show ?thesis by (simp add: QL_Get_def go_index_def)
qed (auto simp: QL_Get_def QL_find_None go_index_def)

lemma upd_split: "k < length xs \<Longrightarrow> xs[k := v] = take k xs @ v # drop (Suc k) xs"
  by (simp add: upd_conv_take_nth_drop)

lemma QL_Set_abs:
  assumes inv: "QL_inv ql"
  shows "case QL_Set ql i v of
      Some ql' \<Rightarrow> QL_inv ql' \<and> go_update (QL_abs ql) i v = Some (QL_abs ql')
    | None \<Rightarrow> go_update (QL_abs ql) i v = None"
proof (cases "0 \<le> i \<and> i < int (length (QL_abs ql))")
  case True
  obtain it where f: "QL_find ql i = Some it" and
    st: "stands ql it (take (nat i) (QL_abs ql)) (QL_abs ql ! nat i # drop (Suc (nat i)) (QL_abs ql))"
    using QL_find_cell [OF inv] True by blast
  obtain ps p qs k where s: "ql_data ql = ps @ p # qs" "it_node it = Some (length ps)"
    "it_offset it = int k" "k < length (items p)" "take (nat i) (QL_abs ql) = flat ps @ take k (items p)"
    "drop (Suc (nat i)) (QL_abs ql) = drop (Suc k) (items p) @ flat qs"
    using stands_cell [OF st inv] by metis
  let ?ql = "ql_store ql (length ps) (p\<lparr>items := (items p)[k := v]\<rparr>)"
  have "QL_Set ql i v = Some ?ql"
    using f s by (simp add: QL_Set_def it_set_def it_page_def go_update_def)
  moreover have a: "QL_abs ?ql = flat ps @ (items p)[k := v] @ flat qs"
    using s by (simp add: QL_abs_def ql_store_def)
  moreover have "(QL_abs ql)[nat i := v] = QL_abs ?ql"
  proof -
    have n: "nat i < length (QL_abs ql)" using True by linarith
    show ?thesis unfolding a by (simp add: upd_split [OF n] upd_split [OF s(4)] s(5,6))
  qed
  moreover have "QL_inv ?ql" using inv s(1) by (auto simp: QL_inv_def QL_abs_def ql_store_def)
  ultimately show ?thesis using True by (simp add: go_update_def)
qed (auto simp: QL_Set_def QL_find_None [OF inv] go_update_def)

lemma page_insert_items:
  "i < length (items p) \<Longrightarrow> items (page_insert g p i v) = take i (items p) @ v # drop i (items p)"
  by (simp add: page_insert_def list_update_append upd_split take_Suc_conv_app_nth)

lemma page_insert_ok: "items (page_insert g p i v) \<noteq> [] \<Longrightarrow> i < length (items p) \<Longrightarrow>
    length (items (page_insert g p i v)) \<le> pcap (page_insert g p i v)"
  by (simp add: page_insert_items) (simp add: page_insert_def)

lemma QL_Insert_pages:
  assumes inv: "QL_inv ql" and s: "ql_data ql = ps @ p # qs" and k: "k < length (items p)"
    and it: "it_node it = Some (length ps)" "it_offset it = int k"
    and f: "QL_find ql i = Some it" and i: "i \<noteq> ql_size ql"
  shows "\<exists>ql'. QL_Insert g ql i v = Some ql' \<and> QL_inv ql' \<and>
    QL_abs ql' = (flat ps @ take k (items p)) @ v # drop k (items p) @ flat qs"
proof -
  have pages: "\<forall>q \<in> set (ps @ qs). items q \<noteq> [] \<and> length (items q) \<le> pcap q"
    and p: "length (items p) \<le> pcap p" using inv s(1) by (auto simp: QL_inv_def)
  have sz: "ql_size ql = int (length (flat ps) + length (items p) + length (flat qs))"
    using inv s(1) by (simp add: QL_inv_def QL_abs_def)
  have pg: "it_page ql it = Some p" using s it by (simp add: it_page_def)
  have goal: ?thesis if "QL_Insert g ql i v = Some (ql\<lparr>ql_data := ps @ new @ qs, ql_size := ql_size ql + 1\<rparr>)"
      and "flat new = take k (items p) @ v # drop k (items p)"
      and "\<forall>q \<in> set new. items q \<noteq> [] \<and> length (items q) \<le> pcap q" for new
    using that pages sz k by (auto simp: QL_inv_def QL_abs_def)
  show ?thesis
  proof (cases "int (length (items p)) < pageSize")
    case True
    show ?thesis
      by (rule goal [of "[page_insert g p k v]"])
        (use True f i it s pg k page_insert_ok [of g p k v] in
          \<open>auto simp: QL_Insert_def ql_store_def page_insert_items\<close>)
  next
    case False
    then have big: "1024 \<le> length (items p)" by (simp add: pageSize_def)
    let ?p1 = "p\<lparr>items := take 512 (items p)\<rparr>"
    let ?p2 = "\<lparr>items = drop 512 (items p), pcap = append_cap g 0 (length (items p) - 512)\<rparr>"
    show ?thesis
    proof (cases "k < 512")
      case True
      show ?thesis
        by (rule goal [of "[page_insert g ?p1 k v, ?p2]"])
          (use True False big f i it s pg k page_insert_ok [of g ?p1 k v] in
            \<open>auto simp: QL_Insert_def page_insert_items pageSize_def Let_def min_def drop_take take_drop_join\<close>)
    next
      case k512: False
      show ?thesis
        by (rule goal [of "[?p1, page_insert g ?p2 (k - 512) v]"])
          (use k512 False big f i it s pg k p page_insert_ok [of g ?p2 "k - 512" v] in
            \<open>auto simp: QL_Insert_def page_insert_items pageSize_def Let_def min_def take_take_join\<close>)
    qed
  qed
qed

lemma QL_Insert_abs:
  assumes inv: "QL_inv ql"
  shows "case QL_Insert g ql i v of
      Some ql' \<Rightarrow> QL_inv ql' \<and> go_insert (QL_abs ql) i v = Some (QL_abs ql')
    | None \<Rightarrow> go_insert (QL_abs ql) i v = None"
proof -
  consider "i = ql_size ql" | "i \<noteq> ql_size ql" "\<not> (0 \<le> i \<and> i < ql_size ql)" | "0 \<le> i" "i < ql_size ql" by auto
  then show ?thesis
  proof cases
    case 1
    then show ?thesis using QL_Add_abs [OF inv, of v] by (simp add: QL_Insert_def go_insert_def QL_inv_size [OF inv])
  next
    case 2
    then show ?thesis
      using QL_find_None [OF inv, of i] by (auto simp: QL_Insert_def go_insert_def QL_inv_size [OF inv])
  next
    case 3
    then have i: "0 \<le> i" "i < int (length (QL_abs ql))" "i \<noteq> ql_size ql" by (auto simp: QL_inv_size [OF inv])
    obtain it where f: "QL_find ql i = Some it" and
      st: "stands ql it (take (nat i) (QL_abs ql)) (QL_abs ql ! nat i # drop (Suc (nat i)) (QL_abs ql))"
      using QL_find_cell [OF inv i(1,2)] by blast
    obtain ps p qs k where s: "ql_data ql = ps @ p # qs" "it_node it = Some (length ps)"
      "it_offset it = int k" "k < length (items p)" "take (nat i) (QL_abs ql) = flat ps @ take k (items p)"
      "QL_abs ql ! nat i = items p ! k" "drop (Suc (nat i)) (QL_abs ql) = drop (Suc k) (items p) @ flat qs"
      using stands_cell [OF st inv] .
    have "drop (nat i) (QL_abs ql) = drop k (items p) @ flat qs"
      using i s(4,6,7) by (simp add: Cons_nth_drop_Suc [symmetric])
    with QL_Insert_pages [OF inv s(1,4,2,3) f i(3), of g v] i s(5) show ?thesis
      by (auto simp: go_insert_def)
  qed
qed

lemma QL_Remove_abs:
  assumes inv: "QL_inv ql"
  shows "case QL_Remove ql i of
      Some (ql', v) \<Rightarrow> QL_inv ql' \<and> go_index (QL_abs ql) i = Some v \<and>
        QL_abs ql' = take (nat i) (QL_abs ql) @ drop (Suc (nat i)) (QL_abs ql)
    | None \<Rightarrow> go_index (QL_abs ql) i = None"
proof (cases "0 \<le> i \<and> i < int (length (QL_abs ql))")
  case True
  obtain it where f: "QL_find ql i = Some it" and
    st: "stands ql it (take (nat i) (QL_abs ql)) (QL_abs ql ! nat i # drop (Suc (nat i)) (QL_abs ql))"
    using QL_find_cell [OF inv] True by blast
  from it_remove_stands [OF inv st] f True show ?thesis
    by (auto simp: QL_Remove_def go_index_def dest: stands_abs)
qed (auto simp: QL_Remove_def QL_find_None [OF inv] go_index_def)

lemma QL_RemoveLast_abs:
  assumes inv: "QL_inv ql"
  shows "\<exists>ql'. QL_RemoveLast ql = Some (ql', if QL_abs ql = [] then None else Some (last (QL_abs ql))) \<and>
    QL_inv ql' \<and> QL_abs ql' = butlast (QL_abs ql)"
proof (cases "ql_data ql" rule: rev_cases)
  case Nil
  with inv show ?thesis by (simp add: QL_RemoveLast_def QL_Len_def QL_inv_def QL_abs_def)
next
  case (snoc ps p)
  then obtain vs v where v: "items p = vs @ [v]"
    using inv by (cases "items p" rule: rev_cases) (auto simp: QL_inv_def)
  with snoc inv show ?thesis
    by (cases vs rule: rev_cases)
      (auto simp: QL_RemoveLast_def QL_Len_def QL_inv_def QL_abs_def Let_def butlast_append
        go_index_def nat_add_distrib nth_append)
qed

lemma QL_RemoveByVal_abs:
  assumes inv: "QL_inv ql"
  shows "\<exists>ql'. QL_RemoveByVal f n ql = Some (ql', int (length (QL_abs ql)) - int (length (removeN f n (QL_abs ql))))
    \<and> QL_inv ql' \<and> QL_abs ql' = removeN f n (QL_abs ql)"
proof (cases "QL_abs ql = []")
  case False
  then obtain it where "QL_find ql 0 = Some it" "stands ql it [] (QL_abs ql)"
    using QL_find_stands [OF inv, of 0] by auto
  with removeByVal_loop_stands [OF inv this(2), of f n 0] False show ?thesis
    by (simp add: QL_RemoveByVal_def QL_inv_size [OF inv])
qed (use inv in \<open>simp add: QL_RemoveByVal_def QL_inv_size\<close>)

lemma QL_RemoveAllByVal_abs:
  assumes inv: "QL_inv ql" and "QL_abs ql \<noteq> []"
  shows "\<exists>ql'. QL_RemoveAllByVal f ql = Some (ql', int (length (filter f (QL_abs ql))))
    \<and> QL_inv ql' \<and> QL_abs ql' = filter (\<lambda>x. \<not> f x) (QL_abs ql)"
proof -
  obtain it where it: "QL_find ql 0 = Some it" "stands ql it [] (QL_abs ql)"
    using QL_find_stands [OF inv, of 0] assms(2) by auto
  have "int (length (QL_abs ql)) - int (length (filter (\<lambda>x. \<not> f x) (QL_abs ql))) = int (length (filter f (QL_abs ql)))"
    using sum_length_filter_compl [of f "QL_abs ql"] by linarith
  with it removeByVal_loop_stands [OF inv it(2), of f 0 0] show ?thesis
    by (simp add: QL_RemoveAllByVal_def removeAll_loop_eq [OF _ inv it(2), of 0] removeN_all)
qed

lemma QL_ReverseRemoveByVal_abs:
  assumes inv: "QL_inv ql"
  shows "\<exists>ql'. QL_ReverseRemoveByVal f n ql =
      Some (ql', int (length (QL_abs ql)) - int (length (removeN f n (rev (QL_abs ql)))))
    \<and> QL_inv ql' \<and> QL_abs ql' = rev (removeN f n (rev (QL_abs ql)))"
proof (cases "QL_abs ql" rule: rev_cases)
  case (snoc xs x)
  then obtain it where "QL_find ql (int (length xs)) = Some it" "stands ql it xs [x]"
    using QL_find_stands [OF inv, of "length xs"] by auto
  with reverseRemove_loop_stands [OF inv this(2), of f n 0] snoc show ?thesis
    by (simp add: QL_ReverseRemoveByVal_def QL_inv_size [OF inv])
qed (use inv in \<open>simp add: QL_ReverseRemoveByVal_def QL_inv_size\<close>)

lemma QL_ForEach_abs:
  assumes inv: "QL_inv ql"
  shows "QL_ForEach ql f s = Some (foreach f 0 (QL_abs ql) s)"
proof (cases "QL_abs ql")
  case (Cons y ys)
  then obtain it where "QL_find ql 0 = Some it" "stands ql it [] (y # ys)"
    using QL_find_stands [OF inv, of 0] by auto
  with forEach_loop_stands [OF inv this(2)] Cons show ?thesis
    by (simp add: QL_ForEach_def QL_Len_def QL_inv_size [OF inv])
qed (use inv in \<open>simp add: QL_ForEach_def QL_Len_def QL_inv_size\<close>)

lemma QL_Contains_abs: "QL_inv ql \<Longrightarrow> QL_Contains ql f = Some (\<exists>x \<in> set (QL_abs ql). f x)"
proof -
  have "foreach (\<lambda>c i x. if f x then (False, True) else (True, c)) i xs c \<longleftrightarrow> c \<or> (\<exists>x \<in> set xs. f x)" for i xs c
    by (induction xs arbitrary: i c) auto
  then show "QL_inv ql \<Longrightarrow> ?thesis" by (simp add: QL_Contains_def QL_ForEach_abs)
qed

lemma QL_Range_abs:
  assumes inv: "QL_inv ql"
  shows "QL_Range ql a b = (if 0 \<le> a \<and> a < int (length (QL_abs ql)) \<and> a \<le> b \<and> b \<le> int (length (QL_abs ql))
    then Some (take (nat b - nat a) (drop (nat a) (QL_abs ql))) else None)"
proof (cases "0 \<le> a \<and> a < int (length (QL_abs ql)) \<and> a \<le> b \<and> b \<le> int (length (QL_abs ql))")
  case True
  then have a: "nat a < length (QL_abs ql)" "int (nat a) = a" by auto
  obtain it where "QL_find ql a = Some it" "stands ql it (take (nat a) (QL_abs ql)) (drop (nat a) (QL_abs ql))"
    using QL_find_stands [OF inv a(1)] a(2) by auto
  moreover have n: "nat (b - a) \<le> length (drop (nat a) (QL_abs ql))" "nat (b - a) = nat b - nat a"
    using True by auto
  ultimately show ?thesis
    using True range_loop_stands [OF inv _ n(1), of it _ "[]"]
    by (auto simp: QL_Range_def QL_Len_def QL_inv_size [OF inv])
qed (auto simp: QL_Range_def QL_Len_def QL_inv_size [OF inv])

subsection \<open>QuickList provides the interface\<close>

definition QL_rep :: "'a QuickList \<Rightarrow> 'a list \<Rightarrow> bool" where
  "QL_rep ql xs \<longleftrightarrow> QL_inv ql \<and> QL_abs ql = xs"

fun QL_exec :: "(nat \<Rightarrow> nat \<Rightarrow> nat) \<Rightarrow> 'a QuickList \<Rightarrow> 'a list_op \<Rightarrow> ('a QuickList \<times> 'a list_ans) option" where
  "QL_exec g ql (LAdd v) = Some (QL_Add ql v, LUnit)"
| "QL_exec g ql (LGet i) = map_option (\<lambda>v. (ql, LVal v)) (QL_Get ql i)"
| "QL_exec g ql (LSet i v) = map_option (\<lambda>ql'. (ql', LUnit)) (QL_Set ql i v)"
| "QL_exec g ql (LInsert i v) = map_option (\<lambda>ql'. (ql', LUnit)) (QL_Insert g ql i v)"
| "QL_exec g ql (LRemove i) = map_option (\<lambda>(ql', v). (ql', LVal v)) (QL_Remove ql i)"
| "QL_exec g ql LRemoveLast = map_option (\<lambda>(ql', v). (ql', LOpt v)) (QL_RemoveLast ql)"
| "QL_exec g ql (LRemoveAllByVal f) = map_option (\<lambda>(ql', n). (ql', LNum n)) (QL_RemoveAllByVal f ql)"
| "QL_exec g ql (LRemoveByVal f n) = map_option (\<lambda>(ql', n). (ql', LNum n)) (QL_RemoveByVal f n ql)"
| "QL_exec g ql (LReverseRemoveByVal f n) = map_option (\<lambda>(ql', n). (ql', LNum n)) (QL_ReverseRemoveByVal f n ql)"
| "QL_exec g ql LLen = Some (ql, LNum (QL_Len ql))"
| "QL_exec g ql (LContains f) = map_option (\<lambda>b. (ql, LBool b)) (QL_Contains ql f)"
| "QL_exec g ql (LRange a b) = map_option (\<lambda>vs. (ql, LVals vs)) (QL_Range ql a b)"

lemma QL_exec_law:
  assumes inv: "QL_inv ql"
  shows "case QL_exec g ql c of None \<Rightarrow> list_spec (QL_abs ql) c = None
    | Some (ql', a) \<Rightarrow> QL_inv ql' \<and> list_spec (QL_abs ql) c = Some (QL_abs ql', a)"
proof (cases c)
  case (LSet i v)
  with QL_Set_abs [OF inv, of i v] show ?thesis by (auto split: option.splits)
next
  case (LInsert i v)
  with QL_Insert_abs [OF inv, where g = g and i = i and v = v] show ?thesis by (auto split: option.splits)
next
  case (LRemove i)
  with QL_Remove_abs [OF inv, of i] show ?thesis by (auto split: option.splits)
next
  case LRemoveLast
  with QL_RemoveLast_abs [OF inv] show ?thesis by auto
next
  case (LRemoveAllByVal f)
  with QL_RemoveAllByVal_abs [OF inv, of f] QL_find_None [OF inv, of 0] show ?thesis
    by (cases "QL_abs ql = []") (auto simp: QL_RemoveAllByVal_def)
next
  case (LRemoveByVal f n)
  with QL_RemoveByVal_abs [OF inv, of f n] show ?thesis by (auto simp: Let_def)
next
  case (LReverseRemoveByVal f n)
  with QL_ReverseRemoveByVal_abs [OF inv, of f n] show ?thesis by (auto simp: Let_def)
qed (use inv in \<open>auto simp: QL_Add_abs QL_Get_abs QL_Contains_abs QL_Range_abs QL_Len_def QL_inv_size
    split: option.splits\<close>)

interpretation ql: go_list "QL_exec g" QL_rep "\<lambda>xs c. True" NewQuickList for g
proof (unfold_locales, goal_cases)
  case 1
  then show ?case using QL_New by (simp add: QL_rep_def)
next
  case (2 l xs c)
  then show ?case using QL_exec_law [where ql = l and g = g and c = c] by (auto simp: QL_rep_def split: option.splits)
qed

lemma calls_ok_True: "calls_ok (\<lambda>xs c. True) xs cs"
  by (induction cs arbitrary: xs) (auto split: option.splits)

subsection \<open>Properties\<close>

text \<open>
  C10: the paged list is a list. Whatever calls a client makes on a new \<^verbatim>\<open>QuickList\<close>, the answers
  are those of the list functions, and a call panics exactly where the list function is undefined;
  in particular every loop ends. This holds for every policy by which the run time grows slices.
\<close>

theorem QuickList_refines_list:
  "list_run (QL_exec g) NewQuickList cs = list_run list_spec [] cs"
  by (rule ql.fresh_run [OF calls_ok_True])

end
