(* ===== verification/Database.thy ===== *)
theory Database
  imports Dict QuickList SortedSet Protocol
begin

text \<open>
  \<^verbatim>\<open>database/database.go\<close> and \<^verbatim>\<open>database/router.go\<close>: one database, its three dictionaries (values,
  expiration times, versions) and the operations that every command handler is built from.

  \<^item> A \<^verbatim>\<open>DataEntity\<close> is one of the five kinds of value. Handlers mutate a value through its pointer;
    here they compute the new value and put it back with \<open>store\<close>.
  \<^item> Points in time are nanoseconds since the Unix epoch; \<open>clock\<close> is what \<^verbatim>\<open>time.Now()\<close> returns while
    a command runs. Durations are 64-bit and wrap.
  \<^item> Everything a handler does besides changing the dictionaries is appended to the log \<open>out\<close>, in
    order: lines passed to \<^verbatim>\<open>addAof\<close>, timers set and cancelled, callbacks called.
  \<^item> A handler returns the new database and a reply; no reply is a run-time panic, which leaves the
    changes made before it in place. Handlers run after \<^verbatim>\<open>validateArity\<close> has checked the number of
    arguments, so they select guaranteed arguments with \<open>!\<close> and all others with bounds checks.
  \<^item> \<open>grow\<close> is the capacity policy of \<^verbatim>\<open>append\<close> and \<open>rands\<close> the sequence of random numbers; theorems
    quantify over both.
\<close>

subsection \<open>State\<close>

datatype 'f entity =
    EString bytes
  | EList "bytes QuickList"
  | EHash "bytes SimpleDict"
  | ESet "unit SimpleDict"
  | EZSet "'f SortedSet"

datatype 'f event =
    AddAof cmdline
  | TimerAt int string
  | TimerCancel string
  | KeyInserted int string "'f entity"
  | KeyDeleted int string "'f entity option"

record 'f DB =
  data :: "'f entity ConcurrentDict"
  ttlMap :: "int ConcurrentDict"
  versionMap :: "32 word ConcurrentDict"
  db_index :: int
  insertCallback :: bool
  deleteCallback :: bool
  clock :: int
  grow :: "nat \<Rightarrow> nat \<Rightarrow> nat"
  rands :: "nat \<Rightarrow> nat"
  drawn :: nat
  out :: "'f event list"

type_synonym 'f handler = "'f DB \<Rightarrow> cmdline \<Rightarrow> 'f DB \<times> reply option"

definition dataDictSize :: int where "dataDictSize = 2 ^ 16"
definition ttlDictSize :: int where "ttlDictSize = 2 ^ 10"

text \<open>A database over dictionaries with the given shard counts; \<^verbatim>\<open>makeDB\<close> uses the two constants.\<close>

definition makeDB_sized :: "int \<Rightarrow> int \<Rightarrow> (nat \<Rightarrow> nat \<Rightarrow> nat) \<Rightarrow> (nat \<Rightarrow> nat) \<Rightarrow> int \<Rightarrow> 'f DB" where
  "makeDB_sized dsize tsize g rnd now = \<lparr>data = MakeConcurrent dsize, ttlMap = MakeConcurrent tsize,
     versionMap = MakeConcurrent dsize, db_index = 0, insertCallback = False, deleteCallback = False,
     clock = now, grow = g, rands = rnd, drawn = 0, out = []\<rparr>"

definition makeDB :: "(nat \<Rightarrow> nat \<Rightarrow> nat) \<Rightarrow> (nat \<Rightarrow> nat) \<Rightarrow> int \<Rightarrow> 'f DB" where
  "makeDB g rnd now = makeDB_sized dataDictSize ttlDictSize g rnd now"

definition emit :: "'f event list \<Rightarrow> 'f DB \<Rightarrow> 'f DB" where
  "emit evs db = db\<lparr>out := out db @ evs\<rparr>"

definition addAof :: "cmdline \<Rightarrow> 'f DB \<Rightarrow> 'f DB" where
  "addAof line db = emit [AddAof line] db"

text \<open>A mutation of the value behind \<open>key\<close> through its pointer.\<close>

definition store :: "string \<Rightarrow> 'f entity \<Rightarrow> 'f DB \<Rightarrow> 'f DB" where
  "store key e db = db\<lparr>data := fst (CD_PutIfExistsWithLock (data db) key e)\<rparr>"

text \<open>The next value of \<^verbatim>\<open>rand\<close>.\<close>

definition draw :: "'f DB \<Rightarrow> nat \<times> 'f DB" where
  "draw db = (rands db (drawn db), db\<lparr>drawn := Suc (drawn db)\<rparr>)"

subsection \<open>Expiration\<close>

definition genExpireTask :: "string \<Rightarrow> string" where
  "genExpireTask key = ''expire:'' @ key"

definition Persist :: "string \<Rightarrow> 'f DB \<Rightarrow> 'f DB" where
  "Persist key db = emit [TimerCancel (genExpireTask key)] (db\<lparr>ttlMap := fst (CD_Remove (ttlMap db) key)\<rparr>)"

definition Expire :: "string \<Rightarrow> int \<Rightarrow> 'f DB \<Rightarrow> 'f DB" where
  "Expire key expireTime db =
     emit [TimerAt expireTime (genExpireTask key)] (db\<lparr>ttlMap := fst (CD_Put (ttlMap db) key expireTime)\<rparr>)"

definition Remove :: "string \<Rightarrow> 'f DB \<Rightarrow> 'f DB" where
  "Remove key db =
     (case CD_RemoveWithLock (data db) key of (d, raw, deleted) \<Rightarrow>
        let db = db\<lparr>data := d, ttlMap := fst (CD_Remove (ttlMap db) key)\<rparr>;
            db = emit [TimerCancel (genExpireTask key)] db
        in if deleteCallback db
           then emit [KeyDeleted (db_index db) key (if deleted > 0 then raw else None)] db else db)"

definition IsExpired :: "string \<Rightarrow> 'f DB \<Rightarrow> 'f DB \<times> bool" where
  "IsExpired key db =
     (case CD_Get (ttlMap db) key of
        None \<Rightarrow> (db, False)
      | Some expireTime \<Rightarrow>
          let expired = clock db > expireTime in (if expired then Remove key db else db, expired))"

text \<open>The task that the time wheel runs when the timer of a key fires.\<close>

definition expire_task :: "string \<Rightarrow> 'f DB \<Rightarrow> 'f DB" where
  "expire_task key db =
     (case CD_Get (ttlMap db) key of
        None \<Rightarrow> db
      | Some expireTime \<Rightarrow> if clock db > expireTime then Remove key db else db)"

subsection \<open>Data access\<close>

definition GetEntity :: "'f DB \<Rightarrow> string \<Rightarrow> 'f DB \<times> 'f entity option" where
  "GetEntity db key =
     (case CD_GetWithLock (data db) key of
        None \<Rightarrow> (db, None)
      | Some raw \<Rightarrow> (case IsExpired key db of (db, expired) \<Rightarrow> if expired then (db, None) else (db, Some raw)))"

definition PutEntity :: "string \<Rightarrow> 'f entity \<Rightarrow> 'f DB \<Rightarrow> 'f DB \<times> int" where
  "PutEntity key e db =
     (case CD_PutWithLock (data db) key e of (d, ret) \<Rightarrow>
        let db = db\<lparr>data := d\<rparr> in
        (if ret > 0 \<and> insertCallback db then emit [KeyInserted (db_index db) key e] db else db, ret))"

definition PutIfExists :: "string \<Rightarrow> 'f entity \<Rightarrow> 'f DB \<Rightarrow> 'f DB \<times> int" where
  "PutIfExists key e db =
     (case CD_PutIfExistsWithLock (data db) key e of (d, ret) \<Rightarrow> (db\<lparr>data := d\<rparr>, ret))"

definition PutIfAbsent :: "string \<Rightarrow> 'f entity \<Rightarrow> 'f DB \<Rightarrow> 'f DB \<times> int" where
  "PutIfAbsent key e db =
     (case CD_PutIfAbsentWithLock (data db) key e of (d, ret) \<Rightarrow>
        let db = db\<lparr>data := d\<rparr> in
        (if ret > 0 \<and> insertCallback db then emit [KeyInserted (db_index db) key e] db else db, ret))"

fun Removes :: "string list \<Rightarrow> 'f DB \<Rightarrow> 'f DB \<times> int" where
  "Removes [] db = (db, 0)"
| "Removes (key # keys) db =
     (if CD_GetWithLock (data db) key \<noteq> None
      then (case Removes keys (Remove key db) of (db, n) \<Rightarrow> (db, n + 1))
      else Removes keys db)"

definition Flush :: "'f DB \<Rightarrow> 'f DB" where
  "Flush db = db\<lparr>data := CD_Clear (data db), ttlMap := CD_Clear (ttlMap db)\<rparr>"

subsection \<open>Versions\<close>

definition GetVersion :: "'f DB \<Rightarrow> string \<Rightarrow> 32 word" where
  "GetVersion db key = (case CD_Get (versionMap db) key of None \<Rightarrow> 0 | Some v \<Rightarrow> v)"

fun addVersion :: "string list \<Rightarrow> 'f DB \<Rightarrow> 'f DB" where
  "addVersion [] db = db"
| "addVersion (key # keys) db =
     addVersion keys (db\<lparr>versionMap := fst (CD_Put (versionMap db) key (GetVersion db key + 1))\<rparr>)"

text \<open>
  \<^verbatim>\<open>DB.ForEach\<close>: the consumer sees every key with its value and expiration time; its state is
  threaded through.
\<close>

definition DB_ForEach :: "'f DB \<Rightarrow> ('s \<Rightarrow> string \<Rightarrow> 'f entity \<Rightarrow> int option \<Rightarrow> bool \<times> 's) \<Rightarrow> 's \<Rightarrow> 's" where
  "DB_ForEach db cb s = CD_ForEach (data db) (\<lambda>s key raw. cb s key raw (CD_Get (ttlMap db) key)) s"

subsection \<open>Commands\<close>

text \<open>
  The prepare function of a command computes the keys it writes and the keys it reads; the undo
  function looks at the database before the command runs and answers the command lines that take it
  back.
\<close>

record 'f command =
  cmd_executor :: "'f handler"
  cmd_prepare :: "cmdline \<Rightarrow> string list \<times> string list"
  cmd_undo :: "('f DB \<Rightarrow> cmdline \<Rightarrow> 'f DB \<times> cmdline list option) option"
  cmd_arity :: int
  cmd_flags :: int

type_synonym 'f table = "string \<Rightarrow> 'f command option"

definition flagWrite :: int where "flagWrite = 0"
definition flagReadOnly :: int where "flagReadOnly = 1"

definition validateArity :: "int \<Rightarrow> cmdline \<Rightarrow> bool" where
  "validateArity arity cmdArgs = (let argNum = int (length cmdArgs) in
     if arity \<ge> 0 then argNum = arity else argNum \<ge> - arity)"

definition unknown_command :: "string \<Rightarrow> reply" where
  "unknown_command cmdName = StandardErrReply (''ERR unknown command '' @ [CHR 0x27] @ cmdName @ [CHR 0x27])"

definition execNormalCommand :: "'f table \<Rightarrow> 'f handler" where
  "execNormalCommand cmdTable db cmdLine =
     (case cmdLine of
        [] \<Rightarrow> (db, None)
      | c # args \<Rightarrow>
          let cmdName = ToLower (str c) in
          case cmdTable cmdName of
            None \<Rightarrow> (db, Some (unknown_command cmdName))
          | Some cmd \<Rightarrow>
              if \<not> validateArity (cmd_arity cmd) cmdLine then (db, Some (ArgNumErrReply cmdName))
              else (case cmd_prepare cmd args of (write, read) \<Rightarrow>
                cmd_executor cmd (addVersion write db) args))"

definition execWithLock :: "'f table \<Rightarrow> 'f handler" where
  "execWithLock cmdTable db cmdLine =
     (case cmdLine of
        [] \<Rightarrow> (db, None)
      | c # args \<Rightarrow>
          let cmdName = ToLower (str c) in
          case cmdTable cmdName of
            None \<Rightarrow> (db, Some (unknown_command cmdName))
          | Some cmd \<Rightarrow>
              if \<not> validateArity (cmd_arity cmd) cmdLine then (db, Some (ArgNumErrReply cmdName))
              else cmd_executor cmd db args)"

definition isReadOnlyCommand :: "'f table \<Rightarrow> string \<Rightarrow> bool" where
  "isReadOnlyCommand cmdTable name =
     (case cmdTable (ToLower name) of None \<Rightarrow> False | Some cmd \<Rightarrow> cmd_flags cmd mod 2 = 1)"

subsection \<open>Prepare functions\<close>

definition readFirstKey :: "cmdline \<Rightarrow> string list \<times> string list" where
  "readFirstKey args = ([], [str (args ! 0)])"

definition writeFirstKey :: "cmdline \<Rightarrow> string list \<times> string list" where
  "writeFirstKey args = ([str (args ! 0)], [])"

definition writeAllKeys :: "cmdline \<Rightarrow> string list \<times> string list" where
  "writeAllKeys args = (map str args, [])"

definition readAllKeys :: "cmdline \<Rightarrow> string list \<times> string list" where
  "readAllKeys args = ([], map str args)"

definition noPrepare :: "cmdline \<Rightarrow> string list \<times> string list" where
  "noPrepare args = ([], [])"

subsection \<open>Command lines\<close>

definition ToCmdLine :: "string list \<Rightarrow> cmdline" where
  "ToCmdLine cmd = map Some cmd"

definition ToCmdLine3 :: "string \<Rightarrow> cmdline \<Rightarrow> cmdline" where
  "ToCmdLine3 commandName args = Some commandName # args"

text \<open>
  \<^verbatim>\<open>time.Unix(sec, 0)\<close>: the seconds are stored relative to year 1 in 64 bits. \<^verbatim>\<open>UnixNano\<close> wraps;
  \<open>addDuration\<close> is \<^verbatim>\<open>time.Now().Add\<close> of a duration counted in milliseconds.
\<close>

definition unixToInternal :: int where "unixToInternal = 62135596800"

definition time_Unix :: "int \<Rightarrow> int" where
  "time_Unix sec = (wrap64 (sec + unixToInternal) - unixToInternal) * 10 ^ 9"

definition UnixNano :: "int \<Rightarrow> int" where
  "UnixNano t = wrap64 t"

definition after_ms :: "'f DB \<Rightarrow> int \<Rightarrow> int" where
  "after_ms db ms = clock db + wrap64 (ms * 10 ^ 6)"

definition MakeExpireCmd :: "string \<Rightarrow> int \<Rightarrow> cmdline" where
  "MakeExpireCmd key expireAt = [Some ''PEXPIREAT'', Some key, Some (FormatInt (quot (UnixNano expireAt) (10 ^ 6)))]"

subsection \<open>Well-formedness and the live view\<close>

fun entity_ok :: "('f :: linorder) entity \<Rightarrow> bool" where
  "entity_ok (EString b) = True"
| "entity_ok (EList l) = QL_inv l"
| "entity_ok (EHash d) = SD_inv d"
| "entity_ok (ESet d) = SD_inv d"
| "entity_ok (EZSet z) = (\<exists>es. SS_rep z es)"

text \<open>
  The dictionaries are well formed, every value is, and only keys that have a value have an
  expiration time.
\<close>

definition DB_ok :: "('f :: linorder) DB \<Rightarrow> bool" where
  "DB_ok db \<longleftrightarrow> CD_inv (data db) \<and> CD_inv (ttlMap db) \<and> CD_inv (versionMap db) \<and>
     (\<forall>k e. CD_Get (data db) k = Some e \<longrightarrow> entity_ok e) \<and>
     (\<forall>k. CD_Get (ttlMap db) k \<noteq> None \<longrightarrow> CD_Get (data db) k \<noteq> None)"

text \<open>What a client can see of a key: its value and expiration time, unless it has expired.\<close>

definition live :: "'f DB \<Rightarrow> string \<Rightarrow> ('f entity \<times> int option) option" where
  "live db k = (case CD_Get (data db) k of
     None \<Rightarrow> None
   | Some e \<Rightarrow> (case CD_Get (ttlMap db) k of
       None \<Rightarrow> Some (e, None)
     | Some t \<Rightarrow> if clock db > t then None else Some (e, Some t)))"

text \<open>The database after a look at a key.\<close>

definition touch :: "string \<Rightarrow> 'f DB \<Rightarrow> 'f DB" where
  "touch key db = (if CD_Get (data db) key \<noteq> None \<and> live db key = None then Remove key db else db)"

text \<open>
  \<open>within K db0 db\<close>: between \<open>db0\<close> and \<open>db\<close> only the keys in \<open>K\<close> have changed for the clients. \<open>logged\<close>:
  something was passed on to the append-only file. \<open>outcome\<close> is what a handler promises: it
  changes at most the keys it declares, and any change is logged.
\<close>

definition within :: "string set \<Rightarrow> ('f :: linorder) DB \<Rightarrow> 'f DB \<Rightarrow> bool" where
  "within K db0 db \<longleftrightarrow> DB_ok db \<and> clock db = clock db0 \<and> versionMap db = versionMap db0 \<and>
     (\<exists>evs. out db = out db0 @ evs) \<and> (\<forall>k. k \<notin> K \<longrightarrow> live db k = live db0 k)"

definition logged :: "'f DB \<Rightarrow> 'f DB \<Rightarrow> bool" where
  "logged db0 db \<longleftrightarrow> (\<exists>evs line. out db = out db0 @ evs \<and> AddAof line \<in> set evs)"

definition outcome :: "string set \<Rightarrow> ('f :: linorder) DB \<Rightarrow> 'f DB \<Rightarrow> bool" where
  "outcome K db0 db \<longleftrightarrow> within {} db0 db \<or> within K db0 db \<and> logged db0 db"

section \<open>Lemmas\<close>

subsection \<open>Dictionaries as maps\<close>

lemma CD_Get_entries: "CD_inv d \<Longrightarrow> CD_Get d k = map_of (concat (table d)) k"
  by (simp add: CD_Get_def CD_lookup)

lemma CD_inv_Put [simp]: "CD_inv d \<Longrightarrow> CD_inv (fst (CD_Put d k v))"
  using CD_Put_law [of d k v "fst (CD_Put d k v)" "snd (CD_Put d k v)"] by simp

lemma CD_Get_Put [simp]:
  "CD_inv d \<Longrightarrow> CD_Get (fst (CD_Put d k v)) k' = (if k' = k then Some v else CD_Get d k')"
  using CD_Put_law [of d k v "fst (CD_Put d k v)" "snd (CD_Put d k v)"] by (simp add: CD_Get_entries)

lemma snd_CD_Put [simp]: "snd (CD_Put d k v) = (if CD_Get d k = None then 1 else 0)"
  by (simp add: CD_Put_def CD_Get_def Let_def)

lemma CD_PutIfAbsent_eq: "CD_PutIfAbsent d k v = (if CD_Get d k = None then (fst (CD_Put d k v), 1) else (d, 0))"
  by (simp add: CD_Put_def CD_PutIfAbsent_def CD_Get_def Let_def addCount_setShard)

lemma CD_PutIfExists_eq: "CD_PutIfExists d k v = (if CD_Get d k = None then (d, 0) else (fst (CD_Put d k v), 1))"
  by (simp add: CD_Put_def CD_PutIfExists_def CD_Get_def Let_def)

lemma CD_inv_Remove [simp]: "CD_inv d \<Longrightarrow> CD_inv (fst (CD_Remove d k))"
  using CD_Remove_law [of d k "fst (CD_Remove d k)" "fst (snd (CD_Remove d k))" "snd (snd (CD_Remove d k))"] by simp

lemma CD_Get_Remove [simp]:
  "CD_inv d \<Longrightarrow> CD_Get (fst (CD_Remove d k)) k' = (if k' = k then None else CD_Get d k')"
  using CD_Remove_law [of d k "fst (CD_Remove d k)" "fst (snd (CD_Remove d k))" "snd (snd (CD_Remove d k))"]
  by (simp add: CD_Get_entries)

lemma snd_CD_Remove [simp]:
  "snd (CD_Remove d k) = (CD_Get d k, if CD_Get d k = None then 0 else 1)"
  by (simp add: CD_Remove_def CD_Get_def Let_def split: option.splits)

lemma CD_Clear_empty [simp]: "CD_inv d \<Longrightarrow> CD_inv (CD_Clear d)" "CD_inv d \<Longrightarrow> CD_Get (CD_Clear d) k = None"
  by (simp_all add: CD_Clear_def CD_inv_Clear CD_Get_entries CD_Make_entries)

lemma CD_Get_Make [simp]: "sc \<le> 2 ^ 32 \<Longrightarrow> CD_Get (MakeConcurrent sc) k = None"
  by (simp add: CD_Get_entries CD_inv_Make CD_Make_entries)

subsection \<open>The fields an operation changes\<close>

lemma emit_sel [simp]:
  "data (emit evs db) = data db" "ttlMap (emit evs db) = ttlMap db" "versionMap (emit evs db) = versionMap db"
  "clock (emit evs db) = clock db" "grow (emit evs db) = grow db" "rands (emit evs db) = rands db"
  "drawn (emit evs db) = drawn db" "db_index (emit evs db) = db_index db"
  "insertCallback (emit evs db) = insertCallback db" "deleteCallback (emit evs db) = deleteCallback db"
  "out (emit evs db) = out db @ evs"
  by (simp_all add: emit_def)

lemma Remove_sel [simp]:
  "data (Remove key db) = fst (CD_Remove (data db) key)"
  "ttlMap (Remove key db) = fst (CD_Remove (ttlMap db) key)"
  "versionMap (Remove key db) = versionMap db" "clock (Remove key db) = clock db"
  "\<exists>evs. out (Remove key db) = out db @ evs"
  by (simp_all add: Remove_def Let_def split: prod.splits)

lemma PutEntity_sel [simp]:
  "data (fst (PutEntity key e db)) = fst (CD_Put (data db) key e)"
  "ttlMap (fst (PutEntity key e db)) = ttlMap db"
  "versionMap (fst (PutEntity key e db)) = versionMap db" "clock (fst (PutEntity key e db)) = clock db"
  "\<exists>evs. out (fst (PutEntity key e db)) = out db @ evs"
  "snd (PutEntity key e db) = (if CD_Get (data db) key = None then 1 else 0)"
  using snd_CD_Put [of "data db" key e]
  by (auto simp: PutEntity_def Let_def simp del: snd_CD_Put split: prod.splits)

lemma live_cong: "CD_Get (data db) k = CD_Get (data db') k \<Longrightarrow> CD_Get (ttlMap db) k = CD_Get (ttlMap db') k \<Longrightarrow>
    clock db = clock db' \<Longrightarrow> live db k = live db' k"
  by (simp add: live_def split: option.split)

lemma live_emit [simp]: "live (emit evs db) = live db"
  by (rule ext, rule live_cong) simp_all

lemma DB_ok_emit [simp]: "DB_ok (emit evs db) = DB_ok db"
  by (simp add: DB_ok_def)

lemma DB_ok_makeDB_sized: "ds \<le> 2 ^ 32 \<Longrightarrow> ts \<le> 2 ^ 32 \<Longrightarrow> DB_ok (makeDB_sized ds ts g rnd now)"
  by (simp add: DB_ok_def makeDB_sized_def CD_inv_Make)

lemma DB_okD:
  assumes "DB_ok db"
  shows "CD_inv (data db)" "CD_inv (ttlMap db)" "CD_inv (versionMap db)"
    "CD_Get (data db) k = Some e \<Longrightarrow> entity_ok e"
    "CD_Get (data db) k = None \<Longrightarrow> CD_Get (ttlMap db) k = None"
  using assms by (auto simp: DB_ok_def)

lemma live_None: "live db k = None \<longleftrightarrow> CD_Get (data db) k = None \<or> (\<exists>t. CD_Get (ttlMap db) k = Some t \<and> t < clock db)"
  by (auto simp: live_def split: option.split)

lemma live_Some: "live db k = Some (e, t) \<longleftrightarrow> CD_Get (data db) k = Some e \<and> CD_Get (ttlMap db) k = t \<and>
    (\<forall>t'. t = Some t' \<longrightarrow> clock db \<le> t')"
  by (auto simp: live_def split: option.split)

subsection \<open>Every operation changes only its key\<close>

lemma within_refl: "DB_ok db \<Longrightarrow> within K db db"
  by (simp add: within_def)

lemma within_mono: "within K db0 db \<Longrightarrow> K \<subseteq> L \<Longrightarrow> within L db0 db"
  by (auto simp: within_def)

lemma within_trans: "within K a b \<Longrightarrow> within K b c \<Longrightarrow> within K a c"
  by (auto simp: within_def)

lemma within_ok: "within K db0 db \<Longrightarrow> DB_ok db"
  by (simp add: within_def)

lemma within_emit [intro]: "within K db0 db \<Longrightarrow> within K db0 (emit evs db)"
  by (auto simp: within_def)

text \<open>An operation on one key, after any others.\<close>

lemma within_op: "within K db0 db \<Longrightarrow> (DB_ok db \<Longrightarrow> within {key} db db') \<Longrightarrow> key \<in> K \<Longrightarrow> within K db0 db'"
  by (meson empty_subsetI insert_subset within_mono within_ok within_trans)

lemma withinI:
  assumes "DB_ok db'" and "clock db' = clock db" and "versionMap db' = versionMap db"
    and "\<exists>evs. out db' = out db @ evs"
    and "\<And>k. k \<noteq> key \<Longrightarrow> CD_Get (data db') k = CD_Get (data db) k \<and> CD_Get (ttlMap db') k = CD_Get (ttlMap db) k"
  shows "within {key} db db'"
  using assms live_cong [of db' _ db] by (simp add: within_def)

lemma DB_ok_Remove: "DB_ok db \<Longrightarrow> DB_ok (Remove key db)"
  by (auto simp: DB_ok_def)

lemma live_Remove: "DB_ok db \<Longrightarrow> live (Remove key db) = (live db)(key := None)"
  by (rule ext) (auto simp: DB_ok_def live_None intro: live_cong)

lemma within_Remove [intro]: "within K db0 db \<Longrightarrow> key \<in> K \<Longrightarrow> within K db0 (Remove key db)"
  by (erule within_op) (rule withinI, simp_all add: DB_ok_Remove DB_okD)

lemma DB_ok_PutEntity: "DB_ok db \<Longrightarrow> entity_ok e \<Longrightarrow> DB_ok (fst (PutEntity key e db))"
  by (auto simp: DB_ok_def split: if_splits)

lemma within_PutEntity [intro]:
  "within K db0 db \<Longrightarrow> key \<in> K \<Longrightarrow> entity_ok e \<Longrightarrow> within K db0 (fst (PutEntity key e db))"
  by (erule within_op) (rule withinI, simp_all add: DB_ok_PutEntity DB_okD)

lemma PutIfExists_eq:
  "PutIfExists key e db = (if CD_Get (data db) key = None then (db, 0) else (db\<lparr>data := fst (CD_Put (data db) key e)\<rparr>, 1))"
  by (simp add: PutIfExists_def CD_PutIfExists_eq)

lemma DB_ok_data: "DB_ok db \<Longrightarrow> entity_ok e \<Longrightarrow> DB_ok (db\<lparr>data := fst (CD_Put (data db) key e)\<rparr>)"
  by (auto simp: DB_ok_def split: if_splits)

lemma within_PutIfExists [intro]:
  "within K db0 db \<Longrightarrow> key \<in> K \<Longrightarrow> entity_ok e \<Longrightarrow> within K db0 (fst (PutIfExists key e db))"
  by (erule within_op) (rule withinI, simp_all add: PutIfExists_eq DB_ok_data DB_okD)

lemma store_eq: "store key e db = fst (PutIfExists key e db)"
  by (simp add: store_def PutIfExists_def split: prod.split)

lemma within_store [intro]: "within K db0 db \<Longrightarrow> key \<in> K \<Longrightarrow> entity_ok e \<Longrightarrow> within K db0 (store key e db)"
  unfolding store_eq by (rule within_PutIfExists)

lemma PutIfAbsent_eq:
  "PutIfAbsent key e db = (if CD_Get (data db) key = None then (fst (PutEntity key e db), 1) else (db, 0))"
proof (cases "CD_Get (data db) key")
  case None
  obtain d n where p: "CD_Put (data db) key e = (d, n)" by (cases "CD_Put (data db) key e")
  with None snd_CD_Put [of "data db" key e] have "n = 1" by simp
  with None p show ?thesis by (simp add: PutIfAbsent_def PutEntity_def CD_PutIfAbsent_eq Let_def)
next
  case (Some x)
  then show ?thesis by (simp add: PutIfAbsent_def CD_PutIfAbsent_eq)
qed

lemma within_PutIfAbsent [intro]:
  "within K db0 db \<Longrightarrow> key \<in> K \<Longrightarrow> entity_ok e \<Longrightarrow> within K db0 (fst (PutIfAbsent key e db))"
  by (simp add: PutIfAbsent_eq within_PutEntity)

lemma Persist_sel [simp]:
  "data (Persist key db) = data db" "ttlMap (Persist key db) = fst (CD_Remove (ttlMap db) key)"
  "versionMap (Persist key db) = versionMap db" "clock (Persist key db) = clock db"
  "\<exists>evs. out (Persist key db) = out db @ evs"
  by (simp_all add: Persist_def)

lemma DB_ok_Persist: "DB_ok db \<Longrightarrow> DB_ok (Persist key db)"
  by (auto simp: DB_ok_def)

lemma within_Persist [intro]: "within K db0 db \<Longrightarrow> key \<in> K \<Longrightarrow> within K db0 (Persist key db)"
  by (erule within_op) (rule withinI, simp_all add: DB_ok_Persist DB_okD)

text \<open>An expiration time may only be set on a key that has a value.\<close>

lemma Expire_sel [simp]:
  "data (Expire key t db) = data db" "ttlMap (Expire key t db) = fst (CD_Put (ttlMap db) key t)"
  "versionMap (Expire key t db) = versionMap db" "clock (Expire key t db) = clock db"
  "\<exists>evs. out (Expire key t db) = out db @ evs"
  by (simp_all add: Expire_def)

lemma DB_ok_Expire: "DB_ok db \<Longrightarrow> CD_Get (data db) key \<noteq> None \<Longrightarrow> DB_ok (Expire key t db)"
  by (auto simp: DB_ok_def split: if_splits)

lemma within_Expire [intro]:
  "within K db0 db \<Longrightarrow> key \<in> K \<Longrightarrow> CD_Get (data db) key \<noteq> None \<Longrightarrow> within K db0 (Expire key t db)"
  by (erule within_op) (rule withinI, simp_all add: DB_ok_Expire DB_okD)

lemma live_drawn [simp]: "live (db\<lparr>drawn := n\<rparr>) = live db"
  by (rule ext, rule live_cong) simp_all

lemma within_draw [intro]: "within K db0 db \<Longrightarrow> within K db0 (snd (draw db))"
  by (auto simp: within_def draw_def DB_ok_def)

subsection \<open>Expired keys\<close>

text \<open>
  Looking at a key answers exactly what is live, and removing an expired key on the way is
  invisible.
\<close>

lemma live_Remove_expired: "DB_ok db \<Longrightarrow> live db key = None \<Longrightarrow> live (Remove key db) = live db"
  by (auto simp: live_Remove fun_eq_iff)

lemma IsExpired_fst:
  "DB_ok db \<Longrightarrow> fst (IsExpired key db) = (if CD_Get (data db) key \<noteq> None \<and> live db key = None then Remove key db else db)"
  by (auto simp: IsExpired_def live_None Let_def split: option.split dest: DB_okD(5))

lemma IsExpired_snd: "DB_ok db \<Longrightarrow> snd (IsExpired key db) = (CD_Get (data db) key \<noteq> None \<and> live db key = None)"
  by (auto simp: IsExpired_def live_None Let_def split: option.split dest: DB_okD(5))

lemma DB_ok_touch [simp]: "DB_ok db \<Longrightarrow> DB_ok (touch key db)"
  by (simp add: touch_def DB_ok_Remove)

lemma live_touch [simp]: "DB_ok db \<Longrightarrow> live (touch key db) = live db"
  by (simp add: touch_def live_Remove_expired)

lemma touch_sel [simp]: "clock (touch key db) = clock db" "versionMap (touch key db) = versionMap db"
  "\<exists>evs. out (touch key db) = out db @ evs"
  by (simp_all add: touch_def)

lemma data_touch:
  assumes "DB_ok db"
  shows "CD_Get (data (touch key db)) k = (if k = key then map_option fst (live db key) else CD_Get (data db) k)"
proof (cases "live db key")
  case None
  with assms show ?thesis by (cases "CD_Get (data db) key") (simp_all add: touch_def DB_okD)
next
  case (Some p)
  with live_Some [of db key "fst p" "snd p"] have "CD_Get (data db) key = Some (fst p)" by simp
  with Some show ?thesis by (simp add: touch_def)
qed

lemma ttl_touch:
  assumes "DB_ok db"
  shows "CD_Get (ttlMap (touch key db)) k = (if k = key then Option.bind (live db key) snd else CD_Get (ttlMap db) k)"
proof (cases "live db key")
  case None
  with assms DB_okD(5) [OF assms, of key] show ?thesis
    by (cases "CD_Get (data db) key") (simp_all add: touch_def DB_okD)
next
  case (Some p)
  with live_Some [of db key "fst p" "snd p"] have "CD_Get (ttlMap db) key = snd p" by simp
  with Some show ?thesis by (simp add: touch_def)
qed

lemma within_touch [intro]: "within K db0 db \<Longrightarrow> within K db0 (touch key db)"
proof -
  assume w: "within K db0 db"
  obtain evs where "out (touch key db) = out db @ evs" using touch_sel(3) by blast
  with w show ?thesis by (auto simp: within_def)
qed

lemma GetEntity_eq [simp]:
  assumes "DB_ok db"
  shows "GetEntity db key = (touch key db, map_option fst (live db key))"
proof (cases "CD_Get (data db) key")
  case None
  then have "live db key = None" by (simp add: live_None)
  with None show ?thesis by (simp add: GetEntity_def touch_def)
next
  case (Some e)
  obtain db' b where i: "IsExpired key db = (db', b)" by (cases "IsExpired key db")
  with IsExpired_fst [OF assms, of key] IsExpired_snd [OF assms, of key] Some
  have "db' = touch key db" "b = (live db key = None)" by (auto simp: touch_def)
  moreover have "fst p = e" if "live db key = Some p" for p using that Some by (cases p) (simp add: live_Some)
  ultimately show ?thesis using i Some by (auto simp: GetEntity_def)
qed

lemma live_entity_ok: "DB_ok db \<Longrightarrow> live db key = Some (e, t) \<Longrightarrow> entity_ok e"
  by (auto simp: live_Some DB_okD(4))

lemma data_touch_live: "DB_ok db \<Longrightarrow> live db key = Some p \<Longrightarrow> CD_Get (data (touch key db)) key \<noteq> None"
  by (simp add: data_touch)

subsection \<open>Outcomes of handlers\<close>

lemma logged_addAof [simp]: "within K db0 db \<Longrightarrow> logged db0 (addAof line db)"
  by (auto simp: logged_def addAof_def within_def)

lemma within_addAof [intro]: "within K db0 db \<Longrightarrow> within K db0 (addAof line db)"
  by (auto simp: addAof_def)

lemma logged_addAof2: "logged db0 db \<Longrightarrow> logged db0 (addAof line db)"
  by (auto simp: logged_def addAof_def)

lemma outcome_read: "within {} db0 db \<Longrightarrow> outcome K db0 db"
  by (simp add: outcome_def)

lemma outcome_logged: "within K db0 db \<Longrightarrow> outcome K db0 (addAof line db)"
  by (auto simp: outcome_def)

lemma live_addAof [simp]: "live (addAof line db) = live db"
  by (simp add: addAof_def)

lemma DB_ok_addAof [simp]: "DB_ok (addAof line db) = DB_ok db"
  by (simp add: addAof_def)

lemma addAof_sel [simp]:
  "data (addAof l db) = data db" "ttlMap (addAof l db) = ttlMap db" "versionMap (addAof l db) = versionMap db"
  "clock (addAof l db) = clock db" "out (addAof l db) = out db @ [AddAof l]"
  by (simp_all add: addAof_def)

subsection \<open>The live view after an operation\<close>

lemma live_PutEntity:
  assumes "DB_ok db"
  shows "live (fst (PutEntity key e db)) = (live db)(key := (case CD_Get (ttlMap db) key of
    None \<Rightarrow> Some (e, None) | Some t \<Rightarrow> if clock db > t then None else Some (e, Some t)))"
proof (rule ext)
  fix k
  show "live (fst (PutEntity key e db)) k = ((live db)(key := (case CD_Get (ttlMap db) key of
    None \<Rightarrow> Some (e, None) | Some t \<Rightarrow> if clock db > t then None else Some (e, Some t)))) k"
    using assms by (cases "k = key") (simp_all add: DB_okD live_def split: option.split)
qed

lemma live_Persist:
  assumes "DB_ok db"
  shows "live (Persist key db) = (live db)(key := map_option (\<lambda>e. (e, None)) (CD_Get (data db) key))"
proof (rule ext)
  fix k
  show "live (Persist key db) k = ((live db)(key := map_option (\<lambda>e. (e, None)) (CD_Get (data db) key))) k"
    using assms by (cases "k = key") (simp_all add: DB_okD live_def split: option.split)
qed

lemma live_Expire:
  assumes "DB_ok db"
  shows "live (Expire key t db) = (live db)(key := (if clock db > t then None
    else map_option (\<lambda>e. (e, Some t)) (CD_Get (data db) key)))"
proof (rule ext)
  fix k
  show "live (Expire key t db) k = ((live db)(key := (if clock db > t then None
    else map_option (\<lambda>e. (e, Some t)) (CD_Get (data db) key)))) k"
    using assms by (cases "k = key") (simp_all add: DB_okD live_def split: option.split)
qed

lemma live_store:
  assumes "DB_ok db" and "live db key = Some (e0, t)"
  shows "live (store key e db) = (live db)(key \<mapsto> (e, t))"
proof (rule ext)
  fix k
  from assms(2) have d: "CD_Get (data db) key = Some e0" "CD_Get (ttlMap db) key = t"
    "\<And>t'. t = Some t' \<Longrightarrow> \<not> t' < clock db" by (auto simp: live_Some)
  show "live (store key e db) k = ((live db)(key \<mapsto> (e, t))) k"
  proof (cases "k = key")
    case True
    with d assms(1) show ?thesis
      by (cases t) (simp_all add: store_eq PutIfExists_eq DB_okD live_def)
  next
    case False
    with d assms(1) show ?thesis
      by (simp add: store_eq PutIfExists_eq DB_okD live_def split: option.split)
  qed
qed

text \<open>A value stored over a key that is not expired, or that has been looked up before.\<close>

lemma live_put_touch:
  assumes "DB_ok db"
  shows "live (fst (PutEntity key e (touch key db))) = (live db)(key \<mapsto> (e, Option.bind (live db key) snd))"
proof -
  have "clock db \<le> t" if "live db key = Some (x, Some t)" for x t using that by (auto simp: live_Some)
  then show ?thesis
    using assms by (cases "live db key") (auto simp: live_PutEntity ttl_touch fun_eq_iff split: option.split)
qed

lemma DB_ok_put_touch [simp]: "DB_ok db \<Longrightarrow> entity_ok e \<Longrightarrow> DB_ok (fst (PutEntity key e (touch key db)))"
  by (simp add: DB_ok_PutEntity)

lemma makeDB_sized_ttl: "ts \<le> 2 ^ 32 \<Longrightarrow> CD_Get (ttlMap (makeDB_sized ds ts g rnd now)) k = None"
  by (simp add: makeDB_sized_def)

lemma DB_ok_clock [simp]: "DB_ok (db\<lparr>clock := c\<rparr>) = DB_ok db"
  by (simp add: DB_ok_def)

subsection \<open>A small database for examples\<close>

abbreviation tinyDB :: "int \<Rightarrow> int DB" where
  "tinyDB now \<equiv> makeDB_sized 1 1 (\<lambda>_ n. n) id now"

lemma tinyDB_ok [simp]: "DB_ok (tinyDB now)" "live (tinyDB now) k = None" "clock (tinyDB now) = now"
  "CD_Get (ttlMap (tinyDB now)) k = None" "CD_Get (data (tinyDB now)) k = None"
  by (simp_all add: DB_ok_makeDB_sized live_None makeDB_sized_ttl) (simp_all add: makeDB_sized_def)

end
