(* ===== verification/Utils.thy ===== *)
theory Utils
  imports Database
begin

text \<open>
  Helpers that many command handlers share: \<^verbatim>\<open>lib/utils/utils.go\<close>, the lookups of a value by its
  kind, and the functions of Go's standard library that are left as arguments.
\<close>

text \<open>
  \<open>env\<close> collects what the handlers use of \<^verbatim>\<open>strconv\<close> on floating-point numbers (parsing,
  \<^verbatim>\<open>FormatFloat(x, 'f', -1, 64)\<close> and \<^verbatim>\<open>FormatFloat(x, 'f', 10, 64)\<close>, addition), the text of a failed
  \<^verbatim>\<open>ParseInt\<close>, and \<^verbatim>\<open>regexp.Compile\<close> with the \<^verbatim>\<open>Match\<close> method of its result.
\<close>

record 'f env =
  parseFloat :: "string \<Rightarrow> 'f option"
  formatFloat :: "'f \<Rightarrow> string"
  formatFloat10 :: "'f \<Rightarrow> string"
  addFloat :: "'f \<Rightarrow> 'f \<Rightarrow> 'f"
  numError :: "string \<Rightarrow> string"
  regexpCompile :: "string \<Rightarrow> (string \<Rightarrow> bool) option"

definition BytesEquals :: "bytes \<Rightarrow> bytes \<Rightarrow> bool" where
  "BytesEquals a b =
     (if (a = None \<and> b \<noteq> None) \<or> (a \<noteq> None \<and> b = None) then False
      else if length (str a) \<noteq> length (str b) then False
      else list_all (\<lambda>i. str a ! i = str b ! i) [0..<length (str a)])"

definition ConvertRange :: "int \<Rightarrow> int \<Rightarrow> int \<Rightarrow> int \<times> int" where
  "ConvertRange start stop sz =
     (if start < - sz then (- 1, - 1)
      else if start \<ge> sz then (- 1, - 1)
      else let start = (if start < 0 then sz + start else start) in
        if stop < - sz then (- 1, - 1)
        else let stop = (if stop < 0 then sz + stop + 1 else if stop < sz then stop + 1 else sz) in
          if start > stop then (- 1, - 1) else (start, stop))"

fun RemoveDuplicates_loop :: "string list \<Rightarrow> cmdline \<Rightarrow> cmdline" where
  "RemoveDuplicates_loop seen [] = []"
| "RemoveDuplicates_loop seen (item # input) =
     (if str item \<in> set seen then RemoveDuplicates_loop seen input
      else item # RemoveDuplicates_loop (str item # seen) input)"

definition RemoveDuplicates :: "cmdline \<Rightarrow> cmdline" where
  "RemoveDuplicates input = RemoveDuplicates_loop [] input"

fun pairs :: "'a list \<Rightarrow> ('a \<times> 'a) list" where
  "pairs (a # b # rest) = (a, b) # pairs rest"
| "pairs _ = []"

subsection \<open>Lookups by kind\<close>

text \<open>A missing key gives nil; a value of another kind an error reply.\<close>

definition getAsString :: "'f DB \<Rightarrow> string \<Rightarrow> 'f DB \<times> (reply + bytes)" where
  "getAsString db key =
     (case GetEntity db key of
        (db, None) \<Rightarrow> (db, Inr None)
      | (db, Some e) \<Rightarrow> (case e of EString b \<Rightarrow> (db, Inr b) | _ \<Rightarrow> (db, Inl WrongTypeErrReply)))"

definition getAsList :: "'f DB \<Rightarrow> string \<Rightarrow> 'f DB \<times> (reply + bytes QuickList option)" where
  "getAsList db key =
     (case GetEntity db key of
        (db, None) \<Rightarrow> (db, Inr None)
      | (db, Some e) \<Rightarrow> (case e of EList l \<Rightarrow> (db, Inr (Some l)) | _ \<Rightarrow> (db, Inl WrongTypeErrReply)))"

definition getAsDict :: "'f DB \<Rightarrow> string \<Rightarrow> 'f DB \<times> (reply + bytes SimpleDict option)" where
  "getAsDict db key =
     (case GetEntity db key of
        (db, None) \<Rightarrow> (db, Inr None)
      | (db, Some e) \<Rightarrow> (case e of EHash d \<Rightarrow> (db, Inr (Some d)) | _ \<Rightarrow> (db, Inl WrongTypeErrReply)))"

definition getAsSet :: "'f DB \<Rightarrow> string \<Rightarrow> 'f DB \<times> (reply + unit SimpleDict option)" where
  "getAsSet db key =
     (case GetEntity db key of
        (db, None) \<Rightarrow> (db, Inr None)
      | (db, Some e) \<Rightarrow> (case e of ESet d \<Rightarrow> (db, Inr (Some d)) | _ \<Rightarrow> (db, Inl WrongTypeErrReply)))"

definition getAsSortedSet :: "'f DB \<Rightarrow> string \<Rightarrow> 'f DB \<times> (reply + 'f SortedSet option)" where
  "getAsSortedSet db key =
     (case GetEntity db key of
        (db, None) \<Rightarrow> (db, Inr None)
      | (db, Some e) \<Rightarrow> (case e of EZSet z \<Rightarrow> (db, Inr (Some z)) | _ \<Rightarrow> (db, Inl WrongTypeErrReply)))"

text \<open>The idiom of every handler: return the error of a lookup, go on with its value otherwise.\<close>

definition onLookup :: "'f DB \<times> (reply + 'a) \<Rightarrow> ('f DB \<Rightarrow> 'a \<Rightarrow> 'f DB \<times> reply option) \<Rightarrow> 'f DB \<times> reply option" where
  "onLookup l k = (case l of (db, Inl err) \<Rightarrow> (db, Some err) | (db, Inr v) \<Rightarrow> k db v)"

text \<open>Parsing an integer argument, with the error reply for a malformed one.\<close>

definition notInteger :: reply where
  "notInteger = StandardErrReply ''ERR value is not an integer or out of range''"

definition onInt :: "reply \<Rightarrow> bytes \<Rightarrow> 'f DB \<Rightarrow> (int \<Rightarrow> 'f DB \<times> reply option) \<Rightarrow> 'f DB \<times> reply option" where
  "onInt err arg db k = (case ParseInt (str arg) of None \<Rightarrow> (db, Some err) | Some n \<Rightarrow> k n)"

text \<open>Continuing with a value that may be a panic.\<close>

definition onValue :: "'a option \<Rightarrow> 'f DB \<Rightarrow> ('a \<Rightarrow> 'f DB \<times> reply option) \<Rightarrow> 'f DB \<times> reply option" where
  "onValue v db k = (case v of None \<Rightarrow> (db, None) | Some x \<Rightarrow> k x)"

section \<open>Lemmas\<close>

lemma BytesEquals_eq [simp]: "BytesEquals a b \<longleftrightarrow> a = b"
proof (cases "length (str a) = length (str b)")
  case True
  then have "(list_all (\<lambda>i. str a ! i = str b ! i) [0..<length (str a)]) \<longleftrightarrow> str a = str b"
    by (auto simp: list_all_iff intro: nth_equalityI)
  with True show ?thesis by (cases a; cases b) (auto simp: BytesEquals_def)
qed (auto simp: BytesEquals_def)

text \<open>The range that is returned lies within the list, or is the marker for an empty one.\<close>

lemma ConvertRange_bounds:
  assumes "ConvertRange start stop sz = (a, b)" and "0 \<le> sz"
  shows "a = - 1 \<and> b = - 1 \<or> 0 \<le> a \<and> a < sz \<and> a \<le> b \<and> b \<le> sz"
  using assms by (auto simp: ConvertRange_def Let_def split: if_splits)

lemma RemoveDuplicates_loop_set:
  "set (map str (RemoveDuplicates_loop seen input)) = str ` set input - set seen \<and>
   distinct (map str (RemoveDuplicates_loop seen input))"
  by (induction seen input rule: RemoveDuplicates_loop.induct) auto

lemma RemoveDuplicates_set:
  "str ` set (RemoveDuplicates input) = str ` set input" "distinct (map str (RemoveDuplicates input))"
  using RemoveDuplicates_loop_set [of "[]" input] by (simp_all add: RemoveDuplicates_def)

subsection \<open>What a lookup finds\<close>

lemma getAsString_eq:
  "DB_ok db \<Longrightarrow> getAsString db key = (touch key db, case live db key of None \<Rightarrow> Inr None
     | Some (e, t) \<Rightarrow> (case e of EString b \<Rightarrow> Inr b | _ \<Rightarrow> Inl WrongTypeErrReply))"
  by (simp add: getAsString_def split: option.split prod.split entity.split)

lemma getAsList_eq:
  "DB_ok db \<Longrightarrow> getAsList db key = (touch key db, case live db key of None \<Rightarrow> Inr None
     | Some (e, t) \<Rightarrow> (case e of EList l \<Rightarrow> Inr (Some l) | _ \<Rightarrow> Inl WrongTypeErrReply))"
  by (simp add: getAsList_def split: option.split prod.split entity.split)

lemma getAsDict_eq:
  "DB_ok db \<Longrightarrow> getAsDict db key = (touch key db, case live db key of None \<Rightarrow> Inr None
     | Some (e, t) \<Rightarrow> (case e of EHash d \<Rightarrow> Inr (Some d) | _ \<Rightarrow> Inl WrongTypeErrReply))"
  by (simp add: getAsDict_def split: option.split prod.split entity.split)

lemma getAsSet_eq:
  "DB_ok db \<Longrightarrow> getAsSet db key = (touch key db, case live db key of None \<Rightarrow> Inr None
     | Some (e, t) \<Rightarrow> (case e of ESet d \<Rightarrow> Inr (Some d) | _ \<Rightarrow> Inl WrongTypeErrReply))"
  by (simp add: getAsSet_def split: option.split prod.split entity.split)

lemma getAsSortedSet_eq:
  "DB_ok db \<Longrightarrow> getAsSortedSet db key = (touch key db, case live db key of None \<Rightarrow> Inr None
     | Some (e, t) \<Rightarrow> (case e of EZSet z \<Rightarrow> Inr (Some z) | _ \<Rightarrow> Inl WrongTypeErrReply))"
  by (simp add: getAsSortedSet_def split: option.split prod.split entity.split)

lemmas lookups = getAsString_eq getAsList_eq getAsDict_eq getAsSet_eq getAsSortedSet_eq

subsection \<open>Outcomes of the idioms\<close>

named_theorems outcomes

lemma outcome_refl [outcomes]: "DB_ok db \<Longrightarrow> outcome K db db"
  by (simp add: outcome_def within_refl)

lemma outcome_touch [outcomes]: "within {} db0 db \<Longrightarrow> outcome K db0 (touch key db)"
  by (auto intro: outcome_read)

lemmas [outcomes] = outcome_logged

declare DB_okD(1-3) [simp]

lemma within_data: "within K db0 db \<Longrightarrow> key \<in> K \<Longrightarrow> entity_ok e \<Longrightarrow>
    within K db0 (db\<lparr>data := fst (CD_Put (data db) key e)\<rparr>)"
  by (erule within_op) (rule withinI, simp_all add: DB_ok_data)

lemmas [outcomes] = within_refl within_emit within_data within_Remove within_PutEntity within_PutIfExists within_store
  within_PutIfAbsent within_Persist within_Expire within_draw within_touch within_addAof

lemma outcome_onInt [outcomes]:
  "within {} db0 db \<Longrightarrow> (\<And>n. ParseInt (str arg) = Some n \<Longrightarrow> outcome K db0 (fst (k n))) \<Longrightarrow>
   outcome K db0 (fst (onInt err arg db k))"
  by (auto simp: onInt_def outcome_read split: option.split)

lemma outcome_onValue [outcomes]:
  "within {} db0 db \<Longrightarrow> (\<And>x. v = Some x \<Longrightarrow> outcome K db0 (fst (k x))) \<Longrightarrow> outcome K db0 (fst (onValue v db k))"
  by (auto simp: onValue_def outcome_read split: option.split)

lemma outcome_onString [outcomes]:
  "within {} db0 db \<Longrightarrow>
   (\<And>b. (live db key = None \<and> b = None) \<or> (\<exists>t. live db key = Some (EString b, t)) \<Longrightarrow>
      outcome K db0 (fst (k (touch key db) b))) \<Longrightarrow>
   outcome K db0 (fst (onLookup (getAsString db key) k))"
  using within_ok [of "{}" db0 db]
  by (auto simp: onLookup_def lookups intro: outcome_touch split: option.split prod.split entity.split)

lemma outcome_onList [outcomes]:
  "within {} db0 db \<Longrightarrow>
   (live db key = None \<Longrightarrow> outcome K db0 (fst (k (touch key db) None))) \<Longrightarrow>
   (\<And>l t. live db key = Some (EList l, t) \<Longrightarrow> QL_inv l \<Longrightarrow> outcome K db0 (fst (k (touch key db) (Some l)))) \<Longrightarrow>
   outcome K db0 (fst (onLookup (getAsList db key) k))"
  using within_ok [of "{}" db0 db] live_entity_ok [of db key]
  by (auto simp: onLookup_def lookups intro: outcome_touch split: option.split prod.split entity.split)

lemma outcome_onDict [outcomes]:
  "within {} db0 db \<Longrightarrow>
   (live db key = None \<Longrightarrow> outcome K db0 (fst (k (touch key db) None))) \<Longrightarrow>
   (\<And>d t. live db key = Some (EHash d, t) \<Longrightarrow> SD_inv d \<Longrightarrow> outcome K db0 (fst (k (touch key db) (Some d)))) \<Longrightarrow>
   outcome K db0 (fst (onLookup (getAsDict db key) k))"
  using within_ok [of "{}" db0 db] live_entity_ok [of db key]
  by (auto simp: onLookup_def lookups intro: outcome_touch split: option.split prod.split entity.split)

lemma outcome_onSet [outcomes]:
  "within {} db0 db \<Longrightarrow>
   (live db key = None \<Longrightarrow> outcome K db0 (fst (k (touch key db) None))) \<Longrightarrow>
   (\<And>d t. live db key = Some (ESet d, t) \<Longrightarrow> SD_inv d \<Longrightarrow> outcome K db0 (fst (k (touch key db) (Some d)))) \<Longrightarrow>
   outcome K db0 (fst (onLookup (getAsSet db key) k))"
  using within_ok [of "{}" db0 db] live_entity_ok [of db key]
  by (auto simp: onLookup_def lookups intro: outcome_touch split: option.split prod.split entity.split)

lemma outcome_onSortedSet [outcomes]:
  "within {} db0 db \<Longrightarrow>
   (live db key = None \<Longrightarrow> outcome K db0 (fst (k (touch key db) None))) \<Longrightarrow>
   (\<And>z es t. live db key = Some (EZSet z, t) \<Longrightarrow> SS_rep z es \<Longrightarrow> outcome K db0 (fst (k (touch key db) (Some z)))) \<Longrightarrow>
   outcome K db0 (fst (onLookup (getAsSortedSet db key) k))"
  using within_ok [of "{}" db0 db] live_entity_ok [of db key]
  by (auto simp: onLookup_def lookups intro: outcome_touch split: option.split prod.split entity.split)

lemma outcome_onOptions [outcomes]:
  "within {} db0 db \<Longrightarrow> (\<And>v. r = Inr v \<Longrightarrow> outcome K db0 (fst (k db v))) \<Longrightarrow> outcome K db0 (fst (onLookup (db, r) k))"
  by (cases r) (auto simp: onLookup_def outcome_read)

lemma within_any: "within {} db0 db \<Longrightarrow> within K db0 db"
  by (erule within_mono) simp

lemma store_same:
  assumes "within {} db0 db" and "CD_Get (data db) key = Some e"
  shows "within {} db0 (store key e db)"
proof -
  have ok: "DB_ok db" by (rule within_ok [OF assms(1)])
  have "DB_ok (store key e db)" using ok assms(2) by (simp add: store_eq PutIfExists_eq DB_ok_data DB_okD(4))
  moreover have "live (store key e db) = live db"
    by (rule ext, rule live_cong) (use ok assms(2) in \<open>auto simp: store_eq PutIfExists_eq\<close>)
  moreover have "clock (store key e db) = clock db" "versionMap (store key e db) = versionMap db" "out (store key e db) = out db"
    by (simp_all add: store_def)
  ultimately show ?thesis using assms(1) by (simp add: within_def)
qed

lemma within_drawn [outcomes]: "within K db0 db \<Longrightarrow> within K db0 (db\<lparr>drawn := n\<rparr>)"
  by (auto simp: within_def DB_ok_def simp del: DB_okD)

lemma DB_ok_store: "DB_ok db \<Longrightarrow> entity_ok e \<Longrightarrow> DB_ok (store key e db)"
  using within_store [OF within_refl, of db key UNIV e] within_ok by blast

end
