(* ===== verification/Expiry.thy ===== *)
theory Expiry
  imports Utils
begin

text \<open>
  Expiration of keys over time. A key whose time has passed is removed by whichever comes first: the
  task that the time wheel runs (\<^verbatim>\<open>DB.Expire\<close> in \<^verbatim>\<open>database/database.go\<close>) or the next lookup
  (\<^verbatim>\<open>DB.IsExpired\<close>). A history is a sequence of time steps, timers that fire and lookups, in any order;
  a timer may fire early, late, twice or for a key that has been persisted since.
\<close>

datatype happening = Tick nat | Fire string | Look string

fun happen :: "'f DB \<Rightarrow> happening \<Rightarrow> 'f DB" where
  "happen db (Tick d) = db\<lparr>clock := clock db + int d\<rparr>"
| "happen db (Fire key) = expire_task key db"
| "happen db (Look key) = fst (GetEntity db key)"

text \<open>The same history without any removal.\<close>

fun pass :: "'f DB \<Rightarrow> happening \<Rightarrow> 'f DB" where
  "pass db (Tick d) = db\<lparr>clock := clock db + int d\<rparr>"
| "pass db _ = db"

text \<open>
  \<open>pruned db0 db\<close>: \<open>db\<close> is \<open>db0\<close> without some of the keys that have expired. This is the simulation between
  the two.
\<close>

definition pruned :: "('f :: linorder) DB \<Rightarrow> 'f DB \<Rightarrow> bool" where
  "pruned db0 db \<longleftrightarrow> DB_ok db0 \<and> DB_ok db \<and> clock db = clock db0 \<and>
     (\<forall>k. CD_Get (data db) k = CD_Get (data db0) k \<and> CD_Get (ttlMap db) k = CD_Get (ttlMap db0) k \<or>
          CD_Get (data db) k = None \<and> (\<exists>t. CD_Get (ttlMap db0) k = Some t \<and> t < clock db0))"

section \<open>Lemmas\<close>

lemma pruned_refl: "DB_ok db \<Longrightarrow> pruned db db"
  by (simp add: pruned_def)

lemma prunedD:
  assumes "pruned db0 db"
  shows "CD_Get (data db) k = CD_Get (data db0) k \<and> CD_Get (ttlMap db) k = CD_Get (ttlMap db0) k \<or>
    CD_Get (data db) k = None \<and> (\<exists>t. CD_Get (ttlMap db0) k = Some t \<and> t < clock db0)"
  using assms by (simp add: pruned_def)

lemma pruned_live: "pruned db0 db \<Longrightarrow> live db k = live db0 k"
proof -
  assume p: "pruned db0 db"
  then consider "CD_Get (data db) k = CD_Get (data db0) k" "CD_Get (ttlMap db) k = CD_Get (ttlMap db0) k"
    | "CD_Get (data db) k = None" "\<exists>t. CD_Get (ttlMap db0) k = Some t \<and> t < clock db0"
    using prunedD [OF p, of k] by (elim disjE conjE)
  then show ?thesis
  proof cases
    case 1
    with p show ?thesis by (intro live_cong) (simp_all add: pruned_def)
  next
    case 2
    then have "live db k = None" "live db0 k = None" by (simp_all add: live_None)
    then show ?thesis by simp
  qed
qed

text \<open>Removing a key that is not live keeps the simulation.\<close>

lemma pruned_Remove:
  assumes "pruned db0 db" and "CD_Get (ttlMap db) key = Some t" and "t < clock db"
  shows "pruned db0 (Remove key db)"
proof -
  have "DB_ok db" using assms by (simp add: pruned_def)
  then have "CD_Get (ttlMap db0) key = Some t"
    using prunedD [OF assms(1), of key] DB_okD(5) [of db key] assms(2) by auto
  with assms show ?thesis by (simp add: pruned_def DB_ok_Remove)
qed

lemma pruned_Tick:
  assumes "pruned db0 db"
  shows "pruned (db0\<lparr>clock := clock db0 + int d\<rparr>) (db\<lparr>clock := clock db + int d\<rparr>)"
proof -
  have "CD_Get (data db) k = CD_Get (data db0) k \<and> CD_Get (ttlMap db) k = CD_Get (ttlMap db0) k \<or>
      CD_Get (data db) k = None \<and> (\<exists>t. CD_Get (ttlMap db0) k = Some t \<and> t < clock db0 + int d)" for k
  proof -
    have "t < clock db0 + int d" if "t < clock db0" for t using that by simp
    with prunedD [OF assms, of k] show ?thesis by metis
  qed
  with assms show ?thesis by (simp add: pruned_def)
qed

lemma pruned_happen: "pruned db0 db \<Longrightarrow> pruned (pass db0 h) (happen db h)"
proof (cases h)
  case (Tick d)
  assume "pruned db0 db"
  with Tick show ?thesis by (simp add: pruned_Tick)
next
  case (Fire key)
  assume "pruned db0 db"
  with Fire show ?thesis by (simp add: expire_task_def pruned_Remove split: option.split)
next
  case (Look key)
  assume p: "pruned db0 db"
  then have "DB_ok db" by (simp add: pruned_def)
  with p Look show ?thesis
    by (auto simp: touch_def live_None intro: pruned_Remove dest: DB_okD(5))
qed

lemma pruned_history: "pruned db0 db \<Longrightarrow> pruned (fold (\<lambda>h db. pass db h) hs db0) (fold (\<lambda>h db. happen db h) hs db)"
  by (induction hs arbitrary: db0 db) (auto intro: pruned_happen)



end
