(* ===== verification/Bitmap.thy ===== *)
theory Bitmap
  imports Godis_Prelude
begin

unbundle bit_operations_syntax

text \<open>
  \<^verbatim>\<open>datastruct/bitmap/bitmap.go\<close>: bit arrays over byte slices. Indexing out of range, shifting by a
  negative amount and allocating too much are panics (\<open>None\<close>). Within a byte the least significant
  bit comes first.
\<close>

definition toByteSize :: "int \<Rightarrow> int" where
  "toByteSize bitSize = (if rem bitSize 8 = 0 then quot bitSize 8 else quot bitSize 8 + 1)"

definition bm_grow :: "string \<Rightarrow> int \<Rightarrow> string option" where
  "bm_grow b bitSize = (let gap = toByteSize bitSize - int (length b) in
     if gap \<le> 0 then Some b
     else if make_ok 1 gap then Some (b @ replicate (nat gap) (CHR 0x00)) else None)"

definition BitSize :: "string \<Rightarrow> int" where
  "BitSize b = int (length b) * 8"

definition byte_bit :: "char \<Rightarrow> nat \<Rightarrow> bool" where
  "byte_bit c i = bit (of_char c :: nat) i"

definition byte_set :: "char \<Rightarrow> nat \<Rightarrow> bool \<Rightarrow> char" where
  "byte_set c i v = (if v then char_of (set_bit i (of_char c :: nat)) else char_of (unset_bit i (of_char c :: nat)))"

definition SetBit :: "string \<Rightarrow> int \<Rightarrow> bool \<Rightarrow> string option" where
  "SetBit b offset val =
     (let byteIndex = quot offset 8; bitOffset = rem offset 8 in
      if bitOffset < 0 then None
      else do {
        b \<leftarrow> bm_grow b (wrap64 (offset + 1));
        c \<leftarrow> go_index b byteIndex;
        go_update b byteIndex (byte_set c (nat bitOffset) val)
      })"

definition GetBit :: "string \<Rightarrow> int \<Rightarrow> bool option" where
  "GetBit b offset =
     (let byteIndex = quot offset 8; bitOffset = rem offset 8 in
      if byteIndex \<ge> int (length b) then Some False
      else do {
        c \<leftarrow> go_index b byteIndex;
        (if bitOffset < 0 then None else Some (byte_bit c (nat bitOffset)))
      })"

text \<open>
  \<^verbatim>\<open>ForEachBit\<close> with the state of its callback threaded through; \<open>stop = 0\<close> means no end. The bounds
  come from \<^verbatim>\<open>ConvertRange\<close> and are not negative.
\<close>

function forEachBit_loop :: "string \<Rightarrow> nat \<Rightarrow> ('s \<Rightarrow> nat \<Rightarrow> bool \<Rightarrow> bool \<times> 's) \<Rightarrow> nat \<Rightarrow> nat \<Rightarrow> nat \<Rightarrow> 's \<Rightarrow> 's" where
  "forEachBit_loop b stop cb byteIndex bitOffset offset s =
     (if byteIndex < length b then
        (if bitOffset < 8 then
           (case cb s offset (byte_bit (b ! byteIndex) bitOffset) of (go, s) \<Rightarrow>
              if \<not> go then s
              else if Suc offset \<ge> stop \<and> stop \<noteq> 0 then s
              else forEachBit_loop b stop cb byteIndex (Suc bitOffset) (Suc offset) s)
         else forEachBit_loop b stop cb (Suc byteIndex) 0 offset s)
      else s)"
  by auto
termination
  by (relation "measures [\<lambda>(b, stop, cb, byteIndex, bitOffset, offset, s). length b - byteIndex,
      \<lambda>(b, stop, cb, byteIndex, bitOffset, offset, s). 8 - bitOffset]") auto

declare forEachBit_loop.simps [simp del]

definition ForEachBit :: "string \<Rightarrow> nat \<Rightarrow> nat \<Rightarrow> ('s \<Rightarrow> nat \<Rightarrow> bool \<Rightarrow> bool \<times> 's) \<Rightarrow> 's \<Rightarrow> 's" where
  "ForEachBit b start stop cb s = forEachBit_loop b stop cb (start div 8) (start mod 8) start s"

definition ForEachByte :: "string \<Rightarrow> nat \<Rightarrow> nat \<Rightarrow> ('s \<Rightarrow> nat \<Rightarrow> char \<Rightarrow> bool \<times> 's) \<Rightarrow> 's \<Rightarrow> 's" where
  "ForEachByte b start stop cb s =
     (let stop = (if stop = 0 then length b else if stop > length b then length b else stop) in
      snd (foldl (\<lambda>(go, s) i. if go then cb s i (b ! i) else (False, s)) (True, s) [start..<stop]))"

text \<open>\<^verbatim>\<open>bits.OnesCount8\<close>.\<close>

definition OnesCount8 :: "char \<Rightarrow> int" where
  "OnesCount8 c = int (length (filter (byte_bit c) [0..<8]))"

section \<open>Lemmas\<close>

lemma byte_bit_char_of: "byte_bit (char_of (n :: nat)) j \<longleftrightarrow> j < 8 \<and> bit n j"
proof -
  have "of_char (char_of n) = take_bit 8 n" by (simp add: take_bit_eq_mod)
  then show ?thesis by (simp add: byte_bit_def bit_take_bit_iff)
qed

lemma byte_bit_set: "i < 8 \<Longrightarrow> j < 8 \<Longrightarrow> byte_bit (byte_set c i v) j = (if j = i then v else byte_bit c j)"
  by (auto simp: byte_set_def byte_bit_char_of bit_set_bit_iff bit_unset_bit_iff) (simp_all add: byte_bit_def)

lemma byte_bit_zero [simp]: "byte_bit (CHR 0x00) j = False"
  by (simp add: byte_bit_def)

text \<open>Offsets that can be stored: the slice they need can be allocated.\<close>

lemma toByteSize_offset: "0 \<le> offset \<Longrightarrow> toByteSize (offset + 1) = offset div 8 + 1"
  by (auto simp: toByteSize_def rem_nonneg quot_nonneg) presburger+

lemma SetBit_eq:
  assumes "0 \<le> offset" and "offset < 2 ^ 48" and q: "q = offset div 8"
  shows "SetBit b offset v = (let b' = b @ replicate (nat (q + 1) - length b) (CHR 0x00) in
    Some (b'[nat q := byte_set (b' ! nat q) (nat (offset mod 8)) v]))"
proof -
  have "int64_range (offset + 1)" using assms(1,2) by (simp add: int64_range_def)
  then have w: "wrap64 (offset + 1) = offset + 1" by simp
  have q0: "0 \<le> q" "q \<le> offset" "\<not> offset mod 8 < 0"
    using assms(1) div_mult_mod_eq [of offset 8] pos_mod_sign [of 8 offset] unfolding q by linarith+
  let ?b = "b @ replicate (nat (q + 1) - length b) (CHR 0x00)"
  have "nat (q + 1 - int (length b)) = nat (q + 1) - length b" by linarith
  moreover have "make_ok 1 (q + 1 - int (length b))" if "\<not> q + 1 - int (length b) \<le> 0"
    using that q0(2) assms(2) by (simp add: make_ok_def maxAlloc_def)
  moreover have "?b = b" if "q + 1 - int (length b) \<le> 0" using that by (simp add: nat_le_iff)
  ultimately have g: "bm_grow b (wrap64 (offset + 1)) = Some ?b"
    unfolding w bm_grow_def toByteSize_offset [OF assms(1)] q [symmetric] Let_def by simp
  have "q < int (length ?b)" using q0(1) by simp
  then have "go_index ?b q = Some (?b ! nat q)" "go_update ?b q c = Some (?b[nat q := c])" for c
    using q0(1) by (simp_all add: go_index_def go_update_def del: go_index_Some)
  with g q0(3) show ?thesis
    unfolding SetBit_def rem_nonneg [OF assms(1) zero_less_numeral] quot_nonneg [OF assms(1) zero_less_numeral]
      q [symmetric] Let_def by (simp del: go_index_Some)
qed

lemma GetBit_eq: "0 \<le> offset \<Longrightarrow> GetBit b offset =
    Some (nat (offset div 8) < length b \<and> byte_bit (b ! nat (offset div 8)) (nat (offset mod 8)))"
  by (auto simp: GetBit_def Let_def rem_nonneg quot_nonneg go_index_def)

text \<open>
  C25: after a bit has been set, reading any bit at an offset of at least 0 gives the new value at
  that offset and the old value everywhere else; the array grows by as many zero bytes as needed.
\<close>

theorem GetBit_SetBit:
  assumes "0 \<le> offset" and "offset < 2 ^ 48" and "0 \<le> o2"
  shows "\<exists>b'. SetBit b offset v = Some b' \<and> GetBit b' o2 = (if o2 = offset then Some v else GetBit b o2)"
proof -
  let ?i = "nat (offset div 8)" and ?j = "nat (o2 div 8)"
  define g where "g = b @ replicate (nat (offset div 8 + 1) - length b) (CHR 0x00)"
  let ?b = "g[?i := byte_set (g ! ?i) (nat (offset mod 8)) v]"
  have s: "SetBit b offset v = Some ?b" using SetBit_eq [OF assms(1,2) refl, of b v] by (simp only: g_def Let_def)
  have "0 \<le> offset div 8" using assms(1) by (simp add: pos_imp_zdiv_nonneg_iff)
  then have len: "length g = max (length b) (Suc ?i)" "?i < length g" by (simp_all add: g_def Suc_nat_eq_nat_zadd1)
  have nth: "byte_bit (g ! k) m = (k < length b \<and> byte_bit (b ! k) m)" if "k < length g" for k m
    using that by (auto simp: g_def nth_append)
  have bits: "nat (offset mod 8) < 8" "nat (o2 mod 8) < 8" by (simp_all add: nat_less_iff)
  have "?j < length ?b \<and> byte_bit (?b ! ?j) (nat (o2 mod 8)) \<longleftrightarrow>
      (if o2 = offset then v else ?j < length b \<and> byte_bit (b ! ?j) (nat (o2 mod 8)))"
  proof (cases "?j = ?i")
    case True
    have "0 \<le> o2 div 8" "0 \<le> offset div 8" using assms by (simp_all add: pos_imp_zdiv_nonneg_iff)
    with True have d: "o2 div 8 = offset div 8" by linarith
    have "o2 = offset \<longleftrightarrow> o2 mod 8 = offset mod 8"
      using div_mult_mod_eq [of o2 8] div_mult_mod_eq [of offset 8] d by linarith
    then have e: "o2 = offset \<longleftrightarrow> nat (o2 mod 8) = nat (offset mod 8)" by auto
    have "byte_bit (?b ! ?i) (nat (o2 mod 8)) = (if o2 = offset then v else byte_bit (g ! ?i) (nat (o2 mod 8)))"
      using len(2) byte_bit_set [OF bits, of "g ! ?i" v] e by simp
    with nth [OF len(2)] len(2) show ?thesis unfolding True by simp
  next
    case False
    then have "o2 \<noteq> offset" by auto
    have "?b ! ?j = g ! ?j" using False by simp
    moreover have "?j < length g \<and> byte_bit (g ! ?j) (nat (o2 mod 8)) \<longleftrightarrow> ?j < length b \<and> byte_bit (b ! ?j) (nat (o2 mod 8))"
      using nth [of ?j "nat (o2 mod 8)"] len(1) by (auto simp: less_max_iff_disj)
    ultimately show ?thesis using \<open>o2 \<noteq> offset\<close> by simp
  qed
  with s show ?thesis by (auto simp: GetBit_eq assms(1,3))
qed

theorem GetBit_SetBit_witness:
  "\<exists>b'. SetBit ''a'' 9 True = Some b' \<and> GetBit b' 9 = Some True \<and> GetBit ''a'' 9 = Some False"
  using GetBit_SetBit [of 9 9 "''a''" True] by (auto simp: GetBit_eq)

end
