(* ===== verification/StringCmds.thy ===== *)
theory StringCmds
  imports Utils Bitmap
begin

text \<open>
  \<^verbatim>\<open>database/string.go\<close>: the commands on string values. Byte slices are values here: that
  \<^verbatim>\<open>SETRANGE\<close> and \<^verbatim>\<open>SETBIT\<close> write into the stored slice in place is not modelled, only the value they
  store.
\<close>

datatype policy = upsertPolicy | insertPolicy | updatePolicy

definition unlimitedTTL :: int where "unlimitedTTL = 0"

definition invalidExpire :: "string \<Rightarrow> reply" where
  "invalidExpire cmd = StandardErrReply (''ERR invalid expire time in '' @ cmd)"

definition execGet :: "'f handler" where
  "execGet db args =
     onLookup (getAsString db (str (args ! 0))) (\<lambda>db bytes.
       if bytes = None then (db, Some NullBulkReply) else (db, Some (BulkReply bytes)))"

text \<open>The option loop of \<^verbatim>\<open>GETEX\<close>; \<^verbatim>\<open>PERSIST\<close> takes effect while the options are read.\<close>

fun getex_options :: "string \<Rightarrow> cmdline \<Rightarrow> int \<Rightarrow> 'f DB \<Rightarrow> 'f DB \<times> (reply + int)" where
  "getex_options key [] ttl db = (db, Inr ttl)"
| "getex_options key (a # rest) ttl db =
     (let arg = ToUpper (str a) in
      if arg = ''EX'' \<or> arg = ''PX'' then
        (if ttl \<noteq> unlimitedTTL then (db, Inl SyntaxErrReply)
         else case rest of
           [] \<Rightarrow> (db, Inl SyntaxErrReply)
         | v # rest' \<Rightarrow>
             (case ParseInt (str v) of
                None \<Rightarrow> (db, Inl SyntaxErrReply)
              | Some ttlArg \<Rightarrow>
                  if ttlArg \<le> 0 then (db, Inl (invalidExpire ''getex''))
                  else getex_options key rest' (if arg = ''EX'' then wrap64 (ttlArg * 1000) else ttlArg) db))
      else if arg = ''PERSIST'' then
        (if ttl \<noteq> unlimitedTTL then (db, Inl SyntaxErrReply)
         else getex_options key rest ttl (Persist key db))
      else getex_options key rest ttl db)"

definition execGetEX :: "'f handler" where
  "execGetEX db args =
     (let key = str (args ! 0) in
      onLookup (getAsString db key) (\<lambda>db bytes.
        if bytes = None then (db, Some NullBulkReply)
        else onLookup (getex_options key (tl args) unlimitedTTL db) (\<lambda>db ttl.
          let db = (if length args > 1 then
                      (if ttl \<noteq> unlimitedTTL then
                         let expireTime = after_ms db ttl in
                         addAof (MakeExpireCmd key expireTime) (Expire key expireTime db)
                       else addAof (ToCmdLine3 ''persist'' [args ! 0]) (Persist key db))
                    else db)
          in (db, Some (BulkReply bytes)))))"

fun set_options :: "cmdline \<Rightarrow> policy \<Rightarrow> int \<Rightarrow> reply + policy \<times> int" where
  "set_options [] policy ttl = Inr (policy, ttl)"
| "set_options (a # rest) policy ttl =
     (let arg = ToUpper (str a) in
      if arg = ''NX'' then
        (if policy = updatePolicy then Inl SyntaxErrReply else set_options rest insertPolicy ttl)
      else if arg = ''XX'' then
        (if policy = insertPolicy then Inl SyntaxErrReply else set_options rest updatePolicy ttl)
      else if arg = ''EX'' \<or> arg = ''PX'' then
        (if ttl \<noteq> unlimitedTTL then Inl SyntaxErrReply
         else case rest of
           [] \<Rightarrow> Inl SyntaxErrReply
         | v # rest' \<Rightarrow>
             (case ParseInt (str v) of
                None \<Rightarrow> Inl SyntaxErrReply
              | Some ttlArg \<Rightarrow>
                  if ttlArg \<le> 0 then Inl (invalidExpire ''set'')
                  else set_options rest' policy (if arg = ''EX'' then wrap64 (ttlArg * 1000) else ttlArg)))
      else Inl SyntaxErrReply)"

definition execSet :: "'f handler" where
  "execSet db args =
     (let key = str (args ! 0); value = args ! 1 in
      case set_options (drop 2 args) upsertPolicy unlimitedTTL of
        Inl err \<Rightarrow> (db, Some err)
      | Inr (policy, ttl) \<Rightarrow>
          let entity = EString value;
              (db, result) = (case policy of
                  upsertPolicy \<Rightarrow> (fst (PutEntity key entity db), 1)
                | insertPolicy \<Rightarrow> PutIfAbsent key entity db
                | updatePolicy \<Rightarrow> PutIfExists key entity db)
          in if result > 0 then
               (if ttl \<noteq> unlimitedTTL then
                  let expireTime = after_ms db ttl;
                      db = Expire key expireTime db;
                      db = addAof [Some ''SET'', args ! 0, args ! 1] db
                  in (addAof (MakeExpireCmd key expireTime) db, Some OkReply)
                else (addAof (ToCmdLine3 ''set'' args) (Persist key db), Some OkReply))
             else (db, Some NullBulkReply))"

definition execSetNX :: "'f handler" where
  "execSetNX db args =
     (case PutIfAbsent (str (args ! 0)) (EString (args ! 1)) db of (db, result) \<Rightarrow>
        (addAof (ToCmdLine3 ''setnx'' args) db, Some (IntReply result)))"

definition execSetEX :: "'f handler" where
  "execSetEX db args =
     (let key = str (args ! 0); value = args ! 2 in
      onInt SyntaxErrReply (args ! 1) db (\<lambda>ttlArg.
        if ttlArg \<le> 0 then (db, Some (invalidExpire ''setex''))
        else let ttl = wrap64 (ttlArg * 1000);
                 db = fst (PutEntity key (EString value) db);
                 expireTime = after_ms db ttl;
                 db = addAof (ToCmdLine3 ''setex'' args) (Expire key expireTime db)
             in (addAof (MakeExpireCmd key expireTime) db, Some OkReply)))"

definition execPSetEX :: "'f handler" where
  "execPSetEX db args =
     (let key = str (args ! 0); value = args ! 2 in
      onInt SyntaxErrReply (args ! 1) db (\<lambda>ttlArg.
        if ttlArg \<le> 0 then (db, Some (invalidExpire ''setex''))
        else let db = fst (PutEntity key (EString value) db);
                 expireTime = after_ms db ttlArg;
                 db = addAof (ToCmdLine3 ''setex'' args) (Expire key expireTime db)
             in (addAof (MakeExpireCmd key expireTime) db, Some OkReply)))"

definition prepareMSet :: "cmdline \<Rightarrow> string list \<times> string list" where
  "prepareMSet args = (map (\<lambda>i. str (args ! (2 * i))) [0..<length args div 2], [])"

fun put_all :: "(bytes \<times> bytes) list \<Rightarrow> 'f DB \<Rightarrow> 'f DB" where
  "put_all [] db = db"
| "put_all ((k, v) # kvs) db = put_all kvs (fst (PutEntity (str k) (EString v) db))"

definition execMSet :: "'f handler" where
  "execMSet db args =
     (if length args mod 2 \<noteq> 0 then (db, Some SyntaxErrReply)
      else (addAof (ToCmdLine3 ''mset'' args) (put_all (pairs args) db), Some OkReply))"

definition prepareMGet :: "cmdline \<Rightarrow> string list \<times> string list" where
  "prepareMGet args = ([], map str args)"

fun mget_loop :: "cmdline \<Rightarrow> bytes list \<Rightarrow> 'f DB \<Rightarrow> 'f DB \<times> reply option" where
  "mget_loop [] result db = (db, Some (MultiBulkReply result))"
| "mget_loop (k # ks) result db =
     (case getAsString db (str k) of
        (db, Inl err) \<Rightarrow> if err = WrongTypeErrReply then mget_loop ks (result @ [None]) db else (db, Some err)
      | (db, Inr bytes) \<Rightarrow> mget_loop ks (result @ [bytes]) db)"

definition execMGet :: "'f handler" where
  "execMGet db args = mget_loop args [] db"

text \<open>The keys are looked up in turn until one exists.\<close>

fun any_exists :: "string list \<Rightarrow> 'f DB \<Rightarrow> 'f DB \<times> bool" where
  "any_exists [] db = (db, False)"
| "any_exists (k # ks) db =
     (case GetEntity db k of (db, Some e) \<Rightarrow> (db, True) | (db, None) \<Rightarrow> any_exists ks db)"

definition execMSetNX :: "'f handler" where
  "execMSetNX db args =
     (if length args mod 2 \<noteq> 0 then (db, Some SyntaxErrReply)
      else case any_exists (map (str \<circ> fst) (pairs args)) db of
        (db, True) \<Rightarrow> (db, Some (IntReply 0))
      | (db, False) \<Rightarrow> (addAof (ToCmdLine3 ''msetnx'' args) (put_all (pairs args) db), Some (IntReply 1)))"

definition execGetSet :: "'f handler" where
  "execGetSet db args =
     (let key = str (args ! 0); value = args ! 1 in
      onLookup (getAsString db key) (\<lambda>db old.
        let db = addAof (ToCmdLine3 ''set'' args) (Persist key (fst (PutEntity key (EString value) db))) in
        if old = None then (db, Some NullBulkReply) else (db, Some (BulkReply old))))"

definition execGetDel :: "'f handler" where
  "execGetDel db args =
     (let key = str (args ! 0) in
      onLookup (getAsString db key) (\<lambda>db old.
        if old = None then (db, Some NullBulkReply)
        else (addAof (ToCmdLine3 ''del'' args) (Remove key db), Some (BulkReply old))))"

text \<open>
  \<^verbatim>\<open>INCR\<close>, \<^verbatim>\<open>DECR\<close>, \<^verbatim>\<open>INCRBY\<close> and \<^verbatim>\<open>DECRBY\<close>: the sum is computed in 64 bits. On a missing key
  \<^verbatim>\<open>INCRBY\<close> stores its argument as it was sent.
\<close>

definition execIncr :: "'f handler" where
  "execIncr db args =
     (let key = str (args ! 0) in
      onLookup (getAsString db key) (\<lambda>db bytes.
        if bytes \<noteq> None then
          onInt notInteger bytes db (\<lambda>val.
            (addAof (ToCmdLine3 ''incr'' args) (fst (PutEntity key (EString (Some (FormatInt (wrap64 (val + 1))))) db)),
             Some (IntReply (wrap64 (val + 1)))))
        else
          (addAof (ToCmdLine3 ''incr'' args) (fst (PutEntity key (EString (Some ''1'')) db)), Some (IntReply 1))))"

definition execIncrBy :: "'f handler" where
  "execIncrBy db args =
     (let key = str (args ! 0) in
      onInt notInteger (args ! 1) db (\<lambda>delta.
        onLookup (getAsString db key) (\<lambda>db bytes.
          if bytes \<noteq> None then
            onInt notInteger bytes db (\<lambda>val.
              (addAof (ToCmdLine3 ''incrby'' args) (fst (PutEntity key (EString (Some (FormatInt (wrap64 (val + delta))))) db)),
               Some (IntReply (wrap64 (val + delta)))))
          else
            (addAof (ToCmdLine3 ''incrby'' args) (fst (PutEntity key (EString (args ! 1)) db)), Some (IntReply delta)))))"

definition notFloat :: reply where
  "notFloat = StandardErrReply ''ERR value is not a valid float''"

definition execIncrByFloat :: "'f env \<Rightarrow> 'f handler" where
  "execIncrByFloat E db args =
     (let key = str (args ! 0) in
      case parseFloat E (str (args ! 1)) of
        None \<Rightarrow> (db, Some notFloat)
      | Some delta \<Rightarrow>
          onLookup (getAsString db key) (\<lambda>db bytes.
            if bytes \<noteq> None then
              (case parseFloat E (str bytes) of
                 None \<Rightarrow> (db, Some notFloat)
               | Some val \<Rightarrow>
                   let resultBytes = Some (formatFloat E (addFloat E val delta)) in
                   (addAof (ToCmdLine3 ''incrbyfloat'' args) (fst (PutEntity key (EString resultBytes) db)),
                    Some (BulkReply resultBytes)))
            else
              (addAof (ToCmdLine3 ''incrbyfloat'' args) (fst (PutEntity key (EString (args ! 1)) db)),
               Some (BulkReply (args ! 1)))))"

definition execDecr :: "'f handler" where
  "execDecr db args =
     (let key = str (args ! 0) in
      onLookup (getAsString db key) (\<lambda>db bytes.
        if bytes \<noteq> None then
          onInt notInteger bytes db (\<lambda>val.
            (addAof (ToCmdLine3 ''decr'' args) (fst (PutEntity key (EString (Some (FormatInt (wrap64 (val - 1))))) db)),
             Some (IntReply (wrap64 (val - 1)))))
        else
          (addAof (ToCmdLine3 ''decr'' args) (fst (PutEntity key (EString (Some ''-1'')) db)), Some (IntReply (- 1)))))"

definition execDecrBy :: "'f handler" where
  "execDecrBy db args =
     (let key = str (args ! 0) in
      onInt notInteger (args ! 1) db (\<lambda>delta.
        onLookup (getAsString db key) (\<lambda>db bytes.
          if bytes \<noteq> None then
            onInt notInteger bytes db (\<lambda>val.
              (addAof (ToCmdLine3 ''decrby'' args) (fst (PutEntity key (EString (Some (FormatInt (wrap64 (val - delta))))) db)),
               Some (IntReply (wrap64 (val - delta)))))
          else
            (addAof (ToCmdLine3 ''decrby'' args) (fst (PutEntity key (EString (Some (FormatInt (wrap64 (- delta))))) db)),
             Some (IntReply (wrap64 (- delta)))))))"

definition execStrLen :: "'f handler" where
  "execStrLen db args =
     onLookup (getAsString db (str (args ! 0))) (\<lambda>db bytes.
       if bytes = None then (db, Some (IntReply 0)) else (db, Some (IntReply (int (length (str bytes))))))"

text \<open>\<^verbatim>\<open>append(bytes, more...)\<close> on byte slices: nil stays nil when nothing is appended.\<close>

definition append_bytes :: "bytes \<Rightarrow> string \<Rightarrow> bytes" where
  "append_bytes b suffix = (if b = None \<and> suffix = [] then None else Some (str b @ suffix))"

definition execAppend :: "'f handler" where
  "execAppend db args =
     (let key = str (args ! 0) in
      onLookup (getAsString db key) (\<lambda>db bytes.
        let bytes = append_bytes bytes (str (args ! 1)) in
        (addAof (ToCmdLine3 ''append'' args) (fst (PutEntity key (EString bytes) db)),
         Some (IntReply (int (length (str bytes)))))))"

text \<open>The loop of \<^verbatim>\<open>SETRANGE\<close>; \<open>len\<close> is the length before the loop.\<close>

fun setrange_loop :: "int \<Rightarrow> int \<Rightarrow> string \<Rightarrow> string \<Rightarrow> string option" where
  "setrange_loop idx len [] bytes = Some bytes"
| "setrange_loop idx len (c # value) bytes =
     (if idx \<ge> len then setrange_loop (idx + 1) len value (bytes @ [c])
      else do { bytes \<leftarrow> go_update bytes idx c; setrange_loop (idx + 1) len value bytes })"

definition execSetRange :: "'f env \<Rightarrow> 'f handler" where
  "execSetRange E db args =
     (let key = str (args ! 0) in
      onInt (StandardErrReply (numError E (str (args ! 1)))) (args ! 1) db (\<lambda>offset.
        let value = str (args ! 2) in
        onLookup (getAsString db key) (\<lambda>db bytes.
          let diff = offset - int (length (str bytes)) in
          if diff > 0 \<and> \<not> make_ok 1 diff then (db, None)
          else let padded = (if diff > 0 then str bytes @ replicate (nat diff) (CHR 0x00) else str bytes) in
            onValue (setrange_loop offset (int (length padded)) value padded) db (\<lambda>result.
              let bytes = (if bytes = None \<and> result = [] then None else Some result) in
              (addAof (ToCmdLine3 ''setRange'' args) (fst (PutEntity key (EString bytes) db)),
               Some (IntReply (int (length (str bytes)))))))))"

definition execGetRange :: "'f handler" where
  "execGetRange db args =
     (let key = str (args ! 0) in
      onInt notInteger (args ! 1) db (\<lambda>startIdx.
        onInt notInteger (args ! 2) db (\<lambda>endIdx.
          onLookup (getAsString db key) (\<lambda>db bs.
            if bs = None then (db, Some NullBulkReply)
            else (case ConvertRange startIdx endIdx (int (length (str bs))) of (beg, stop) \<Rightarrow>
              if beg < 0 then (db, Some NullBulkReply)
              else onValue (go_slice (str bs) beg stop) db (\<lambda>s. (db, Some (BulkReply (Some s)))))))))"

subsection \<open>Bits\<close>

definition notBitOffset :: reply where
  "notBitOffset = StandardErrReply ''ERR bit offset is not an integer or out of range''"

definition notBit :: reply where
  "notBit = StandardErrReply ''ERR bit is not an integer or out of range''"

definition execSetBit :: "'f handler" where
  "execSetBit db args =
     (let key = str (args ! 0) in
      onInt notBitOffset (args ! 1) db (\<lambda>offset.
        let valStr = str (args ! 2) in
        if valStr \<noteq> ''1'' \<and> valStr \<noteq> ''0'' then (db, Some notBit)
        else onLookup (getAsString db key) (\<lambda>db bs.
          onValue (GetBit (str bs) offset) db (\<lambda>former.
            onValue (SetBit (str bs) offset (valStr = ''1'')) db (\<lambda>bm.
              (addAof (ToCmdLine3 ''setBit'' args) (fst (PutEntity key (EString (Some bm)) db)),
               Some (IntReply (of_bool former))))))))"

definition execGetBit :: "'f handler" where
  "execGetBit db args =
     (let key = str (args ! 0) in
      onInt notBitOffset (args ! 1) db (\<lambda>offset.
        onLookup (getAsString db key) (\<lambda>db bs.
          if bs = None then (db, Some (IntReply 0))
          else onValue (GetBit (str bs) offset) db (\<lambda>b. (db, Some (IntReply (of_bool b)))))))"

text \<open>The optional unit at position \<open>n\<close> of the arguments of \<^verbatim>\<open>BITCOUNT\<close> and \<^verbatim>\<open>BITPOS\<close>: bytes or bits.\<close>

definition byte_mode :: "cmdline \<Rightarrow> nat \<Rightarrow> bool option" where
  "byte_mode args n =
     (if length args > n then
        (let mode = ToLower (str (args ! n)) in
         if mode = ''bit'' then Some False else if mode = ''byte'' then Some True else None)
      else Some True)"

text \<open>The optional range at positions \<open>n\<close> and \<open>n + 1\<close>; a missing second bound is an index panic.\<close>

definition onBitRange :: "cmdline \<Rightarrow> nat \<Rightarrow> int \<Rightarrow> 'f DB \<Rightarrow> (nat \<Rightarrow> nat \<Rightarrow> 'f DB \<times> reply option) \<Rightarrow> 'f DB \<times> reply option" where
  "onBitRange args n sz db k =
     (if length args > n then
        onInt notInteger (args ! n) db (\<lambda>startIdx.
          onValue (go_index args (int n + 1)) db (\<lambda>a.
            onInt notInteger a db (\<lambda>endIdx.
              case ConvertRange startIdx endIdx sz of (beg, stop) \<Rightarrow>
                if beg < 0 then (db, Some (IntReply 0)) else k (nat beg) (nat stop))))
      else k 0 0)"

definition execBitCount :: "'f handler" where
  "execBitCount db args =
     onLookup (getAsString db (str (args ! 0))) (\<lambda>db bs.
       if bs = None then (db, Some (IntReply 0))
       else (case byte_mode args 3 of
         None \<Rightarrow> (db, Some (StandardErrReply ''ERR syntax error''))
       | Some byteMode \<Rightarrow>
           let bm = str bs; sz = (if byteMode then int (length bm) else BitSize bm) in
           onBitRange args 1 sz db (\<lambda>beg stop.
             let n = (if byteMode
                      then ForEachByte bm beg stop (\<lambda>n offset val. (True, n + OnesCount8 val)) 0
                      else ForEachBit bm beg stop (\<lambda>n offset val. (True, n + of_bool val)) 0)
             in (db, Some (IntReply n)))))"

definition execBitPos :: "'f handler" where
  "execBitPos db args =
     onLookup (getAsString db (str (args ! 0))) (\<lambda>db bs.
       if bs = None then (db, Some (IntReply (- 1)))
       else let valStr = str (args ! 1) in
         if valStr \<noteq> ''1'' \<and> valStr \<noteq> ''0'' then (db, Some notBit)
         else (case byte_mode args 4 of
           None \<Rightarrow> (db, Some (StandardErrReply ''ERR syntax error''))
         | Some byteMode \<Rightarrow>
             let bm = str bs; sz = (if byteMode then int (length bm) else BitSize bm) in
             onBitRange args 2 sz db (\<lambda>beg stop.
               let beg = (if byteMode then beg * 8 else beg); stop = (if byteMode then stop * 8 else stop);
                   offset = ForEachBit bm beg stop
                     (\<lambda>off o2 val. if val = (valStr = ''1'') then (False, int o2) else (True, off)) (- 1)
               in (db, Some (IntReply offset)))))"

section \<open>Lemmas\<close>

subsection \<open>What the handlers change\<close>

lemma outcome_logged2: "within K db0 db \<Longrightarrow> outcome K db0 (addAof l (addAof l' db))"
  by (intro outcome_logged within_addAof)

lemma execGet_outcome: "DB_ok db \<Longrightarrow> outcome K db (fst (execGet db args))"
  by (auto simp: execGet_def intro!: outcomes)

lemma getex_options_within:
  "within {key} db0 db \<Longrightarrow> within {key} db0 (fst (getex_options key args ttl db))"
proof (induction key args ttl db rule: getex_options.induct)
  case (2 key a rest ttl db)
  note IH = "2.IH"(1) [OF refl] "2.IH"(2) [OF refl] "2.IH"(3) [OF refl]
  have p: "within {key} db0 (Persist key db)" using "2.prems" by (rule within_Persist) simp
  show ?case
  proof (cases "ToUpper (str a) = ''EX'' \<or> ToUpper (str a) = ''PX''")
    case True
    then show ?thesis
      unfolding getex_options.simps Let_def
      by (simp only: if_True) (use IH(1) [OF True] "2.prems" in \<open>auto split: list.split option.split\<close>)
  next
    case False
    with IH(2,3) [OF False] p "2.prems" show ?thesis by (simp add: Let_def)
  qed
qed simp

lemma getex_options_data:
  "CD_Get (data (fst (getex_options key args ttl db))) k = CD_Get (data db) k"
proof (induction key args ttl db rule: getex_options.induct)
  case (2 key a rest ttl db)
  note IH = "2.IH"(1) [OF refl] "2.IH"(2) [OF refl] "2.IH"(3) [OF refl]
  show ?case
  proof (cases "ToUpper (str a) = ''EX'' \<or> ToUpper (str a) = ''PX''")
    case True
    then show ?thesis
      unfolding getex_options.simps Let_def
      by (simp only: if_True) (use IH(1) [OF True] in \<open>auto split: list.split option.split\<close>)
  next
    case False
    with IH(2,3) [OF False] show ?thesis by (simp add: Let_def)
  qed
qed simp

lemma execSet_outcome: "DB_ok db \<Longrightarrow> outcome {str (args ! 0)} db (fst (execSet db args))"
  by (auto simp: execSet_def Let_def PutIfAbsent_eq PutIfExists_eq intro!: outcomes
      split: sum.split prod.split policy.split)

lemma execSetNX_outcome: "DB_ok db \<Longrightarrow> outcome {str (args ! 0)} db (fst (execSetNX db args))"
  by (auto simp: execSetNX_def PutIfAbsent_eq intro!: outcomes)

lemma execSetEX_outcome: "DB_ok db \<Longrightarrow> outcome {str (args ! 0)} db (fst (execSetEX db args))"
  by (auto simp: execSetEX_def Let_def intro!: outcomes)

lemma execPSetEX_outcome: "DB_ok db \<Longrightarrow> outcome {str (args ! 0)} db (fst (execPSetEX db args))"
  by (auto simp: execPSetEX_def Let_def intro!: outcomes)

lemma put_all_within: "within K db0 db \<Longrightarrow> str ` fst ` set kvs \<subseteq> K \<Longrightarrow> within K db0 (put_all kvs db)"
proof (induction kvs db rule: put_all.induct)
  case (2 k v kvs db)
  have "within K db0 (fst (PutEntity (str k) (EString v) db))"
    using "2.prems" by (intro within_PutEntity) auto
  with 2 show ?case by simp
qed simp

lemma fst_pairs: "fst ` set (pairs xs) \<subseteq> set xs"
  by (induction xs rule: pairs.induct) auto

lemma pairs_keys: "even (length args) \<Longrightarrow> map (str \<circ> fst) (pairs args) = fst (prepareMSet args)"
proof (induction args rule: pairs.induct)
  case (1 a b rest)
  have "[0..<Suc (length rest div 2)] = 0 # map Suc [0..<length rest div 2]"
    by (simp add: upt_conv_Cons map_Suc_upt del: upt_Suc)
  with 1 show ?case by (simp add: prepareMSet_def)
qed (auto simp: prepareMSet_def)

lemma pairs_subset: "even (length args) \<Longrightarrow> str ` fst ` set (pairs args) \<subseteq> set (fst (prepareMSet args))"
  by (simp flip: pairs_keys add: image_comp)

lemma execMSet_outcome: "DB_ok db \<Longrightarrow> outcome (set (fst (prepareMSet args))) db (fst (execMSet db args))"
  by (cases "even (length args)")
    (simp_all add: execMSet_def outcome_refl outcome_logged put_all_within within_refl pairs_subset flip: even_iff_mod_2_eq_zero)

lemma mget_loop_within: "within {} db0 db \<Longrightarrow> within {} db0 (fst (mget_loop ks result db))"
proof (induction ks result db rule: mget_loop.induct)
  case (2 k ks result db)
  have ok: "DB_ok db" by (rule within_ok [OF "2.prems"])
  have "within {} db0 (touch (str k) db)" using "2.prems" by (rule within_touch)
  with 2 ok show ?case by (auto simp: getAsString_eq split: option.split prod.split entity.split sum.split)
qed simp

lemma execMGet_outcome: "DB_ok db \<Longrightarrow> outcome K db (fst (execMGet db args))"
  by (simp add: execMGet_def outcome_read mget_loop_within within_refl)

lemma any_exists_within: "within {} db0 db \<Longrightarrow> within {} db0 (fst (any_exists ks db))"
proof (induction ks db rule: any_exists.induct)
  case (2 k ks db)
  have "DB_ok db" "within {} db0 (touch k db)" using "2.prems" by (auto intro: within_ok)
  with 2 show ?case by (auto split: option.split)
qed simp

lemma execMSetNX_outcome: "DB_ok db \<Longrightarrow> outcome (set (fst (prepareMSet args))) db (fst (execMSetNX db args))"
proof -
  assume ok: "DB_ok db"
  obtain db' b where a: "any_exists (map (str \<circ> fst) (pairs args)) db = (db', b)" by fastforce
  have w: "within {} db db'"
    using any_exists_within [OF within_refl [OF ok], of "map (str \<circ> fst) (pairs args)"] a by simp
  show ?thesis
  proof (cases "even (length args)")
    case True
    then have "within (set (fst (prepareMSet args))) db (put_all (pairs args) db')"
      using within_mono [OF w, of "set (fst (prepareMSet args))"] by (intro put_all_within pairs_subset) auto
    with w a True show ?thesis
      by (cases b) (simp_all add: execMSetNX_def outcome_read outcome_logged flip: even_iff_mod_2_eq_zero)
  next
    case False
    with ok show ?thesis by (simp add: execMSetNX_def outcome_refl flip: even_iff_mod_2_eq_zero)
  qed
qed

lemma execGetSet_outcome: "DB_ok db \<Longrightarrow> outcome {str (args ! 0)} db (fst (execGetSet db args))"
  by (auto simp: execGetSet_def Let_def intro!: outcomes)

lemma execGetDel_outcome: "DB_ok db \<Longrightarrow> outcome {str (args ! 0)} db (fst (execGetDel db args))"
  by (auto simp: execGetDel_def Let_def intro!: outcomes)

lemma execIncr_outcome: "DB_ok db \<Longrightarrow> outcome {str (args ! 0)} db (fst (execIncr db args))"
  by (auto simp: execIncr_def Let_def intro!: outcomes)

lemma execIncrBy_outcome: "DB_ok db \<Longrightarrow> outcome {str (args ! 0)} db (fst (execIncrBy db args))"
  by (auto simp: execIncrBy_def Let_def intro!: outcomes)

lemma execDecr_outcome: "DB_ok db \<Longrightarrow> outcome {str (args ! 0)} db (fst (execDecr db args))"
  by (auto simp: execDecr_def Let_def intro!: outcomes)

lemma execDecrBy_outcome: "DB_ok db \<Longrightarrow> outcome {str (args ! 0)} db (fst (execDecrBy db args))"
  by (auto simp: execDecrBy_def Let_def intro!: outcomes)

lemma execIncrByFloat_outcome: "DB_ok db \<Longrightarrow> outcome {str (args ! 0)} db (fst (execIncrByFloat E db args))"
  by (auto simp: execIncrByFloat_def Let_def intro!: outcomes split: option.split)

lemma execStrLen_outcome: "DB_ok db \<Longrightarrow> outcome K db (fst (execStrLen db args))"
  by (auto simp: execStrLen_def intro!: outcomes)

lemma execAppend_outcome: "DB_ok db \<Longrightarrow> outcome {str (args ! 0)} db (fst (execAppend db args))"
  by (auto simp: execAppend_def Let_def intro!: outcomes)

lemma execSetRange_outcome: "DB_ok db \<Longrightarrow> outcome {str (args ! 0)} db (fst (execSetRange E db args))"
  by (auto simp: execSetRange_def Let_def intro!: outcomes)

lemma execGetRange_outcome: "DB_ok db \<Longrightarrow> outcome K db (fst (execGetRange db args))"
  by (auto simp: execGetRange_def Let_def intro!: outcomes split: prod.split)

lemma execSetBit_outcome: "DB_ok db \<Longrightarrow> outcome {str (args ! 0)} db (fst (execSetBit db args))"
  by (auto simp: execSetBit_def Let_def intro!: outcomes)

lemma execGetBit_outcome: "DB_ok db \<Longrightarrow> outcome K db (fst (execGetBit db args))"
  by (auto simp: execGetBit_def Let_def intro!: outcomes)

lemma outcome_onBitRange [outcomes]:
  "within {} db0 db \<Longrightarrow> (\<And>a b. outcome K db0 (fst (k a b))) \<Longrightarrow> outcome K db0 (fst (onBitRange args n sz db k))"
  unfolding onBitRange_def
  by (cases "length args > n")
    (auto intro!: outcome_onInt outcome_onValue outcome_read [of db0 db] split: prod.split)

lemma execBitCount_outcome: "DB_ok db \<Longrightarrow> outcome K db (fst (execBitCount db args))"
  by (auto simp: execBitCount_def Let_def intro!: outcomes split: option.split)

lemma execBitPos_outcome: "DB_ok db \<Longrightarrow> outcome K db (fst (execBitPos db args))"
  by (auto simp: execBitPos_def Let_def intro!: outcomes split: option.split)

text \<open>
  \<^verbatim>\<open>GETEX\<close> can change the expiration time and still fail, without logging: \<^verbatim>\<open>PERSIST\<close> takes effect before the
  options after it are read.
\<close>

lemma execGetEX_within: "DB_ok db \<Longrightarrow> within {str (args ! 0)} db (fst (execGetEX db args))"
proof -
  assume ok: "DB_ok db"
  let ?key = "str (args ! 0)"
  have t: "within {?key} db (touch ?key db)" by (rule within_touch [OF within_refl [OF ok]])
  obtain db' r where o: "getex_options ?key (tl args) unlimitedTTL (touch ?key db) = (db', r)" by fastforce
  have w: "within {?key} db db'" using getex_options_within [OF t, of "tl args" unlimitedTTL] o by simp
  have d: "CD_Get (data db') ?key = map_option fst (live db ?key)"
    using getex_options_data [of ?key "tl args" unlimitedTTL "touch ?key db" ?key] o ok by (simp add: data_touch)
  show ?thesis
    using ok t w d o
    by (auto simp: execGetEX_def onLookup_def lookups Let_def intro!: outcomes
        split: option.split prod.split entity.split sum.split)
qed

subsection \<open>What the handlers store and reply\<close>

lemma execGet_live:
  assumes "DB_ok db" and "live db (str k) = Some (EString (Some v), t)"
  shows "execGet db [k] = (touch (str k) db, Some (BulkReply (Some v)))"
  using assms by (simp add: execGet_def onLookup_def lookups)

lemma execSet_upsert:
  assumes "DB_ok db" and "set_options opts upsertPolicy unlimitedTTL = Inr (upsertPolicy, ttl)"
  shows "snd (execSet db (k # v # opts)) = Some OkReply"
    and "DB_ok (fst (execSet db (k # v # opts)))"
    and "live (fst (execSet db (k # v # opts))) = (live db)(str k :=
      (if ttl = unlimitedTTL then Some (EString v, None)
       else if clock db > after_ms db ttl then None else Some (EString v, Some (after_ms db ttl))))"
  using assms
  by (auto simp: execSet_def Let_def DB_ok_PutEntity DB_ok_Persist DB_ok_Expire live_PutEntity live_Persist live_Expire
      after_ms_def fun_eq_iff)

lemma execIncr_live:
  assumes "DB_ok db" and "live db (str k) = Some (EString (Some s), t)" and "ParseInt s = Some n"
  shows "snd (execIncr db [k]) = Some (IntReply (wrap64 (n + 1)))"
    and "DB_ok (fst (execIncr db [k]))"
    and "live (fst (execIncr db [k])) = (live db)(str k \<mapsto> (EString (Some (FormatInt (wrap64 (n + 1)))), t))"
  using assms by (simp_all add: execIncr_def Let_def onLookup_def lookups onInt_def live_put_touch)

lemma incr_many:
  assumes "DB_ok db" and "live db (str k) = Some (EString (Some (FormatInt n)), t)" and "int64_range n"
  shows "DB_ok (((\<lambda>db. fst (execIncr db [k])) ^^ m) db) \<and>
    live (((\<lambda>db. fst (execIncr db [k])) ^^ m) db) = (live db)(str k \<mapsto> (EString (Some (FormatInt (wrap64 (n + int m)))), t))"
proof (induction m)
  case 0
  with assms show ?case by (simp add: fun_upd_idem)
next
  case (Suc m)
  let ?db = "((\<lambda>db. fst (execIncr db [k])) ^^ m) db"
  have "wrap64 (wrap64 (n + int m) + 1) = wrap64 (n + int (Suc m))" using wrap64_add [of "n + int m" 1] by (simp add: ac_simps)
  with execIncr_live [of ?db k "FormatInt (wrap64 (n + int m))" t "wrap64 (n + int m)"] Suc
  show ?case by (auto simp: wrap64_range fun_eq_iff simp del: of_nat_Suc)
qed

text \<open>
  C15: \<^verbatim>\<open>SET\<close> without \<^verbatim>\<open>NX\<close> and \<^verbatim>\<open>XX\<close> replies OK, replaces whatever the key held, clears or replaces its
  expiration time as the options say and changes no other key; a \<^verbatim>\<open>GET\<close> right after it returns the
  value byte for byte. The hypothesis on the time excludes the arguments whose conversion to
  nanoseconds overflows.
\<close>

theorem execSet_execGet:
  assumes "DB_ok db" and "set_options opts upsertPolicy unlimitedTTL = Inr (upsertPolicy, ttl)"
    and "0 \<le> wrap64 (ttl * 10 ^ 6)"
  shows "snd (execSet db (k # Some v # opts)) = Some OkReply \<and>
    live (fst (execSet db (k # Some v # opts))) = (live db)(str k \<mapsto>
      (EString (Some v), if ttl = unlimitedTTL then None else Some (after_ms db ttl))) \<and>
    snd (execGet (fst (execSet db (k # Some v # opts))) [k]) = Some (BulkReply (Some v))"
proof -
  have t: "\<not> after_ms db ttl < clock db" using assms(3) by (simp add: after_ms_def)
  note set = execSet_upsert [OF assms(1,2), of k "Some v"]
  with t have l: "live (fst (execSet db (k # Some v # opts))) = (live db)(str k \<mapsto>
      (EString (Some v), if ttl = unlimitedTTL then None else Some (after_ms db ttl)))" by auto
  with set(1) execGet_live [OF set(2), of k v] show ?thesis by simp
qed

theorem execSet_execGet_witness:
  "snd (execGet (fst (execSet (makeDB_sized 1 1 (\<lambda>_ n. n) id 5 :: int DB) [Some ''k'', Some ''v'', Some ''EX'', Some ''10''])) [Some ''k''])
     = Some (BulkReply (Some ''v''))"
proof -
  have "set_options [Some ''EX'', Some ''10''] upsertPolicy unlimitedTTL = Inr (upsertPolicy, 10000)"
    "0 \<le> wrap64 (10000 * 10 ^ 6)" by code_simp+
  from execSet_execGet [OF _ this, of "makeDB_sized 1 1 (\<lambda>_ n. n) id 5 :: int DB" "Some ''k''" "''v''"]
  show ?thesis by (simp add: DB_ok_makeDB_sized)
qed

text \<open>
  C26: \<open>m\<close> \<^verbatim>\<open>INCR\<close> commands on a key that holds the number \<open>n\<close> leave \<open>n + m\<close>, wrapped to 64 bits, in decimal,
  keep the expiration time and all other keys, and the next one replies \<open>n + m + 1\<close>, wrapped. The
  counter does not stop at the largest number: there is no overflow check.
\<close>

theorem execIncr_counts:
  assumes "DB_ok db" and "live db (str k) = Some (EString (Some (FormatInt n)), t)" and "int64_range n"
  shows "live (((\<lambda>db. fst (execIncr db [k])) ^^ m) db) = (live db)(str k \<mapsto> (EString (Some (FormatInt (wrap64 (n + int m)))), t)) \<and>
    snd (execIncr (((\<lambda>db. fst (execIncr db [k])) ^^ m) db) [k]) = Some (IntReply (wrap64 (n + int m + 1)))"
  using incr_many [OF assms, of m]
    execIncr_live [of "((\<lambda>db. fst (execIncr db [k])) ^^ m) db" k "FormatInt (wrap64 (n + int m))" t "wrap64 (n + int m)"]
  by (simp add: wrap64_range wrap64_add)

theorem execIncr_counts_witness:
  "snd (execIncr (fst (execIncr (fst (PutEntity ''k'' (EString (Some (FormatInt 9223372036854775806))) (makeDB_sized 1 1 (\<lambda>_ n. n) id 5 :: int DB))) [Some ''k''])) [Some ''k''])
     = Some (IntReply (- 9223372036854775808))"
proof -
  let ?db = "fst (PutEntity ''k'' (EString (Some (FormatInt 9223372036854775806))) (makeDB_sized 1 1 (\<lambda>_ n. n) id 5 :: int DB))"
  have "live ?db (str (Some ''k'')) = Some (EString (Some (FormatInt 9223372036854775806)), None)"
    by (simp add: live_PutEntity DB_ok_makeDB_sized makeDB_sized_ttl)
  moreover have "DB_ok ?db" by (simp add: DB_ok_PutEntity DB_ok_makeDB_sized)
  moreover have "int64_range 9223372036854775806" "wrap64 9223372036854775808 = - 9223372036854775808" by code_simp+
  ultimately show ?thesis using execIncr_counts [of ?db "Some ''k''" 9223372036854775806 None 1] by simp
qed

end
