(* ===== verification/Marshal.thy ===== *)
theory Marshal
  imports Utils SortedSetSpec
begin

text \<open>
  \<^verbatim>\<open>aof/marshal.go\<close>: a value as the command that rebuilds it, and the undo functions of
  \<^verbatim>\<open>database/tx_utils.go\<close> that are made of such commands. A result \<open>None\<close> is a run-time panic.
\<close>

section \<open>Values as commands\<close>

definition stringToCmd :: "string \<Rightarrow> bytes \<Rightarrow> cmdline" where
  "stringToCmd key bytes = [Some ''SET'', Some key, bytes]"

definition listToCmd :: "string \<Rightarrow> bytes QuickList \<Rightarrow> cmdline option" where
  "listToCmd key l =
     (let args = Some ''RPUSH'' # Some key # replicate (nat (QL_Len l)) None in
      QL_ForEach l (\<lambda>args i val. (True, args[nat (2 + i) := val])) args)"

definition setToCmd :: "string \<Rightarrow> unit SimpleDict \<Rightarrow> cmdline" where
  "setToCmd key s =
     (let args = Some ''SADD'' # Some key # replicate (nat (SD_Len s)) None in
      fst (SD_ForEach s (\<lambda>(args, i) val _. (True, (args[2 + i := Some val], Suc i))) (args, 0)))"

definition hashToCmd :: "string \<Rightarrow> bytes SimpleDict \<Rightarrow> cmdline" where
  "hashToCmd key h =
     (let args = Some ''HMSET'' # Some key # replicate (nat (SD_Len h) * 2) None in
      fst (SD_ForEach h (\<lambda>(args, i) field val. (True, (args[2 + i * 2 := Some field, 3 + i * 2 := val], Suc i))) (args, 0)))"

definition zSetToCmd :: "'f env \<Rightarrow> string \<Rightarrow> 'f SortedSet \<Rightarrow> cmdline option" where
  "zSetToCmd E key z =
     (let args = Some ''ZADD'' # Some key # replicate (nat (SS_Len z) * 2) None in
      map_option fst (SS_ForEachByRank z 0 (SS_Len z) True
        (\<lambda>(args, i) e. (True, (args[2 + i * 2 := Some (formatFloat E (Score e)), 3 + i * 2 := Some (Member e)], Suc i)))
        (args, 0)))"

fun EntityToCmd :: "'f env \<Rightarrow> string \<Rightarrow> 'f entity \<Rightarrow> cmdline option" where
  "EntityToCmd E key (EString b) = Some (stringToCmd key b)"
| "EntityToCmd E key (EList l) = listToCmd key l"
| "EntityToCmd E key (ESet s) = Some (setToCmd key s)"
| "EntityToCmd E key (EHash h) = Some (hashToCmd key h)"
| "EntityToCmd E key (EZSet z) = zSetToCmd E key z"

section \<open>Undo functions\<close>

text \<open>\<^verbatim>\<open>toTTLCmd\<close> of \<^verbatim>\<open>keys.go\<close>: the expiration time in milliseconds, or \<^verbatim>\<open>PERSIST\<close>.\<close>

definition toTTLCmd :: "'f DB \<Rightarrow> string \<Rightarrow> cmdline" where
  "toTTLCmd db key =
     (case CD_Get (ttlMap db) key of
        None \<Rightarrow> ToCmdLine [''PERSIST'', key]
      | Some expireTime \<Rightarrow>
          ToCmdLine [''PEXPIREAT'', key, FormatInt (quot (quot (UnixNano expireTime) 1000) 1000)])"

fun rollbackGivenKeys :: "'f env \<Rightarrow> 'f DB \<Rightarrow> string list \<Rightarrow> 'f DB \<times> cmdline list option" where
  "rollbackGivenKeys E db [] = (db, Some [])"
| "rollbackGivenKeys E db (key # keys) =
     (case GetEntity db key of
        (db, None) \<Rightarrow>
          (case rollbackGivenKeys E db keys of (db, r) \<Rightarrow> (db, map_option (\<lambda>ls. ToCmdLine [''DEL'', key] # ls) r))
      | (db, Some e) \<Rightarrow>
          (case EntityToCmd E key e of
             None \<Rightarrow> (db, None)
           | Some cmd \<Rightarrow>
               let ttl = toTTLCmd db key in
               (case rollbackGivenKeys E db keys of (db, r) \<Rightarrow>
                  (db, map_option (\<lambda>ls. ToCmdLine [''DEL'', key] # cmd # ttl # ls) r))))"

definition rollbackFirstKey :: "'f env \<Rightarrow> 'f DB \<Rightarrow> cmdline \<Rightarrow> 'f DB \<times> cmdline list option" where
  "rollbackFirstKey E db args = rollbackGivenKeys E db [str (args ! 0)]"

definition undoDel :: "'f env \<Rightarrow> 'f DB \<Rightarrow> cmdline \<Rightarrow> 'f DB \<times> cmdline list option" where
  "undoDel E db args = rollbackGivenKeys E db (map str args)"

definition undoRename :: "'f env \<Rightarrow> 'f DB \<Rightarrow> cmdline \<Rightarrow> 'f DB \<times> cmdline list option" where
  "undoRename E db args = rollbackGivenKeys E db [str (args ! 0), str (args ! 1)]"

definition undoExpire :: "'f DB \<Rightarrow> cmdline \<Rightarrow> 'f DB \<times> cmdline list option" where
  "undoExpire db args = (db, Some [toTTLCmd db (str (args ! 0))])"

definition rollbackHashFields :: "'f DB \<Rightarrow> string \<Rightarrow> string list \<Rightarrow> 'f DB \<times> cmdline list option" where
  "rollbackHashFields db key fs =
     (case getAsDict db key of
        (db, Inl err) \<Rightarrow> (db, Some [])
      | (db, Inr None) \<Rightarrow> (db, Some [ToCmdLine [''DEL'', key]])
      | (db, Inr (Some d)) \<Rightarrow>
          (db, Some (map (\<lambda>field. case SD_Get d field of
             None \<Rightarrow> ToCmdLine [''HDEL'', key, field]
           | Some value \<Rightarrow> ToCmdLine [''HSET'', key, field, str value]) fs)))"

definition rollbackSetMembers :: "'f DB \<Rightarrow> string \<Rightarrow> string list \<Rightarrow> 'f DB \<times> cmdline list option" where
  "rollbackSetMembers db key members =
     (case getAsSet db key of
        (db, Inl err) \<Rightarrow> (db, Some [])
      | (db, Inr None) \<Rightarrow> (db, Some [ToCmdLine [''DEL'', key]])
      | (db, Inr (Some s)) \<Rightarrow>
          (db, Some (map (\<lambda>member.
             if SD_Get s member = None then ToCmdLine [''SREM'', key, member]
             else ToCmdLine [''SADD'', key, member]) members)))"

definition undoSetChange :: "'f DB \<Rightarrow> cmdline \<Rightarrow> 'f DB \<times> cmdline list option" where
  "undoSetChange db args = rollbackSetMembers db (str (args ! 0)) (map str (tl args))"

definition rollbackZSetFields :: "'f env \<Rightarrow> 'f DB \<Rightarrow> string \<Rightarrow> string list \<Rightarrow> 'f DB \<times> cmdline list option" where
  "rollbackZSetFields E db key fs =
     (case getAsSortedSet db key of
        (db, Inl err) \<Rightarrow> (db, Some [])
      | (db, Inr None) \<Rightarrow> (db, Some [ToCmdLine [''DEL'', key]])
      | (db, Inr (Some z)) \<Rightarrow>
          (db, Some (map (\<lambda>field. case SS_Get z field of
             None \<Rightarrow> ToCmdLine [''ZREM'', key, field]
           | Some elem \<Rightarrow> ToCmdLine [''ZADD'', key, formatFloat E (Score elem), field]) fs)))"

subsection \<open>Prepare functions of the set operations\<close>

definition prepareSetCalculate :: "cmdline \<Rightarrow> string list \<times> string list" where
  "prepareSetCalculate args = ([], map str args)"

definition prepareSetCalculateStore :: "cmdline \<Rightarrow> string list \<times> string list" where
  "prepareSetCalculateStore args = ([str (args ! 0)], map str (tl args))"

section \<open>Lemmas\<close>

text \<open>Filling an array from the left, one or two cells per element.\<close>

lemma fill_foreach:
  "foreach (\<lambda>args i val. (True, args[nat (2 + i) := val])) (int n) xs (a # b # ys @ replicate (length xs) None)
   = a # b # ys @ xs" if "length ys = n" for xs ys :: "bytes list"
  using that
proof (induction xs arbitrary: n ys)
  case (Cons x xs)
  have "nat (2 + int n) = Suc (Suc n)" by simp
  with Cons.prems have "foreach (\<lambda>args i val. (True, args[nat (2 + i) := val])) (int n) (x # xs) (a # b # ys @ replicate (length (x # xs)) None)
      = foreach (\<lambda>args i val. (True, args[nat (2 + i) := val])) (int (Suc n)) xs (a # b # (ys @ [x]) @ replicate (length xs) None)"
    by (simp add: list_update_append add.commute)
  also have "\<dots> = a # b # (ys @ [x]) @ xs" using Cons.prems by (intro Cons.IH) simp
  finally show ?case by simp
qed simp

lemma listToCmd_eq: "QL_inv l \<Longrightarrow> listToCmd key l = Some (Some ''RPUSH'' # Some key # QL_abs l)"
  using fill_foreach [where n = 0 and ys = "[]" and a = "Some ''RPUSH''" and b = "Some key" and xs = "QL_abs l"]
  by (simp add: listToCmd_def QL_ForEach_abs QL_Len_def QL_inv_size)

text \<open>Two cells per element; \<open>f\<close> gives them.\<close>

lemma fill_pairs:
  "foldl (\<lambda>(args, i) x. (args[2 + i * 2 := f x, 3 + i * 2 := g x], Suc i)) (a # b # ys @ replicate (length xs * 2) None, n) xs
   = (a # b # ys @ concat (map (\<lambda>x. [f x, g x]) xs), n + length xs)" if "length ys = 2 * n" for ys :: "bytes list"
  using that
proof (induction xs arbitrary: n ys)
  case (Cons x xs)
  have "(a # b # ys @ None # None # replicate (length xs * 2) None)[2 + n * 2 := f x, 3 + n * 2 := g x]
      = a # b # (ys @ [f x, g x]) @ replicate (length xs * 2) None"
    using Cons.prems by (simp add: list_update_append mult.commute eval_nat_numeral)
  with Cons.IH [of "ys @ [f x, g x]" "Suc n"] Cons.prems show ?case by simp
qed simp

lemma fill_cells:
  "foldl (\<lambda>(args, i) x. (args[2 + i := f x], Suc i)) (a # b # ys @ replicate (length xs) None, n) xs
   = (a # b # ys @ map f xs, n + length xs)" if "length ys = n" for ys :: "bytes list"
  using that
proof (induction xs arbitrary: n ys)
  case (Cons x xs)
  have "(a # b # ys @ None # replicate (length xs) None)[2 + n := f x] = a # b # (ys @ [f x]) @ replicate (length xs) None"
    using Cons.prems by (simp add: list_update_append)
  with Cons.IH [of "ys @ [f x]" "Suc n"] Cons.prems show ?case by simp
qed simp

lemma range_map_foldl: "range_map (\<lambda>s k v. (True, h s (k, v))) m s = (True, foldl h s m)"
  by (induction m arbitrary: s) auto

lemma consume_foldl: "consume (\<lambda>s x. (True, h s x)) xs s = foldl h s xs"
  by (induction xs arbitrary: s) auto

lemma setToCmd_eq: "setToCmd key s = Some ''SADD'' # Some key # map (Some \<circ> fst) (sd_m s)"
  using range_map_foldl [of "\<lambda>(args, i) (k, v). (args[2 + i := Some k], Suc i)" "sd_m s"]
    fill_cells [of "[]" 0 "Some \<circ> fst" "Some ''SADD''" "Some key" "sd_m s"]
  by (simp add: setToCmd_def SD_ForEach_def SD_Len_def case_prod_beta')

lemma hashToCmd_eq:
  "hashToCmd key h = Some ''HMSET'' # Some key # concat (map (\<lambda>(k, v). [Some k, v]) (sd_m h))"
  using range_map_foldl [of "\<lambda>(args, i) (k, v). (args[2 + i * 2 := Some k, 3 + i * 2 := v], Suc i)" "sd_m h"]
    fill_pairs [of "[]" 0 "Some \<circ> fst" snd "Some ''HMSET''" "Some key" "sd_m h"]
  by (simp add: hashToCmd_def SD_ForEach_def SD_Len_def case_prod_beta')

lemma zSetToCmd_eq:
  assumes "SS_rep z es" and "es \<noteq> []"
  shows "zSetToCmd E key z = Some (Some ''ZADD'' # Some key #
    concat (map (\<lambda>e. [Some (formatFloat E (Score e)), Some (Member e)]) (rev es)))"
proof -
  have len: "SS_Len z = int (length es)" using SS_rep_length [OF assms(1)] by (simp add: SS_Len_def)
  have "SS_ForEachByRank z 0 (SS_Len z) True f s = Some (consume f (rev es) s)"
    for f :: "cmdline \<times> nat \<Rightarrow> 'a Element \<Rightarrow> bool \<times> cmdline \<times> nat" and s
    unfolding len using assms(2) by (simp add: ForEachByRank_rep [OF assms(1)] dir_def)
  with len
    fill_pairs [of "[]" 0 "\<lambda>e. Some (formatFloat E (Score e))" "\<lambda>e. Some (Member e)" "Some ''ZADD''" "Some key" "rev es"]
    consume_foldl [of "\<lambda>(args, i) e. (args[2 + i * 2 := Some (formatFloat E (Score e)), 3 + i * 2 := Some (Member e)], Suc i)" "rev es"]
  show ?thesis by (simp add: zSetToCmd_def case_prod_beta')
qed

subsection \<open>Undo functions look at the database only\<close>

lemma rollbackGivenKeys_within: "within {} db0 db \<Longrightarrow> within {} db0 (fst (rollbackGivenKeys E db keys))"
proof (induction keys arbitrary: db)
  case (Cons key keys)
  have "DB_ok db" "within {} db0 (touch key db)" using Cons.prems by (auto intro: within_ok)
  with Cons.IH [of "touch key db"] show ?case
    by (auto simp: Let_def split: option.split prod.split)
qed simp

end
