(* ===== verification/ListCmds.thy ===== *)
theory ListCmds
  imports Marshal
begin

text \<open>
  \<^verbatim>\<open>database/list.go\<close>: the commands on lists. A handler works on the list behind a pointer; here it
  computes the new list and stores it. A panic is raised before anything is changed, or on a list
  that breaks its invariant, so that the database is answered as it was before the list call.
\<close>

definition getOrInitList :: "'f DB \<Rightarrow> string \<Rightarrow> 'f DB \<times> (reply + bytes QuickList)" where
  "getOrInitList db key =
     (case getAsList db key of
        (db, Inl err) \<Rightarrow> (db, Inl err)
      | (db, Inr None) \<Rightarrow> (fst (PutEntity key (EList NewQuickList) db), Inr NewQuickList)
      | (db, Inr (Some l)) \<Rightarrow> (db, Inr l))"

text \<open>Storing a list after removals; an empty one is removed from the database.\<close>

definition close_list :: "string \<Rightarrow> bytes QuickList \<Rightarrow> 'f DB \<Rightarrow> 'f DB" where
  "close_list key l db = (let db = store key (EList l) db in if QL_Len l = 0 then Remove key db else db)"

text \<open>An index from either end.\<close>

definition list_index :: "int \<Rightarrow> int \<Rightarrow> int option" where
  "list_index index sz =
     (if index < - sz then None else if index < 0 then Some (sz + index) else if index \<ge> sz then None else Some index)"

definition execLIndex :: "'f handler" where
  "execLIndex db args =
     onInt notInteger (args ! 1) db (\<lambda>index.
       onLookup (getAsList db (str (args ! 0))) (\<lambda>db list. case list of
         None \<Rightarrow> (db, Some NullBulkReply)
       | Some l \<Rightarrow>
           (case list_index index (QL_Len l) of
              None \<Rightarrow> (db, Some NullBulkReply)
            | Some i \<Rightarrow> onValue (QL_Get l i) db (\<lambda>val. (db, Some (BulkReply val))))))"

definition execLLen :: "'f handler" where
  "execLLen db args =
     onLookup (getAsList db (str (args ! 0))) (\<lambda>db list. case list of
       None \<Rightarrow> (db, Some (IntReply 0))
     | Some l \<Rightarrow> (db, Some (IntReply (QL_Len l))))"

fun lpop_loop :: "nat \<Rightarrow> bytes QuickList \<Rightarrow> bytes list \<Rightarrow> (bytes QuickList \<times> bytes list) option" where
  "lpop_loop 0 l vals = Some (l, vals)"
| "lpop_loop (Suc n) l vals = do { (l, val) \<leftarrow> QL_Remove l 0; lpop_loop n l (vals @ [val]) }"

text \<open>The type assertion on the nil that \<^verbatim>\<open>RemoveLast\<close> answers for an empty list panics.\<close>

fun rpop_loop :: "nat \<Rightarrow> bytes QuickList \<Rightarrow> bytes list \<Rightarrow> (bytes QuickList \<times> bytes list) option" where
  "rpop_loop 0 l vals = Some (l, vals)"
| "rpop_loop (Suc n) l vals = do { (l, val) \<leftarrow> QL_RemoveLast l; val \<leftarrow> val; rpop_loop n l (vals @ [val]) }"

definition execLPop :: "'f handler" where
  "execLPop db args =
     (let key = str (args ! 0) in
      onLookup (getAsList db key) (\<lambda>db list. case list of
        None \<Rightarrow> (db, Some NullBulkReply)
      | Some l \<Rightarrow>
          if length args = 2 then
            onInt notInteger (args ! 1) db (\<lambda>cnt.
              let cnt = (if cnt > QL_Len l then QL_Len l else cnt) in
              onValue (if make_ok 24 cnt then lpop_loop (nat cnt) l [] else None) db (\<lambda>(l, vals).
                (addAof (ToCmdLine3 ''lpop'' args) (close_list key l db), Some (MultiBulkReply vals))))
          else
            onValue (QL_Remove l 0) db (\<lambda>(l, val).
              (addAof (ToCmdLine3 ''lpop'' args) (close_list key l db), Some (BulkReply val)))))"

fun lpush_loop :: "(nat \<Rightarrow> nat \<Rightarrow> nat) \<Rightarrow> cmdline \<Rightarrow> bytes QuickList \<Rightarrow> bytes QuickList option" where
  "lpush_loop g [] l = Some l"
| "lpush_loop g (value # values) l = do { l \<leftarrow> QL_Insert g l 0 value; lpush_loop g values l }"

definition execLPush :: "'f handler" where
  "execLPush db args =
     (let key = str (args ! 0) in
      onLookup (getOrInitList db key) (\<lambda>db l.
        onValue (lpush_loop (grow db) (tl args) l) db (\<lambda>l.
          (addAof (ToCmdLine3 ''lpush'' args) (store key (EList l) db), Some (IntReply (QL_Len l))))))"

definition execLPushX :: "'f handler" where
  "execLPushX db args =
     (let key = str (args ! 0) in
      onLookup (getAsList db key) (\<lambda>db list. case list of
        None \<Rightarrow> (db, Some (IntReply 0))
      | Some l \<Rightarrow>
          onValue (lpush_loop (grow db) (tl args) l) db (\<lambda>l.
            (addAof (ToCmdLine3 ''lpushx'' args) (store key (EList l) db), Some (IntReply (QL_Len l))))))"

definition execLRange :: "'f handler" where
  "execLRange db args =
     onInt notInteger (args ! 1) db (\<lambda>start.
       onInt notInteger (args ! 2) db (\<lambda>stop.
         onLookup (getAsList db (str (args ! 0))) (\<lambda>db list. case list of
           None \<Rightarrow> (db, Some EmptyMultiBulkReply)
         | Some l \<Rightarrow>
             let sz = QL_Len l in
             if start \<ge> sz \<and> \<not> start < - sz \<and> \<not> start < 0 then (db, Some EmptyMultiBulkReply)
             else
               let start = (if start < - sz then 0 else if start < 0 then sz + start else start);
                   stop = (if stop < - sz then 0 else if stop < 0 then sz + stop + 1
                           else if stop < sz then stop + 1 else sz);
                   stop = (if stop < start then start else stop)
               in onValue (QL_Range l start stop) db (\<lambda>slic. (db, Some (MultiBulkReply slic))))))"

definition execLRem :: "'f handler" where
  "execLRem db args =
     (let key = str (args ! 0); value = args ! 2 in
      onInt notInteger (args ! 1) db (\<lambda>cnt.
        onLookup (getAsList db key) (\<lambda>db list. case list of
          None \<Rightarrow> (db, Some (IntReply 0))
        | Some l \<Rightarrow>
            onValue (if cnt = 0 then QL_RemoveAllByVal (\<lambda>a. BytesEquals a value) l
                     else if cnt > 0 then QL_RemoveByVal (\<lambda>a. BytesEquals a value) cnt l
                     else QL_ReverseRemoveByVal (\<lambda>a. BytesEquals a value) (wrap64 (- cnt)) l) db (\<lambda>(l, removed).
              let db = close_list key l db in
              (if removed > 0 then addAof (ToCmdLine3 ''lrem'' args) db else db, Some (IntReply removed))))))"

definition outOfRange :: reply where
  "outOfRange = StandardErrReply ''ERR index out of range''"

definition execLSet :: "'f handler" where
  "execLSet db args =
     (let key = str (args ! 0); value = args ! 2 in
      onInt notInteger (args ! 1) db (\<lambda>index.
        onLookup (getAsList db key) (\<lambda>db list. case list of
          None \<Rightarrow> (db, Some (StandardErrReply ''ERR no such key''))
        | Some l \<Rightarrow>
            (case list_index index (QL_Len l) of
               None \<Rightarrow> (db, Some outOfRange)
             | Some i \<Rightarrow>
                 onValue (QL_Set l i value) db (\<lambda>l.
                   (addAof (ToCmdLine3 ''lset'' args) (store key (EList l) db), Some OkReply))))))"

definition execRPop :: "'f handler" where
  "execRPop db args =
     (let key = str (args ! 0) in
      onLookup (getAsList db key) (\<lambda>db list. case list of
        None \<Rightarrow> (db, Some NullBulkReply)
      | Some l \<Rightarrow>
          if length args = 2 then
            onInt notInteger (args ! 1) db (\<lambda>cnt.
              let cnt = (if cnt > QL_Len l then QL_Len l else cnt) in
              onValue (if make_ok 24 cnt then rpop_loop (nat cnt) l [] else None) db (\<lambda>(l, vals).
                (addAof (ToCmdLine3 ''rpop'' args) (close_list key l db), Some (MultiBulkReply vals))))
          else
            onValue (QL_RemoveLast l) db (\<lambda>(l, val).
              (addAof (ToCmdLine3 ''rpop'' args) (close_list key l db), Some (BulkReply (Option.bind val id))))))"

definition prepareRPopLPush :: "cmdline \<Rightarrow> string list \<times> string list" where
  "prepareRPopLPush args = ([str (args ! 0), str (args ! 1)], [])"

text \<open>The list that a key's pointer leads to at this moment.\<close>

definition list_at :: "'f DB \<Rightarrow> string \<Rightarrow> bytes QuickList option" where
  "list_at db key = (case CD_Get (data db) key of Some (EList l) \<Rightarrow> Some l | _ \<Rightarrow> None)"

text \<open>
  The list calls of \<^verbatim>\<open>RPOPLPUSH\<close>. Source and destination may be the same list: each call works on what
  the key holds at that time.
\<close>

definition pop_push :: "string \<Rightarrow> string \<Rightarrow> bytes QuickList \<Rightarrow> 'f DB \<Rightarrow> ('f DB \<times> bytes) option" where
  "pop_push sourceKey destKey source db = do {
     (source, val) \<leftarrow> QL_RemoveLast source;
     let val = Option.bind val id;
     let db = store sourceKey (EList source) db;
     dest \<leftarrow> list_at db destKey;
     dest \<leftarrow> QL_Insert (grow db) dest 0 val;
     let db = store destKey (EList dest) db;
     source \<leftarrow> list_at db sourceKey;
     Some (if QL_Len source = 0 then Remove sourceKey db else db, val)
   }"

definition execRPopLPush :: "'f handler" where
  "execRPopLPush db args =
     (let sourceKey = str (args ! 0); destKey = str (args ! 1) in
      onLookup (getAsList db sourceKey) (\<lambda>db list. case list of
        None \<Rightarrow> (db, Some NullBulkReply)
      | Some source \<Rightarrow>
          onLookup (getOrInitList db destKey) (\<lambda>db dest.
            onValue (pop_push sourceKey destKey source db) db (\<lambda>(db, val).
              (addAof (ToCmdLine3 ''rpoplpush'' args) db, Some (BulkReply val))))))"

definition execRPush :: "'f handler" where
  "execRPush db args =
     (let key = str (args ! 0) in
      onLookup (getOrInitList db key) (\<lambda>db l.
        let l = foldl QL_Add l (tl args) in
        (addAof (ToCmdLine3 ''rpush'' args) (store key (EList l) db), Some (IntReply (QL_Len l)))))"

definition execRPushX :: "'f handler" where
  "execRPushX db args =
     (if length args < 2
      then (db, Some (StandardErrReply (''ERR wrong number of arguments for '' @ [CHR 0x27] @ ''rpush'' @ [CHR 0x27] @ '' command'')))
      else let key = str (args ! 0) in
        onLookup (getAsList db key) (\<lambda>db list. case list of
          None \<Rightarrow> (db, Some (IntReply 0))
        | Some l \<Rightarrow>
            let l = foldl QL_Add l (tl args) in
            (addAof (ToCmdLine3 ''rpushx'' args) (store key (EList l) db), Some (IntReply (QL_Len l)))))"

fun trim_left :: "nat \<Rightarrow> bytes QuickList \<Rightarrow> bytes QuickList option" where
  "trim_left 0 l = Some l"
| "trim_left (Suc n) l = (if QL_Len l > 0 then do { (l, _) \<leftarrow> QL_Remove l 0; trim_left n l } else Some l)"

fun trim_right :: "nat \<Rightarrow> bytes QuickList \<Rightarrow> bytes QuickList option" where
  "trim_right 0 l = Some l"
| "trim_right (Suc n) l = (if QL_Len l > 0 then do { (l, _) \<leftarrow> QL_RemoveLast l; trim_right n l } else Some l)"

definition execLTrim :: "'f handler" where
  "execLTrim db args =
     (let n = length args in
      if n \<noteq> 3
      then (db, Some (StandardErrReply (''ERR wrong number of arguments (given '' @ Itoa (int n) @ '', expected 3)'')))
      else let key = str (args ! 0) in
        onInt notInteger (args ! 1) db (\<lambda>start.
          onInt notInteger (args ! 2) db (\<lambda>stop.
            onLookup (getAsList db key) (\<lambda>db list. case list of
              None \<Rightarrow> (db, Some OkReply)
            | Some l \<Rightarrow>
                let len = QL_Len l;
                    leftCount = (if start < 0 then start + len else start);
                    rightCount = len - (if stop < 0 then stop + len else stop) - 1
                in onValue (do { l \<leftarrow> trim_left (nat leftCount) l; trim_right (nat rightCount) l }) db (\<lambda>l.
                     (addAof (ToCmdLine3 ''ltrim'' args) (store key (EList l) db), Some OkReply))))))"

definition execLInsert :: "'f handler" where
  "execLInsert db args =
     (if length args \<noteq> 4
      then (db, Some (StandardErrReply (''ERR wrong number of arguments for '' @ [CHR 0x27] @ ''linsert'' @ [CHR 0x27] @ '' command'')))
      else let key = str (args ! 0) in
        onLookup (getAsList db key) (\<lambda>db list. case list of
          None \<Rightarrow> (db, Some (IntReply 0))
        | Some l \<Rightarrow>
            let dir = ToLower (str (args ! 1)) in
            if dir \<noteq> ''before'' \<and> dir \<noteq> ''after'' then (db, Some (StandardErrReply ''ERR syntax error''))
            else let pivot = str (args ! 2) in
              onValue (QL_ForEach l (\<lambda>index i v. if str v = pivot then (False, i) else (True, index)) (- 1)) db (\<lambda>index.
                if index = - 1 then (db, Some (IntReply (- 1)))
                else onValue (QL_Insert (grow db) l (if dir = ''before'' then index else index + 1) (args ! 3)) db (\<lambda>l.
                  (addAof (ToCmdLine3 ''linsert'' args) (store key (EList l) db), Some (IntReply (QL_Len l)))))))"

section \<open>Undo functions\<close>

definition undoLPush :: "'f DB \<Rightarrow> cmdline \<Rightarrow> 'f DB \<times> cmdline list option" where
  "undoLPush db args = (db, Some (replicate (length args - 1) (ToCmdLine [''LPOP'', str (args ! 0)])))"

definition undoRPush :: "'f DB \<Rightarrow> cmdline \<Rightarrow> 'f DB \<times> cmdline list option" where
  "undoRPush db args = (db, Some (replicate (length args - 1) (ToCmdLine [''RPOP'', str (args ! 0)])))"

text \<open>The list of a key for an undo function: nothing to undo without one, or with an empty one.\<close>

definition undo_list :: "'f DB \<Rightarrow> string \<Rightarrow> (bytes QuickList \<Rightarrow> cmdline list option) \<Rightarrow> 'f DB \<times> cmdline list option" where
  "undo_list db key f =
     (case getAsList db key of
        (db, Inr (Some l)) \<Rightarrow> (db, if QL_Len l = 0 then Some [] else f l)
      | (db, _) \<Rightarrow> (db, Some []))"

definition undoLPop :: "'f DB \<Rightarrow> cmdline \<Rightarrow> 'f DB \<times> cmdline list option" where
  "undoLPop db args =
     undo_list db (str (args ! 0)) (\<lambda>l.
       if length args = 2 then
         (case ParseInt (str (args ! 1)) of
            None \<Rightarrow> Some []
          | Some cnt \<Rightarrow>
              let cnt = (if cnt > QL_Len l then QL_Len l else cnt) in
              if \<not> make_ok 24 cnt then None
              else map_option (\<lambda>vals. [[Some ''LPUSH'', args ! 0] @ rev vals]) (QL_Range l 0 cnt))
       else map_option (\<lambda>element. [[Some ''LPUSH'', args ! 0, element]]) (QL_Get l 0))"

definition undoRPop :: "'f DB \<Rightarrow> cmdline \<Rightarrow> 'f DB \<times> cmdline list option" where
  "undoRPop db args =
     undo_list db (str (args ! 0)) (\<lambda>l.
       if length args = 2 then
         (case ParseInt (str (args ! 1)) of
            None \<Rightarrow> Some []
          | Some cnt \<Rightarrow>
              let cnt = (if cnt > QL_Len l then QL_Len l else cnt) in
              if \<not> make_ok 24 cnt then None
              else map_option (\<lambda>vals. [[Some ''RPUSH'', args ! 0] @ vals]) (QL_Range l (QL_Len l - cnt) (QL_Len l)))
       else map_option (\<lambda>element. [[Some ''RPUSH'', args ! 0, element]]) (QL_Get l (QL_Len l - 1)))"

definition undoRPopLPush :: "'f DB \<Rightarrow> cmdline \<Rightarrow> 'f DB \<times> cmdline list option" where
  "undoRPopLPush db args =
     undo_list db (str (args ! 0)) (\<lambda>l.
       map_option (\<lambda>element. [[Some ''RPUSH'', args ! 0, element], [Some ''LPOP'', args ! 1]]) (QL_Get l (QL_Len l - 1)))"

definition undoLSet :: "'f DB \<Rightarrow> cmdline \<Rightarrow> 'f DB \<times> cmdline list option" where
  "undoLSet db args =
     (case ParseInt (str (args ! 1)) of
        None \<Rightarrow> (db, Some [])
      | Some index \<Rightarrow>
          (case getAsList db (str (args ! 0)) of
             (db, Inr (Some l)) \<Rightarrow>
               (db, case list_index index (QL_Len l) of
                      None \<Rightarrow> Some []
                    | Some i \<Rightarrow> map_option (\<lambda>value. [[Some ''LSET'', args ! 0, args ! 1, value]]) (QL_Get l i))
           | (db, _) \<Rightarrow> (db, Some [])))"

text \<open>The list a push works on: the one that is stored, or a new one.\<close>

definition pushes_to :: "'f DB \<Rightarrow> string \<Rightarrow> bytes QuickList \<Rightarrow> int option \<Rightarrow> bool" where
  "pushes_to db key l t \<longleftrightarrow> (live db key = None \<and> l = NewQuickList \<and> t = None) \<or> live db key = Some (EList l, t)"

section \<open>Lemmas\<close>

subsection \<open>The loops on lists\<close>

lemma lpop_loop_abs:
  "QL_inv l \<Longrightarrow> n \<le> length (QL_abs l) \<Longrightarrow>
   \<exists>l'. lpop_loop n l vals = Some (l', vals @ take n (QL_abs l)) \<and> QL_inv l' \<and> QL_abs l' = drop n (QL_abs l)"
proof (induction n arbitrary: l vals)
  case (Suc n)
  from QL_Remove_abs [OF Suc.prems(1), of 0] Suc.prems(2) obtain l' where
    r: "QL_Remove l 0 = Some (l', QL_abs l ! 0)" "QL_inv l'" "QL_abs l' = tl (QL_abs l)"
    by (cases "QL_abs l") (auto split: option.splits)
  with Suc.IH [OF r(2), of "vals @ [QL_abs l ! 0]"] Suc.prems(2) show ?case
    by (cases "QL_abs l") auto
qed simp

lemma rpop_loop_abs:
  "QL_inv l \<Longrightarrow> n \<le> length (QL_abs l) \<Longrightarrow>
   \<exists>l'. rpop_loop n l vals = Some (l', vals @ take n (rev (QL_abs l))) \<and> QL_inv l' \<and>
     QL_abs l' = take (length (QL_abs l) - n) (QL_abs l)"
proof (induction n arbitrary: l vals)
  case (Suc n)
  then have ne: "QL_abs l \<noteq> []" by auto
  from QL_RemoveLast_abs [OF Suc.prems(1)] ne obtain l' where
    r: "QL_RemoveLast l = Some (l', Some (last (QL_abs l)))" "QL_inv l'" "QL_abs l' = butlast (QL_abs l)"
    by auto
  from Suc.IH [OF r(2), of "vals @ [last (QL_abs l)]"] Suc.prems(2) r(1,3) ne show ?case
    by (cases "QL_abs l" rule: rev_cases) auto
qed simp

lemma lpush_loop_abs: "QL_inv l \<Longrightarrow> \<exists>l'. lpush_loop g vs l = Some l' \<and> QL_inv l' \<and> QL_abs l' = rev vs @ QL_abs l"
proof (induction vs arbitrary: l)
  case (Cons v vs)
  from QL_Insert_abs [OF Cons.prems, of 0 v g] obtain l' where
    r: "QL_Insert g l 0 v = Some l'" "QL_inv l'" "QL_abs l' = v # QL_abs l"
    by (auto simp: go_insert_def split: option.splits)
  with Cons.IH [OF r(2)] show ?case by auto
qed simp

lemma QL_Adds_abs: "QL_inv l \<Longrightarrow> QL_inv (foldl QL_Add l vs) \<and> QL_abs (foldl QL_Add l vs) = QL_abs l @ vs"
  by (induction vs arbitrary: l) (simp_all add: QL_Add_abs)

lemma trim_left_abs: "QL_inv l \<Longrightarrow> \<exists>l'. trim_left n l = Some l' \<and> QL_inv l' \<and> QL_abs l' = drop n (QL_abs l)"
proof (induction n arbitrary: l)
  case (Suc n)
  show ?case
  proof (cases "QL_abs l")
    case Nil
    with Suc.prems show ?thesis by (simp add: QL_Len_def QL_inv_size)
  next
    case (Cons x xs)
    from QL_Remove_abs [OF Suc.prems, of 0] Cons obtain l' where
      r: "QL_Remove l 0 = Some (l', x)" "QL_inv l'" "QL_abs l' = xs" by (auto split: option.splits)
    with Suc.IH [OF r(2)] Cons Suc.prems show ?thesis by (simp add: QL_Len_def QL_inv_size)
  qed
qed simp

lemma trim_right_abs:
  "QL_inv l \<Longrightarrow> \<exists>l'. trim_right n l = Some l' \<and> QL_inv l' \<and> QL_abs l' = take (length (QL_abs l) - n) (QL_abs l)"
proof (induction n arbitrary: l)
  case (Suc n)
  show ?case
  proof (cases "QL_abs l" rule: rev_cases)
    case Nil
    with Suc.prems show ?thesis by (simp add: QL_Len_def QL_inv_size)
  next
    case (snoc xs x)
    from QL_RemoveLast_abs [OF Suc.prems] snoc obtain l' where
      r: "QL_RemoveLast l = Some (l', Some x)" "QL_inv l'" "QL_abs l' = xs" by auto
    with Suc.IH [OF r(2)] snoc Suc.prems show ?thesis by (simp add: QL_Len_def QL_inv_size)
  qed
qed simp

text \<open>The same, as facts about a result.\<close>

lemma lpop_loop_inv: "lpop_loop n l vals = Some (l', r) \<Longrightarrow> QL_inv l \<Longrightarrow> QL_inv l'"
proof (induction n arbitrary: l vals)
  case (Suc n)
  then obtain l1 v where "QL_Remove l 0 = Some (l1, v)" "lpop_loop n l1 (vals @ [v]) = Some (l', r)"
    by (auto split: bind_splits)
  with QL_Remove_abs [OF Suc.prems(2), of 0] Suc.IH show ?case by auto
qed simp

lemma rpop_loop_inv: "rpop_loop n l vals = Some (l', r) \<Longrightarrow> QL_inv l \<Longrightarrow> QL_inv l'"
proof (induction n arbitrary: l vals)
  case (Suc n)
  then obtain l1 v where "QL_RemoveLast l = Some (l1, Some v)" "rpop_loop n l1 (vals @ [v]) = Some (l', r)"
    by (auto split: bind_splits)
  with QL_RemoveLast_abs [OF Suc.prems(2)] Suc.IH show ?case by auto
qed simp

lemma lpush_loop_inv: "lpush_loop g vs l = Some l' \<Longrightarrow> QL_inv l \<Longrightarrow> QL_inv l'"
  using lpush_loop_abs [of l g vs] by auto

lemma trim_inv: "Option.bind (trim_left m l) (trim_right n) = Some l' \<Longrightarrow> QL_inv l \<Longrightarrow> QL_inv l'"
proof -
  assume r: "Option.bind (trim_left m l) (trim_right n) = Some l'" and "QL_inv l"
  then obtain l1 where "trim_left m l = Some l1" "QL_inv l1" using trim_left_abs by blast
  with r trim_right_abs [of l1 n] show ?thesis by auto
qed

lemma QL_Set_inv: "QL_Set l i v = Some l' \<Longrightarrow> QL_inv l \<Longrightarrow> QL_inv l'"
  using QL_Set_abs [of l i v] by auto

lemma QL_Insert_inv: "QL_Insert g l i v = Some l' \<Longrightarrow> QL_inv l \<Longrightarrow> QL_inv l'"
  using QL_Insert_abs [of l i v g] by auto

lemma QL_Remove_inv: "QL_Remove l i = Some (l', v) \<Longrightarrow> QL_inv l \<Longrightarrow> QL_inv l'"
  using QL_Remove_abs [of l i] by auto

lemma QL_RemoveLast_inv: "QL_RemoveLast l = Some (l', v) \<Longrightarrow> QL_inv l \<Longrightarrow> QL_inv l'"
  using QL_RemoveLast_abs [of l] by auto

lemmas list_invs = lpop_loop_inv rpop_loop_inv lpush_loop_inv trim_inv QL_Set_inv QL_Insert_inv QL_Remove_inv QL_RemoveLast_inv

subsection \<open>What the handlers change\<close>

lemma within_close_list [outcomes]:
  "within K db0 db \<Longrightarrow> key \<in> K \<Longrightarrow> QL_inv l \<Longrightarrow> within K db0 (close_list key l db)"
  by (simp add: close_list_def Let_def within_store within_Remove)

lemma execLIndex_outcome: "DB_ok db \<Longrightarrow> outcome K db (fst (execLIndex db args))"
  by (auto simp: execLIndex_def intro!: outcomes split: option.split)

lemma execLLen_outcome: "DB_ok db \<Longrightarrow> outcome K db (fst (execLLen db args))"
  by (auto simp: execLLen_def intro!: outcomes)

lemma execLPop_outcome: "DB_ok db \<Longrightarrow> outcome {str (args ! 0)} db (fst (execLPop db args))"
  by (auto simp: execLPop_def Let_def intro!: outcomes split: if_splits) (blast dest: list_invs)+

lemma execRPop_outcome: "DB_ok db \<Longrightarrow> outcome {str (args ! 0)} db (fst (execRPop db args))"
  by (auto simp: execRPop_def Let_def intro!: outcomes split: if_splits) (blast dest: list_invs)+

lemma execLPushX_outcome: "DB_ok db \<Longrightarrow> outcome {str (args ! 0)} db (fst (execLPushX db args))"
  by (auto simp: execLPushX_def Let_def intro!: outcomes) (blast dest: list_invs)+

lemma execRPushX_outcome: "DB_ok db \<Longrightarrow> outcome {str (args ! 0)} db (fst (execRPushX db args))"
  by (auto simp: execRPushX_def Let_def QL_Adds_abs intro!: outcomes)

lemma execLSet_outcome: "DB_ok db \<Longrightarrow> outcome {str (args ! 0)} db (fst (execLSet db args))"
  by (auto simp: execLSet_def Let_def intro!: outcomes split: option.split) (blast dest: list_invs)+

lemma execLTrim_outcome: "DB_ok db \<Longrightarrow> outcome {str (args ! 0)} db (fst (execLTrim db args))"
  by (auto simp: execLTrim_def Let_def intro!: outcomes) (blast dest: list_invs)+

lemma execLInsert_outcome: "DB_ok db \<Longrightarrow> outcome {str (args ! 0)} db (fst (execLInsert db args))"
  by (auto simp: execLInsert_def Let_def intro!: outcomes) (blast dest: list_invs)+

lemma execLRange_outcome: "DB_ok db \<Longrightarrow> outcome K db (fst (execLRange db args))"
  by (auto simp: execLRange_def Let_def intro!: outcomes)

text \<open>A list is looked up or created; no live key loses its value.\<close>

lemma getOrInitList_outcome:
  assumes "within {} db0 db" and "key \<in> K"
    and "\<And>db' l. within K db0 db' \<Longrightarrow> QL_inv l \<Longrightarrow> CD_Get (data db') key = Some (EList l) \<Longrightarrow>
      (\<And>k e t. live db k = Some (e, t) \<Longrightarrow> CD_Get (data db') k = Some e) \<Longrightarrow> outcome K db0 (fst (f db' l))"
  shows "outcome K db0 (fst (onLookup (getOrInitList db key) f))"
proof -
  have ok: "DB_ok db" by (rule within_ok [OF assms(1)])
  have t: "within {} db0 (touch key db)" using assms(1) by (rule within_touch)
  then have tK: "within K db0 (touch key db)" by (rule within_mono) simp
  then have n: "within K db0 (fst (PutEntity key (EList NewQuickList) (touch key db)))"
    using assms(2) by (rule within_PutEntity) (simp add: QL_New)
  have keep: "CD_Get (data (touch key db)) k = Some e" if "live db k = Some (e, t)" for k e t
    using that ok by (auto simp: data_touch live_Some)
  consider "live db key = None" | l ttl where "live db key = Some (EList l, ttl)"
    | e ttl where "live db key = Some (e, ttl)" "\<And>l. e \<noteq> EList l"
    by (cases "live db key") (auto, metis)
  then show ?thesis
  proof cases
    case 1
    have "CD_Get (data (fst (PutEntity key (EList NewQuickList) (touch key db)))) k = Some e"
      if "live db k = Some (e, t)" for k e t
      using keep [OF that] that 1 ok by auto
    with assms(3) [OF n] 1 ok show ?thesis by (simp add: onLookup_def getOrInitList_def lookups QL_New)
  next
    case (2 l ttl)
    with assms(3) [OF tK, of l] keep live_entity_ok [OF ok 2] ok show ?thesis
      by (simp add: onLookup_def getOrInitList_def lookups data_touch)
  next
    case 3
    with ok t show ?thesis
      by (cases e) (auto simp: onLookup_def getOrInitList_def lookups intro: outcome_read)
  qed
qed

lemma execLPush_outcome: "DB_ok db \<Longrightarrow> outcome {str (args ! 0)} db (fst (execLPush db args))"
proof -
  have "outcome {str (args ! 0)} db (fst (onValue (lpush_loop (grow db') (tl args) l) db' (\<lambda>l.
      (addAof line (store (str (args ! 0)) (EList l) db'), Some (IntReply (QL_Len l))))))"
    if "within {str (args ! 0)} db db'" "QL_inv l" for db' l line
    using lpush_loop_abs [OF that(2), of "grow db'" "tl args"] that(1)
    by (auto simp: onValue_def intro!: outcome_logged within_store)
  then show "DB_ok db \<Longrightarrow> ?thesis" by (simp add: execLPush_def Let_def getOrInitList_outcome within_refl)
qed

lemma execRPush_outcome: "DB_ok db \<Longrightarrow> outcome {str (args ! 0)} db (fst (execRPush db args))"
  by (simp add: execRPush_def Let_def getOrInitList_outcome within_refl outcome_logged within_store QL_Adds_abs)

lemma list_at_store: "CD_inv (data db) \<Longrightarrow> list_at db key = Some l \<Longrightarrow>
    list_at (store key' (EList l') db) key = Some (if key = key' then l' else l)"
  by (auto simp: list_at_def store_eq PutIfExists_eq split: option.splits)

lemma list_at_inv: "DB_ok db \<Longrightarrow> list_at db key = Some l \<Longrightarrow> QL_inv l"
  using DB_okD(4) [of db key "EList l"] by (auto simp: list_at_def split: option.splits entity.splits)

text \<open>The list operations of \<^verbatim>\<open>RPOPLPUSH\<close> do not panic.\<close>

lemma pop_push_within:
  assumes "within K db0 db" and "{s, d} \<subseteq> K" and "list_at db s = Some source" and "list_at db d = Some dest"
  shows "\<exists>db' val. pop_push s d source db = Some (db', val) \<and> within K db0 db'"
proof -
  obtain s1 v where s1: "QL_RemoveLast source = Some (s1, v)" "QL_inv s1"
    using QL_RemoveLast_abs [OF list_at_inv [OF within_ok [OF assms(1)] assms(3)]] by blast
  let ?db1 = "store s (EList s1) db"
  have w1: "within K db0 ?db1" using assms(1,2) s1(2) by (intro within_store) auto
  obtain d1 where d1: "list_at ?db1 d = Some d1" "QL_inv d1"
    using list_at_store [of db d dest s s1] assms(1,4) within_ok [OF assms(1)] list_at_inv [OF within_ok [OF w1], of d]
    by fastforce
  obtain d2 where d2: "QL_Insert (grow ?db1) d1 0 (Option.bind v id) = Some d2" "QL_inv d2"
    using QL_Insert_abs [OF d1(2), of 0 "Option.bind v id" "grow ?db1"] by (auto simp: go_insert_def split: option.splits)
  let ?db2 = "store d (EList d2) ?db1"
  have w2: "within K db0 ?db2" using assms(2) d2(2) by (intro within_store [OF w1]) auto
  have "list_at ?db1 s = Some s1" using list_at_store [of db s source s s1] assms(3) within_ok [OF assms(1)] by simp
  then obtain s2 where "list_at ?db2 s = Some s2"
    using list_at_store [of ?db1 s s1 d d2] within_ok [OF w1] by simp
  with s1 d1 d2 w2 assms(2) show ?thesis by (auto simp: pop_push_def Let_def intro: within_Remove)
qed

lemma execRPopLPush_outcome:
  "DB_ok db \<Longrightarrow> outcome {str (args ! 0), str (args ! 1)} db (fst (execRPopLPush db args))"
proof -
  let ?s = "str (args ! 0)" and ?d = "str (args ! 1)"
  assume ok: "DB_ok db"
  let ?K = "{?s, ?d}"
  have "outcome ?K db (fst (onLookup (getOrInitList (touch ?s db) ?d) (\<lambda>db dest.
      onValue (pop_push ?s ?d l db) db (\<lambda>(db, val). (addAof line db, Some (BulkReply val))))))"
    if l: "live db ?s = Some (EList l, t)" for l t line
  proof (rule getOrInitList_outcome)
    show "within {} db (touch ?s db)" by (rule within_touch [OF within_refl [OF ok]])
    fix db' dest
    assume w: "within ?K db db'" and d: "CD_Get (data db') ?d = Some (EList dest)"
      and keep: "\<And>k e t. live (touch ?s db) k = Some (e, t) \<Longrightarrow> CD_Get (data db') k = Some e"
    have "list_at db' ?s = Some l" "list_at db' ?d = Some dest" using keep [of ?s] l d ok by (simp_all add: list_at_def)
    then obtain db'' val where "pop_push ?s ?d l db' = Some (db'', val)" "within ?K db db''"
      using pop_push_within [OF w, of ?s ?d l dest] by auto
    then show "outcome ?K db (fst (onValue (pop_push ?s ?d l db') db' (\<lambda>(db, val). (addAof line db, Some (BulkReply val)))))"
      by (simp add: onValue_def outcome_logged)
  qed simp
  then show ?thesis unfolding execRPopLPush_def Let_def
    by (intro outcome_onList [OF within_refl [OF ok]]) (auto intro: outcome_touch within_refl ok)
qed

lemma QL_RemoveAllByVal_inv: "QL_RemoveAllByVal f l = Some (l', n) \<Longrightarrow> QL_inv l \<Longrightarrow> QL_inv l'"
proof (cases "QL_abs l = []")
  case True
  assume "QL_RemoveAllByVal f l = Some (l', n)" "QL_inv l"
  with True QL_find_None [of l 0] show ?thesis by (simp add: QL_RemoveAllByVal_def)
next
  case False
  assume "QL_RemoveAllByVal f l = Some (l', n)" "QL_inv l"
  with QL_RemoveAllByVal_abs [OF this(2) False, of f] show ?thesis by auto
qed

lemma lrem_inv:
  assumes "(if n = 0 then QL_RemoveAllByVal f l else if n > 0 then QL_RemoveByVal f n l
      else QL_ReverseRemoveByVal f (wrap64 (- n)) l) = Some (l', m)" and "QL_inv l"
  shows "QL_inv l'"
  using assms QL_RemoveAllByVal_inv [of f l l' m] QL_RemoveByVal_abs [OF assms(2), of f n]
    QL_ReverseRemoveByVal_abs [OF assms(2), of f "wrap64 (- n)"] by (auto split: if_splits)

text \<open>\<^verbatim>\<open>LREM\<close> removes an empty list that \<^verbatim>\<open>LTRIM\<close> has left behind, without logging it.\<close>

lemma execLRem_within: "DB_ok db \<Longrightarrow> within {str (args ! 0)} db (fst (execLRem db args))"
proof -
  let ?key = "str (args ! 0)"
  assume ok: "DB_ok db"
  have t: "within {?key} db (touch ?key db)" by (rule within_touch [OF within_refl [OF ok]])
  have body: "within {?key} db (fst (onValue (if n = 0 then QL_RemoveAllByVal f l else if n > 0 then QL_RemoveByVal f n l
      else QL_ReverseRemoveByVal f (wrap64 (- n)) l) (touch ?key db) (\<lambda>(l, removed).
        (if removed > 0 then addAof line (close_list ?key l (touch ?key db)) else close_list ?key l (touch ?key db),
         Some (IntReply removed)))))" if "QL_inv l" for n f l line
    using lrem_inv [OF _ that, of n f] t
    by (auto simp: onValue_def intro!: within_addAof within_close_list simp del: if_split split: option.split)
  show ?thesis
    using ok t live_entity_ok [OF ok, of ?key]
    by (auto simp: execLRem_def Let_def onInt_def onLookup_def lookups intro!: within_refl body
        split: option.split prod.split entity.split split del: if_split)
qed

subsection \<open>What the handlers store and reply\<close>

lemma getOrInitList_live:
  assumes "DB_ok db" and "pushes_to db key l t"
  shows "\<exists>db'. getOrInitList db key = (db', Inr l) \<and> DB_ok db' \<and> live db' = (live db)(key \<mapsto> (EList l, t)) \<and> clock db' = clock db"
  using assms
  by (auto simp: pushes_to_def getOrInitList_def lookups live_put_touch QL_New fun_upd_idem)

lemma pushes_to_inv: "DB_ok db \<Longrightarrow> pushes_to db key l t \<Longrightarrow> QL_inv l"
  using live_entity_ok [of db key "EList l" t] by (auto simp: pushes_to_def QL_New)

lemma execRPush_live:
  assumes "DB_ok db" and "pushes_to db (str k) l t"
  shows "snd (execRPush db (k # vs)) = Some (IntReply (int (length (QL_abs l) + length vs)))"
    and "DB_ok (fst (execRPush db (k # vs)))"
    and "live (fst (execRPush db (k # vs))) = (live db)(str k \<mapsto> (EList (foldl QL_Add l vs), t))"
proof -
  obtain db' where g: "getOrInitList db (str k) = (db', Inr l)" "DB_ok db'" "live db' = (live db)(str k \<mapsto> (EList l, t))"
    using getOrInitList_live [OF assms] by blast
  have inv: "QL_inv (foldl QL_Add l vs)" "QL_abs (foldl QL_Add l vs) = QL_abs l @ vs"
    using QL_Adds_abs [OF pushes_to_inv [OF assms]] by auto
  have e: "execRPush db (k # vs) = (addAof (ToCmdLine3 ''rpush'' (k # vs)) (store (str k) (EList (foldl QL_Add l vs)) db'),
      Some (IntReply (QL_Len (foldl QL_Add l vs))))"
    using g(1) by (simp add: execRPush_def Let_def onLookup_def)
  show "snd (execRPush db (k # vs)) = Some (IntReply (int (length (QL_abs l) + length vs)))"
    using inv by (simp add: e QL_Len_def QL_inv_size)
  show "DB_ok (fst (execRPush db (k # vs)))" using inv g(2) by (simp add: e DB_ok_store)
  show "live (fst (execRPush db (k # vs))) = (live db)(str k \<mapsto> (EList (foldl QL_Add l vs), t))"
    using live_store [OF g(2), of "str k" "EList l" t "EList (foldl QL_Add l vs)"] g(3) by (simp add: e)
qed

lemma execLPop_live:
  assumes "DB_ok db" and "live db (str k) = Some (EList l, t)" and "ParseInt (str n) = Some c" and "0 \<le> c"
    and "length (QL_abs l) < 2 ^ 40"
  shows "\<exists>l'. QL_abs l' = drop (nat c) (QL_abs l) \<and>
    snd (execLPop db [k, n]) = Some (MultiBulkReply (take (nat c) (QL_abs l))) \<and>
    live (fst (execLPop db [k, n])) = (live db)(str k := (if QL_abs l' = [] then None else Some (EList l', t)))"
proof -
  have inv: "QL_inv l" using live_entity_ok [OF assms(1,2)] by simp
  let ?c = "if c > QL_Len l then QL_Len l else c"
  have len: "QL_Len l = int (length (QL_abs l))" by (simp add: QL_Len_def QL_inv_size [OF inv])
  have m: "make_ok 24 ?c" using assms(4,5) len by (auto simp: make_ok_def maxAlloc_def)
  have c: "nat ?c = min (nat c) (length (QL_abs l))" using len assms(4) by auto
  from lpop_loop_abs [OF inv, of "nat ?c" "[]"] c obtain l' where
    l': "lpop_loop (nat ?c) l [] = Some (l', take (nat c) (QL_abs l))" "QL_inv l'" "QL_abs l' = drop (nat c) (QL_abs l)"
    by (auto simp: min_def split: if_splits)
  have e: "execLPop db [k, n] = (addAof (ToCmdLine3 ''lpop'' [k, n]) (close_list (str k) l' (touch (str k) db)),
      Some (MultiBulkReply (take (nat c) (QL_abs l))))"
    using assms(1-3) m l'(1) by (simp add: execLPop_def Let_def onLookup_def lookups onInt_def onValue_def)
  have s: "live (store (str k) (EList l') (touch (str k) db)) = (live db)(str k \<mapsto> (EList l', t))"
    using live_store [of "touch (str k) db" "str k" "EList l" t "EList l'"] assms(1,2) by simp
  have "QL_Len l' = 0 \<longleftrightarrow> QL_abs l' = []" by (simp add: QL_Len_def QL_inv_size [OF l'(2)])
  with e s l'(2,3) assms(1) show ?thesis
    by (intro exI [of _ l']) (auto simp: close_list_def Let_def live_Remove DB_ok_store fun_eq_iff)
qed

text \<open>
  C24: a list is a queue. \<^verbatim>\<open>RPUSH\<close> of \<open>vs\<close> on a key that holds the list \<open>xs\<close> (or on a missing key, with \<open>xs\<close>
  empty) replies the new length; \<^verbatim>\<open>LPOP key c\<close> then answers the first \<open>c\<close> elements of \<open>xs @ vs\<close> in order, keeps
  the others and the expiration time, removes the key when nothing is left, and touches no other
  key.
\<close>

theorem execRPush_execLPop:
  assumes "DB_ok db" and "pushes_to db (str k) l t" and "ParseInt (str n) = Some c" and "0 \<le> c"
    and "length (QL_abs l) + length vs < 2 ^ 40"
  shows "snd (execRPush db (k # vs)) = Some (IntReply (int (length (QL_abs l) + length vs))) \<and>
    (\<exists>l'. QL_abs l' = drop (nat c) (QL_abs l @ vs) \<and>
      snd (execLPop (fst (execRPush db (k # vs))) [k, n]) = Some (MultiBulkReply (take (nat c) (QL_abs l @ vs))) \<and>
      live (fst (execLPop (fst (execRPush db (k # vs))) [k, n])) =
        (live db)(str k := (if QL_abs l' = [] then None else Some (EList l', t))))"
proof -
  note push = execRPush_live [OF assms(1,2), of vs]
  have abs: "QL_abs (foldl QL_Add l vs) = QL_abs l @ vs" using QL_Adds_abs [OF pushes_to_inv [OF assms(1,2)]] by simp
  from execLPop_live [OF push(2), of k "foldl QL_Add l vs" t n c] assms(3-5) abs push(3) obtain l' where
    "QL_abs l' = drop (nat c) (QL_abs l @ vs)"
    "snd (execLPop (fst (execRPush db (k # vs))) [k, n]) = Some (MultiBulkReply (take (nat c) (QL_abs l @ vs)))"
    "live (fst (execLPop (fst (execRPush db (k # vs))) [k, n])) =
      (live (fst (execRPush db (k # vs))))(str k := (if QL_abs l' = [] then None else Some (EList l', t)))" by auto
  with push show ?thesis by (intro conjI exI [of _ l']) simp_all
qed

theorem execRPush_execLPop_witness:
  "snd (execLPop (fst (execRPush (tinyDB 5) [Some ''q'', Some ''a'', Some ''b'', Some ''c''])) [Some ''q'', Some ''2''])
     = Some (MultiBulkReply [Some ''a'', Some ''b''])"
proof -
  have "ParseInt (str (Some ''2'')) = Some 2" by code_simp
  moreover have "pushes_to (tinyDB 5) (str (Some ''q'')) NewQuickList None" by (simp add: pushes_to_def)
  ultimately show ?thesis
    using execRPush_execLPop [of "tinyDB 5" "Some ''q''" NewQuickList None "Some ''2''" 2 "[Some ''a'', Some ''b'', Some ''c'']"]
    by (auto simp: QL_New)
qed

end
