(* ===== verification/Scan.thy ===== *)
theory Scan
  imports Utils
begin

text \<open>
  \<^verbatim>\<open>lib/wildcard/wildcard.go\<close> and the scan operations of the containers: \<^verbatim>\<open>DictScan\<close> of both
  dictionaries, \<^verbatim>\<open>SetScan\<close> and \<^verbatim>\<open>ZSetScan\<close>. A pattern is translated to the source of a regular expression;
  what that expression matches is an argument.
\<close>

section \<open>Patterns\<close>

definition backslash :: char where "backslash = CHR 0x5C"

definition replaceMap :: "char \<Rightarrow> string option" where
  "replaceMap ch =
     (if ch \<in> set ''+)$.{}|'' then Some [backslash, ch]
      else if ch = CHR ''*'' then Some ''.*''
      else if ch = CHR ''?'' then Some ''.''
      else None)"

text \<open>
  The loop of \<^verbatim>\<open>CompilePattern\<close>; \<open>pre\<close> is what has been read of the pattern, last character first.
\<close>

fun compile_loop :: "string \<Rightarrow> string \<Rightarrow> string \<Rightarrow> string option" where
  "compile_loop pre [] regexSrc = Some regexSrc"
| "compile_loop pre (ch # rest) regexSrc =
     (if ch = backslash then
        (case rest of
           [] \<Rightarrow> None
         | c # rest' \<Rightarrow> compile_loop (c # ch # pre) rest' (regexSrc @ [ch, c]))
      else if ch = CHR ''^'' then
        compile_loop (ch # pre) rest (regexSrc @
          (case pre of
             [] \<Rightarrow> [backslash, ch]
           | [p] \<Rightarrow> if p = CHR ''['' then [ch] else [backslash, ch]
           | p # q # _ \<Rightarrow> if p = CHR ''['' \<and> q \<noteq> backslash then [ch] else [backslash, ch]))
      else (case replaceMap ch of
          Some escaped \<Rightarrow> compile_loop (ch # pre) rest (regexSrc @ escaped)
        | None \<Rightarrow> compile_loop (ch # pre) rest (regexSrc @ [ch])))"

definition CompilePattern :: "(string \<Rightarrow> (string \<Rightarrow> bool) option) \<Rightarrow> string \<Rightarrow> (string \<Rightarrow> bool) option" where
  "CompilePattern rx src =
     (case compile_loop [] src ''^'' of None \<Rightarrow> None | Some regexSrc \<Rightarrow> rx (regexSrc @ ''$''))"

section \<open>Scans\<close>

text \<open>
  \<^verbatim>\<open>ConcurrentDict.DictScan\<close>: the cursor is the index of a shard. The loop stops before a shard that
  would exceed \<open>cnt\<close> results, but always takes the shard at the cursor.
\<close>

fun scan_shards :: "(string \<Rightarrow> bool) \<Rightarrow> int \<Rightarrow> int \<Rightarrow> (string, 'v) gomap list \<Rightarrow> int \<Rightarrow> string list \<Rightarrow> string list \<times> int" where
  "scan_shards isMatch cnt cursor [] shardIndex result = (result, 0)"
| "scan_shards isMatch cnt cursor (shard # shards) shardIndex result =
     (if int (length result) + int (length shard) > cnt \<and> shardIndex > cursor then (result, shardIndex)
      else scan_shards isMatch cnt cursor shards (shardIndex + 1) (result @ filter isMatch (map fst shard)))"

definition CD_DictScan :: "(string \<Rightarrow> (string \<Rightarrow> bool) option) \<Rightarrow> 'v ConcurrentDict \<Rightarrow> int \<Rightarrow> int \<Rightarrow> string
    \<Rightarrow> (string list \<times> int) option" where
  "CD_DictScan rx d cursor cnt pattern =
     (if pattern = ''*'' \<and> cnt \<ge> CD_Len d then map_option (\<lambda>keys. (keys, 0)) (CD_Keys d)
      else case CompilePattern rx pattern of
        None \<Rightarrow> Some ([], - 1)
      | Some matchKey \<Rightarrow>
          if cursor \<ge> int (length (table d)) then Some ([], 0)
          else if cursor < 0 then None
          else Some (scan_shards (\<lambda>k. pattern = ''*'' \<or> matchKey k) cnt cursor (drop (nat cursor) (table d)) cursor []))"

definition SD_DictScan :: "(string \<Rightarrow> (string \<Rightarrow> bool) option) \<Rightarrow> bytes SimpleDict \<Rightarrow> int \<Rightarrow> int \<Rightarrow> string
    \<Rightarrow> bytes list \<times> int" where
  "SD_DictScan rx d cursor cnt pattern =
     (case CompilePattern rx pattern of
        None \<Rightarrow> ([], - 1)
      | Some matchKey \<Rightarrow>
          (concat (map (\<lambda>(k, v). if pattern = ''*'' \<or> matchKey k then [Some k, v] else []) (sd_m d)), 0))"

definition SetScan :: "(string \<Rightarrow> (string \<Rightarrow> bool) option) \<Rightarrow> unit SimpleDict \<Rightarrow> int \<Rightarrow> int \<Rightarrow> string
    \<Rightarrow> bytes list \<times> int" where
  "SetScan rx d cursor cnt pattern =
     (case CompilePattern rx pattern of
        None \<Rightarrow> ([], - 1)
      | Some matchKey \<Rightarrow>
          (SD_ForEach d (\<lambda>result member val.
             (True, if pattern = ''*'' \<or> matchKey member then result @ [Some member] else result)) [], 0))"

definition ZSetScan :: "'f env \<Rightarrow> 'f SortedSet \<Rightarrow> int \<Rightarrow> int \<Rightarrow> string \<Rightarrow> bytes list \<times> int" where
  "ZSetScan E z cursor cnt pattern =
     (case CompilePattern (regexpCompile E) pattern of
        None \<Rightarrow> ([], - 1)
      | Some matchKey \<Rightarrow>
          (concat (map (\<lambda>(k, elem). if pattern = ''*'' \<or> matchKey k
             then [Some k, Some (formatFloat10 E (Score elem))] else []) (ss_dict z)), 0))"

text \<open>
  A client that follows the cursor: it stops when the cursor is 0 or negative. The first argument
  bounds the number of calls.
\<close>

fun scan_client :: "nat \<Rightarrow> (string \<Rightarrow> (string \<Rightarrow> bool) option) \<Rightarrow> 'v ConcurrentDict \<Rightarrow> int \<Rightarrow> int \<Rightarrow> string
    \<Rightarrow> string list option" where
  "scan_client 0 rx d cursor cnt pattern = None"
| "scan_client (Suc fuel) rx d cursor cnt pattern =
     (case CD_DictScan rx d cursor cnt pattern of
        None \<Rightarrow> None
      | Some (ks, cursor') \<Rightarrow>
          if cursor' \<le> 0 then Some ks
          else map_option (\<lambda>ks'. ks @ ks') (scan_client fuel rx d cursor' cnt pattern))"

section \<open>Lemmas\<close>

text \<open>A call covers the shards from its cursor up to the one it returns.\<close>

lemma scan_shards_covers:
  assumes "scan_shards isMatch cnt cursor shards i acc = (ks, c)" and "cursor \<le> i" and "0 \<le> cursor"
  shows "(c = 0 \<and> ks = acc @ filter isMatch (map fst (concat shards))) \<or>
    (i \<le> c \<and> cursor < c \<and> c < i + int (length shards) \<and>
     ks = acc @ filter isMatch (map fst (concat (take (nat (c - i)) shards))))"
  using assms
proof (induction isMatch cnt cursor shards i acc rule: scan_shards.induct)
  case (2 isMatch cnt cursor shard shards i acc)
  show ?case
  proof (cases "int (length acc) + int (length shard) > cnt \<and> i > cursor")
    case True
    with 2 show ?thesis by auto
  next
    case False
    with "2.prems" have "scan_shards isMatch cnt cursor shards (i + 1) (acc @ filter isMatch (map fst shard)) = (ks, c)" by auto
    note step = "2.IH" [OF False this]
    consider "c = 0" "ks = (acc @ filter isMatch (map fst shard)) @ filter isMatch (map fst (concat shards))"
      | "i + 1 \<le> c" "cursor < c" "c < i + 1 + int (length shards)"
        "ks = (acc @ filter isMatch (map fst shard)) @ filter isMatch (map fst (concat (take (nat (c - (i + 1))) shards)))"
      using step "2.prems" by auto
    then show ?thesis
    proof cases
      case 1
      then show ?thesis by simp
    next
      case 2
      then have "nat (c - i) = Suc (nat (c - (i + 1)))" by simp
      with 2 show ?thesis by simp
    qed
  qed
qed simp

lemma filter_concat_split:
  "n \<le> length xss \<Longrightarrow> filter P (map f (concat xss)) = filter P (map f (concat (take n xss))) @ filter P (map f (concat (drop n xss)))"
  by (metis append_take_drop_id concat_append filter_append map_append)

lemma scan_client_from:
  assumes "CompilePattern rx pattern = Some m" and "\<not> (pattern = ''*'' \<and> cnt \<ge> CD_Len d)"
    and "n \<le> length (table d)"
  shows "fuel > length (table d) - n \<Longrightarrow> scan_client fuel rx d (int n) cnt pattern =
    Some (filter (\<lambda>k. pattern = ''*'' \<or> m k) (map fst (concat (drop n (table d)))))"
  using assms(3)
proof (induction fuel arbitrary: n)
  case (Suc fuel)
  let ?f = "\<lambda>xs. filter (\<lambda>k. pattern = ''*'' \<or> m k) (map fst (concat xs))"
  obtain ks c where k: "scan_shards (\<lambda>k. pattern = ''*'' \<or> m k) cnt (int n) (drop n (table d)) (int n) [] = (ks, c)" by fastforce
  have scan: "CD_DictScan rx d (int n) cnt pattern = (if n \<ge> length (table d) then Some ([], 0) else Some (ks, c))"
    unfolding CD_DictScan_def using assms(1,2) k by (auto simp: case_prod_beta)
  show ?case
  proof (cases "n \<ge> length (table d)")
    case True
    with scan show ?thesis by simp
  next
    case False
    from scan_shards_covers [OF k] consider "c = 0" "ks = ?f (drop n (table d))"
      | "int n < c" "c < int (length (table d))" "ks = ?f (take (nat (c - int n)) (drop n (table d)))"
      using False by force
    then show ?thesis
    proof cases
      case 1
      with False scan show ?thesis by simp
    next
      case 2
      define n' where "n' = nat c"
      have n': "int n' = c" "n' \<le> length (table d)" "fuel > length (table d) - n'" "n < n'"
        using 2 Suc.prems by (auto simp: n'_def)
      have "nat (c - int n) = n' - n" "n' - n + n = n'" "n' - n \<le> length (drop n (table d))" using n' by auto
      then have "?f (drop n (table d)) = ks @ ?f (drop n' (table d))"
        using filter_concat_split [of "n' - n" "drop n (table d)" "\<lambda>k. pattern = ''*'' \<or> m k" fst]
        unfolding 2(3) by (simp only: drop_drop)
      moreover have "\<not> c \<le> 0" using 2(1) by simp
      ultimately show ?thesis using Suc.IH [OF n'(3,2)] False unfolding n'(1)
        by (simp only: scan_client.simps scan if_False option.case prod.case option.map)
    qed
  qed
qed simp



end
