(* ===== verification/KeyCmds.thy ===== *)
theory KeyCmds
  imports Marshal Scan
begin

text \<open>
  \<^verbatim>\<open>database/keys.go\<close>: the commands on keys of any kind. \<^verbatim>\<open>COPY\<close> works on two databases and belongs to
  the server.
\<close>

definition execDel :: "'f handler" where
  "execDel db args =
     (case Removes (map str args) db of (db, deleted) \<Rightarrow>
        (if deleted > 0 then addAof (ToCmdLine3 ''del'' args) db else db, Some (IntReply deleted)))"

fun exists_loop :: "cmdline \<Rightarrow> int \<Rightarrow> 'f DB \<Rightarrow> 'f DB \<times> int" where
  "exists_loop [] result db = (db, result)"
| "exists_loop (arg # args) result db =
     (case GetEntity db (str arg) of
        (db, Some e) \<Rightarrow> exists_loop args (result + 1) db
      | (db, None) \<Rightarrow> exists_loop args result db)"

definition execExists :: "'f handler" where
  "execExists db args = (case exists_loop args 0 db of (db, result) \<Rightarrow> (db, Some (IntReply result)))"

definition execFlushDB :: "'f handler" where
  "execFlushDB db args = (addAof (ToCmdLine3 ''flushdb'' args) (Flush db), Some OkReply)"

definition getType :: "'f DB \<Rightarrow> string \<Rightarrow> 'f DB \<times> string" where
  "getType db key =
     (case GetEntity db key of
        (db, None) \<Rightarrow> (db, ''none'')
      | (db, Some e) \<Rightarrow> (db, case e of EString _ \<Rightarrow> ''string'' | EList _ \<Rightarrow> ''list'' | EHash _ \<Rightarrow> ''hash''
          | ESet _ \<Rightarrow> ''set'' | EZSet _ \<Rightarrow> ''zset''))"

definition execType :: "'f handler" where
  "execType db args =
     (case getType db (str (args ! 0)) of (db, result) \<Rightarrow>
        (db, Some (if length result > 0 then StatusReply result else UnknownErrReply)))"

definition prepareRename :: "cmdline \<Rightarrow> string list \<times> string list" where
  "prepareRename args = ([str (args ! 1)], [str (args ! 0)])"

definition execRename :: "'f handler" where
  "execRename db args =
     (if length args \<noteq> 2
      then (db, Some (StandardErrReply (''ERR wrong number of arguments for '' @ [CHR 0x27] @ ''rename'' @ [CHR 0x27] @ '' command'')))
      else let src = str (args ! 0); dest = str (args ! 1) in
        case GetEntity db src of
          (db, None) \<Rightarrow> (db, Some (StandardErrReply ''no such key''))
        | (db, Some entity) \<Rightarrow>
            let rawTTL = CD_Get (ttlMap db) src;
                db = Remove src (fst (PutEntity dest entity db));
                db = (case rawTTL of
                        None \<Rightarrow> db
                      | Some expireTime \<Rightarrow> Expire dest expireTime (Persist dest (Persist src db)))
            in (addAof (ToCmdLine3 ''rename'' args) db, Some OkReply))"

definition execRenameNx :: "'f handler" where
  "execRenameNx db args =
     (let src = str (args ! 0); dest = str (args ! 1) in
      case GetEntity db dest of
        (db, Some e) \<Rightarrow> (db, Some (IntReply 0))
      | (db, None) \<Rightarrow>
          (case GetEntity db src of
             (db, None) \<Rightarrow> (db, Some (StandardErrReply ''no such key''))
           | (db, Some entity) \<Rightarrow>
               let rawTTL = CD_Get (ttlMap db) src;
                   db = fst (PutEntity dest entity (fst (Removes [src, dest] db)));
                   db = (case rawTTL of
                           None \<Rightarrow> db
                         | Some expireTime \<Rightarrow> Expire dest expireTime (Persist dest (Persist src db)))
               in (addAof (ToCmdLine3 ''renamenx'' args) db, Some (IntReply 1))))"

subsection \<open>Expiration times\<close>

text \<open>Setting an expiration time, the common end of the four \<^verbatim>\<open>EXPIRE\<close> commands.\<close>

definition expire_at :: "string \<Rightarrow> int \<Rightarrow> 'f DB \<Rightarrow> 'f DB \<times> reply option" where
  "expire_at key expireAt db =
     (case GetEntity db key of
        (db, None) \<Rightarrow> (db, Some (IntReply 0))
      | (db, Some e) \<Rightarrow> (addAof (MakeExpireCmd key expireAt) (Expire key expireAt db), Some (IntReply 1)))"

definition execExpire :: "'f handler" where
  "execExpire db args =
     onInt notInteger (args ! 1) db (\<lambda>ttlArg.
       let ttl = wrap64 (ttlArg * 10 ^ 9) in expire_at (str (args ! 0)) (clock db + ttl) db)"

definition execExpireAt :: "'f handler" where
  "execExpireAt db args =
     onInt notInteger (args ! 1) db (\<lambda>raw. expire_at (str (args ! 0)) (time_Unix raw) db)"

definition execPExpire :: "'f handler" where
  "execPExpire db args =
     onInt notInteger (args ! 1) db (\<lambda>ttlArg. expire_at (str (args ! 0)) (after_ms db ttlArg) db)"

definition execPExpireAt :: "'f handler" where
  "execPExpireAt db args =
     onInt notInteger (args ! 1) db (\<lambda>raw. expire_at (str (args ! 0)) (wrap64 (raw * 10 ^ 6)) db)"

text \<open>Reading it: -2 for a missing key, -1 for one that does not expire.\<close>

definition onExpiration :: "string \<Rightarrow> 'f DB \<Rightarrow> (int \<Rightarrow> int) \<Rightarrow> 'f DB \<times> reply option" where
  "onExpiration key db f =
     (case GetEntity db key of
        (db, None) \<Rightarrow> (db, Some (IntReply (- 2)))
      | (db, Some e) \<Rightarrow>
          (case CD_Get (ttlMap db) key of
             None \<Rightarrow> (db, Some (IntReply (- 1)))
           | Some t \<Rightarrow> (db, Some (IntReply (f t)))))"

definition execExpireTime :: "'f handler" where
  "execExpireTime db args = onExpiration (str (args ! 0)) db (\<lambda>t. t div 10 ^ 9)"

definition execPExpireTime :: "'f handler" where
  "execPExpireTime db args = onExpiration (str (args ! 0)) db (\<lambda>t. wrap64 (t div 10 ^ 6))"

text \<open>\<^verbatim>\<open>Time.Sub\<close> saturates at the bounds of a 64-bit duration.\<close>

definition time_Sub :: "int \<Rightarrow> int \<Rightarrow> int" where
  "time_Sub t u = max (- (2 ^ 63)) (min (2 ^ 63 - 1) (t - u))"

text \<open>
  \<^verbatim>\<open>int64(math.Round(d.Seconds()))\<close>: whole seconds plus the fraction, each step rounded to a 64-bit
  floating-point number. A non-negative float is \<open>m / 2 ^ k\<close>; \<open>float_of a b\<close> is the one nearest to \<open>a / b\<close>, for \<open>a / b\<close>
  less than \<open>2 ^ 53\<close>, ties to even. Fractions are a multiple of \<open>1 / 10 ^ 9\<close>, so that 30 halvings are enough to fill
  the 53 bits of the significand.
\<close>

definition round_even :: "nat \<Rightarrow> nat \<Rightarrow> nat" where
  "round_even a b = (let q = a div b; r = a mod b in
     if 2 * r < b then q else if 2 * r > b then q + 1 else if even q then q else q + 1)"

fun float_scale :: "nat \<Rightarrow> nat \<Rightarrow> nat \<Rightarrow> nat \<Rightarrow> nat" where
  "float_scale 0 a b k = k"
| "float_scale (Suc fuel) a b k = (if a * 2 ^ Suc k < b * 2 ^ 53 then float_scale fuel a b (Suc k) else k)"

definition float_of :: "nat \<Rightarrow> nat \<Rightarrow> nat \<times> nat" where
  "float_of a b = (let k = float_scale 90 a b 0 in (round_even (a * 2 ^ k) b, k))"

definition round_seconds_nat :: "nat \<Rightarrow> nat" where
  "round_seconds_nat d =
     (let sec = d div 10 ^ 9; nsec = d mod 10 ^ 9;
          (m1, k1) = float_of nsec (10 ^ 9);
          (m, k) = float_of (sec * 2 ^ k1 + m1) (2 ^ k1)
      in (2 * m + 2 ^ k) div 2 ^ Suc k)"

definition round_seconds :: "int \<Rightarrow> int" where
  "round_seconds d = (if d < 0 then - int (round_seconds_nat (nat (- d))) else int (round_seconds_nat (nat d)))"

definition execTTL :: "'f handler" where
  "execTTL db args = onExpiration (str (args ! 0)) db (\<lambda>t. round_seconds (time_Sub t (clock db)))"

text \<open>The number of milliseconds is small enough for its conversion to a float and back to be exact.\<close>

definition execPTTL :: "'f handler" where
  "execPTTL db args = onExpiration (str (args ! 0)) db (\<lambda>t. quot (time_Sub t (clock db)) (10 ^ 6))"

definition execPersist :: "'f handler" where
  "execPersist db args =
     (let key = str (args ! 0) in
      case GetEntity db key of
        (db, None) \<Rightarrow> (db, Some (IntReply 0))
      | (db, Some e) \<Rightarrow>
          (case CD_Get (ttlMap db) key of
             None \<Rightarrow> (db, Some (IntReply 0))
           | Some t \<Rightarrow> (addAof (ToCmdLine3 ''persist'' args) (Persist key db), Some (IntReply 1))))"

subsection \<open>Enumeration\<close>

text \<open>
  \<^verbatim>\<open>KEYS\<close> removes the expired keys it meets while it traverses the dictionary; a traversal in Go visits
  the remaining keys all the same.
\<close>

definition execKeys :: "'f env \<Rightarrow> 'f handler" where
  "execKeys E db args =
     (case CompilePattern (regexpCompile E) (str (args ! 0)) of
        None \<Rightarrow> (db, Some (StandardErrReply ''ERR illegal wildcard''))
      | Some isMatch \<Rightarrow>
          (case CD_ForEach (data db) (\<lambda>(db, result) key val.
              if \<not> isMatch key then (True, (db, result))
              else (case IsExpired key db of (db, expired) \<Rightarrow>
                (True, (db, if expired then result else result @ [Some key])))) (db, [])
           of (db, result) \<Rightarrow> (db, Some (MultiBulkReply result))))"

text \<open>The options of the scan commands: count, pattern and type; a missing value is an index panic.\<close>

fun scan_options :: "bool \<Rightarrow> cmdline \<Rightarrow> int \<Rightarrow> string \<Rightarrow> string \<Rightarrow> (reply + int \<times> string \<times> string) option" where
  "scan_options typed [] cnt pattern scanType = Some (Inr (cnt, pattern, scanType))"
| "scan_options typed (a # rest) cnt pattern scanType =
     (let arg = ToLower (str a) in
      if arg = ''count'' then
        (case rest of
           [] \<Rightarrow> None
         | v # rest' \<Rightarrow>
             (case Atoi (str v) of
                None \<Rightarrow> Some (Inl SyntaxErrReply)
              | Some count0 \<Rightarrow> scan_options typed rest' count0 pattern scanType))
      else if arg = ''match'' then
        (case rest of [] \<Rightarrow> None | v # rest' \<Rightarrow> scan_options typed rest' cnt (str v) scanType)
      else if typed \<and> arg = ''type'' then
        (case rest of [] \<Rightarrow> None | v # rest' \<Rightarrow> scan_options typed rest' cnt pattern (ToLower (str v)))
      else Some (Inl SyntaxErrReply))"

fun filter_type :: "string \<Rightarrow> string list \<Rightarrow> 'f DB \<Rightarrow> 'f DB \<times> string list" where
  "filter_type scanType [] db = (db, [])"
| "filter_type scanType (key # keys) db =
     (case getType db key of (db, t) \<Rightarrow>
        (case filter_type scanType keys db of (db, ks) \<Rightarrow> (db, if t \<noteq> scanType then ks else key # ks)))"

definition scan_reply :: "int \<Rightarrow> bytes list \<Rightarrow> reply" where
  "scan_reply nextCursor result =
     MultiRawReply [BulkReply (Some (FormatInt nextCursor)), MultiBulkReply result]"

definition execScan :: "'f env \<Rightarrow> 'f handler" where
  "execScan E db args =
     onValue (scan_options True (tl args) 10 ''*'' []) db (\<lambda>opts.
       onLookup (db, opts) (\<lambda>db (cnt, pattern, scanType).
         onInt (StandardErrReply ''ERR invalid cursor'') (args ! 0) db (\<lambda>cursor.
           onValue (CD_DictScan (regexpCompile E) (data db) cursor cnt pattern) db (\<lambda>(keys, nextCursor).
             if nextCursor < 0 then (db, Some (StandardErrReply ''Invalid argument''))
             else (case (if length scanType \<noteq> 0 then filter_type scanType keys db else (db, keys)) of
               (db, keys) \<Rightarrow> (db, Some (scan_reply nextCursor (map Some keys))))))))"

section \<open>Lemmas\<close>

subsection \<open>What the handlers change\<close>

lemma Removes_within: "within K db0 db \<Longrightarrow> set keys \<subseteq> K \<Longrightarrow> within K db0 (fst (Removes keys db))"
proof (induction keys arbitrary: db)
  case (Cons key keys)
  from Cons.prems have "within K db0 (Remove key db)" by (intro within_Remove) auto
  with Cons show ?case by (simp add: case_prod_beta)
qed simp

lemma DB_ok_Removes [simp]: "DB_ok db \<Longrightarrow> DB_ok (fst (Removes keys db))"
  using Removes_within [OF within_refl, of db keys UNIV] within_ok by auto

lemma Removes_count: "0 \<le> snd (Removes keys db) \<and> (snd (Removes keys db) = 0 \<longrightarrow> fst (Removes keys db) = db)"
proof (induction keys arbitrary: db)
  case (Cons key keys)
  from Cons.IH [of db] Cons.IH [of "Remove key db"] show ?case by (simp add: case_prod_beta)
qed simp

lemma execDel_outcome: "DB_ok db \<Longrightarrow> outcome (set (map str args)) db (fst (execDel db args))"
  using Removes_within [OF within_refl, of db "map str args" "set (map str args)"] Removes_count [of "map str args" db]
  by (cases "snd (Removes (map str args) db) = 0")
    (simp_all add: execDel_def outcome_refl outcome_logged case_prod_beta)

lemma exists_loop_within: "within {} db0 db \<Longrightarrow> within {} db0 (fst (exists_loop args n db))"
proof (induction args arbitrary: db n)
  case (Cons a args)
  have "DB_ok db" "within {} db0 (touch (str a) db)" using Cons.prems by (auto intro: within_ok)
  with Cons.IH show ?case by (auto split: option.split)
qed simp

lemma execExists_outcome: "DB_ok db \<Longrightarrow> outcome K db (fst (execExists db args))"
  using exists_loop_within [OF within_refl, of db args 0] by (simp add: execExists_def outcome_read case_prod_beta)

lemma getType_eq: "DB_ok db \<Longrightarrow> fst (getType db key) = touch key db"
  by (simp add: getType_def split: option.split)

lemma execType_outcome: "DB_ok db \<Longrightarrow> outcome K db (fst (execType db args))"
  by (simp add: execType_def getType_eq outcome_touch within_refl case_prod_beta)

lemma expire_at_outcome [outcomes]: "DB_ok db \<Longrightarrow> outcome {key} db (fst (expire_at key t db))"
  by (auto simp: expire_at_def data_touch intro!: outcomes split: option.split)

lemma execExpire_outcome: "DB_ok db \<Longrightarrow> outcome {str (args ! 0)} db (fst (execExpire db args))"
  by (auto simp: execExpire_def Let_def intro!: outcomes)

lemma execExpireAt_outcome: "DB_ok db \<Longrightarrow> outcome {str (args ! 0)} db (fst (execExpireAt db args))"
  by (auto simp: execExpireAt_def intro!: outcomes)

lemma execPExpire_outcome: "DB_ok db \<Longrightarrow> outcome {str (args ! 0)} db (fst (execPExpire db args))"
  by (auto simp: execPExpire_def intro!: outcomes)

lemma execPExpireAt_outcome: "DB_ok db \<Longrightarrow> outcome {str (args ! 0)} db (fst (execPExpireAt db args))"
  by (auto simp: execPExpireAt_def intro!: outcomes)

lemma onExpiration_outcome: "DB_ok db \<Longrightarrow> outcome K db (fst (onExpiration key db f))"
  by (auto simp: onExpiration_def intro!: outcomes split: option.split)

lemma execTTL_outcome: "DB_ok db \<Longrightarrow> outcome K db (fst (execTTL db args))"
  by (simp add: execTTL_def onExpiration_outcome)

lemma execPTTL_outcome: "DB_ok db \<Longrightarrow> outcome K db (fst (execPTTL db args))"
  by (simp add: execPTTL_def onExpiration_outcome)

lemma execExpireTime_outcome: "DB_ok db \<Longrightarrow> outcome K db (fst (execExpireTime db args))"
  by (simp add: execExpireTime_def onExpiration_outcome)

lemma execPExpireTime_outcome: "DB_ok db \<Longrightarrow> outcome K db (fst (execPExpireTime db args))"
  by (simp add: execPExpireTime_def onExpiration_outcome)

lemma execPersist_outcome: "DB_ok db \<Longrightarrow> outcome {str (args ! 0)} db (fst (execPersist db args))"
  by (auto simp: execPersist_def Let_def intro!: outcomes split: option.split)

subsection \<open>KEYS and SCAN\<close>

lemma within_IsExpired: "within {} db0 db \<Longrightarrow> within {} db0 (fst (IsExpired key db))"
  using within_touch [of "{}" db0 db key] IsExpired_fst [OF within_ok, of "{}" db0 db key] by (simp only: touch_def)

text \<open>The traversal of \<^verbatim>\<open>KEYS\<close>: only the key that is being visited can disappear.\<close>

lemma keys_loop:
  assumes "within {} db0 db" and "distinct (map fst es)" and "\<And>k. k \<in> fst ` set es \<Longrightarrow> CD_Get (data db) k \<noteq> None"
  shows "case snd (range_map (\<lambda>(db, result) key val.
      if \<not> isMatch key then (True, (db, result))
      else (case IsExpired key db of (db, expired) \<Rightarrow>
        (True, (db, if expired then result else result @ [Some key])))) es (db, result)) of (db', result') \<Rightarrow>
    within {} db0 db' \<and> result' = result @ map Some (filter (\<lambda>k. isMatch k \<and> live db0 k \<noteq> None) (map fst es))"
  using assms
proof (induction es arbitrary: db result)
  case (Cons p es)
  obtain k v where p: "p = (k, v)" by (cases p)
  have ok: "DB_ok db" and live: "live db k = live db0 k" using Cons.prems(1) by (auto simp: within_def)
  show ?case
  proof (cases "isMatch k")
    case True
    let ?db = "fst (IsExpired k db)"
    have data: "CD_Get (data ?db) k' = CD_Get (data db) k'" if "k' \<noteq> k" for k'
      using that ok by (simp add: IsExpired_fst)
    have "\<And>k'. k' \<in> fst ` set es \<Longrightarrow> CD_Get (data ?db) k' \<noteq> None"
      using Cons.prems(2,3) p data by (metis distinct.simps(2) fst_conv image_insert insert_iff list.simps(15) list.simps(9) list.set_map)
    moreover have "snd (IsExpired k db) = (live db0 k = None)" using Cons.prems(3) [of k] p ok live by (simp add: IsExpired_snd)
    ultimately show ?thesis
      using Cons.IH [OF within_IsExpired [OF Cons.prems(1), of k], of "if live db0 k = None then result else result @ [Some k]"] Cons.prems(2) p True
      by (auto simp: case_prod_beta)
  next
    case False
    with Cons p show ?thesis by (auto simp: case_prod_beta)
  qed
qed simp

lemma execKeys_loop:
  assumes "DB_ok db" and "CompilePattern (regexpCompile E) (str (args ! 0)) = Some isMatch"
  shows "within {} db (fst (execKeys E db args)) \<and> snd (execKeys E db args) =
    Some (MultiBulkReply (map Some (filter (\<lambda>k. isMatch k \<and> live db k \<noteq> None) (map fst (concat (table (data db)))))))"
proof -
  have "distinct (map fst (concat (table (data db))))" using CD_inv_entries [of "data db"] assms(1) by (simp add: map_ok_def)
  moreover have "CD_Get (data db) k \<noteq> None" if "k \<in> fst ` set (concat (table (data db)))" for k
    using that assms(1) by (simp add: CD_Get_entries map_of_eq_None_iff)
  ultimately show ?thesis
    using keys_loop [OF within_refl [OF assms(1)],
        where es = "concat (table (data db))" and isMatch = isMatch and result = "[]"] assms(2)
    by (simp add: execKeys_def CD_ForEach_entries case_prod_beta)
qed

lemma execKeys_outcome: "DB_ok db \<Longrightarrow> outcome K db (fst (execKeys E db args))"
  using execKeys_loop [of db E args]
  by (cases "CompilePattern (regexpCompile E) (str (args ! 0))") (simp_all add: execKeys_def outcome_refl outcome_read)

lemma filter_type_within: "within {} db0 db \<Longrightarrow> within {} db0 (fst (filter_type t keys db))"
proof (induction keys arbitrary: db)
  case (Cons key keys)
  have "DB_ok db" "within {} db0 (touch key db)" using Cons.prems by (auto intro: within_ok)
  with Cons.IH show ?case by (simp add: case_prod_beta getType_eq)
qed simp

lemma execScan_outcome: "DB_ok db \<Longrightarrow> outcome K db (fst (execScan E db args))"
  unfolding execScan_def
  by (auto simp: case_prod_beta intro!: outcome_onValue outcome_onOptions outcome_onInt within_refl outcome_refl
      outcome_read [OF filter_type_within])

subsection \<open>RENAME\<close>

lemma execRename_outcome:
  "DB_ok db \<Longrightarrow> str (args ! 0) \<noteq> str (args ! 1) \<Longrightarrow>
   outcome {str (args ! 0), str (args ! 1)} db (fst (execRename db args))"
  by (auto simp: execRename_def Let_def DB_ok_PutEntity live_entity_ok intro!: outcomes
      split: option.split)

lemma execRenameNx_outcome:
  "DB_ok db \<Longrightarrow> outcome {str (args ! 0), str (args ! 1)} db (fst (execRenameNx db args))"
  by (auto simp: execRenameNx_def Let_def live_entity_ok intro!: outcomes Removes_within
      simp del: Removes.simps split: option.split)

subsection \<open>What the handlers reply\<close>

lemma live_entries: "DB_ok db \<Longrightarrow> live db k \<noteq> None \<Longrightarrow> k \<in> fst ` set (concat (table (data db)))"
  using CD_Get_entries [of "data db" k] map_of_eq_None_iff [of "concat (table (data db))" k]
  by (auto simp: live_None)

text \<open>
  C27: \<^verbatim>\<open>KEYS\<close> answers every key that matches the pattern and has not expired, each once, and no other; it
  changes nothing that a client can see, although it removes expired keys on the way.
\<close>

theorem execKeys_complete:
  assumes "DB_ok db" and "CompilePattern (regexpCompile E) (str (args ! 0)) = Some isMatch"
  shows "\<exists>ks. snd (execKeys E db args) = Some (MultiBulkReply (map Some ks)) \<and> distinct ks \<and>
    set ks = {k. isMatch k \<and> live db k \<noteq> None} \<and> live (fst (execKeys E db args)) = live db"
proof -
  let ?ks = "filter (\<lambda>k. isMatch k \<and> live db k \<noteq> None) (map fst (concat (table (data db))))"
  have "distinct ?ks" using CD_inv_entries [of "data db"] assms(1) by (simp add: map_ok_def)
  moreover have "set ?ks = {k. isMatch k \<and> live db k \<noteq> None}" using live_entries [OF assms(1)] by auto
  moreover have "live (fst (execKeys E db args)) = live db"
    using execKeys_loop [OF assms] by (auto simp: within_def)
  ultimately show ?thesis using execKeys_loop [OF assms] by blast
qed

text \<open>
  C28: \<^verbatim>\<open>RENAMENX\<close> of a key to a name that is not in use moves its value and its expiration time and changes
  no other key, even when an expired value is still stored under the new name.
\<close>

theorem execRenameNx_moves:
  assumes "DB_ok db" and "live db (str src) = Some (e, t)" and "live db (str dest) = None"
  shows "snd (execRenameNx db [src, dest]) = Some (IntReply 1) \<and>
    live (fst (execRenameNx db [src, dest])) = (live db)(str src := None, str dest := Some (e, t))"
proof -
  let ?s = "str src" and ?d = "str dest"
  let ?db = "touch ?s (touch ?d db)"
  have neq: "?s \<noteq> ?d" using assms(2,3) by auto
  have ok: "DB_ok ?db" using assms(1) by simp
  have data: "CD_Get (data ?db) ?d = None" "CD_Get (data ?db) ?s = Some e"
    using assms neq by (simp_all add: data_touch)
  have ttl: "CD_Get (ttlMap ?db) ?s = t" using assms neq by (simp add: ttl_touch)
  let ?r = "fst (PutEntity ?d e (Remove ?s ?db))"
  have r: "DB_ok ?r" "CD_Get (ttlMap (Remove ?s ?db)) ?d = None"
    using ok neq data(1) DB_okD(5) [OF ok] live_entity_ok [OF assms(1,2)] by (simp_all add: DB_ok_PutEntity DB_ok_Remove)
  have "fst (Removes [?s, ?d] ?db) = Remove ?s ?db" using data neq ok by simp
  then have exec: "execRenameNx db [src, dest] = (addAof (ToCmdLine3 ''renamenx'' [src, dest])
      (case t of None \<Rightarrow> ?r | Some expireTime \<Rightarrow> Expire ?d expireTime (Persist ?d (Persist ?s ?r))), Some (IntReply 1))"
    using assms ttl by (simp add: execRenameNx_def Let_def del: Removes.simps split: option.split)
  have lr: "live ?r = (live db)(?s := None, ?d := Some (e, None))"
    using r ok assms(1) neq by (simp add: live_PutEntity live_Remove DB_ok_Remove)
  show ?thesis
  proof (cases t)
    case None
    with exec lr show ?thesis by simp
  next
    case (Some t')
    have "\<not> t' < clock db" using assms(2) Some by (simp add: live_Some)
    with exec lr r Some neq show ?thesis
      by (auto simp: live_Expire live_Persist DB_ok_Persist DB_ok_Remove ok data fun_eq_iff)
  qed
qed

theorem execKeys_complete_witness:
  "\<exists>ks. snd (execKeys \<lparr>parseFloat = (\<lambda>_. None), formatFloat = (\<lambda>_. []), formatFloat10 = (\<lambda>_. []), addFloat = (+),
      numError = id, regexpCompile = (\<lambda>src. Some (\<lambda>k. length src > 3))\<rparr>
      (fst (PutEntity ''k'' (EString None) (tinyDB 5))) [Some ''*''])
    = Some (MultiBulkReply (map Some ks)) \<and> set ks = {''k''}"
proof -
  let ?E = "\<lparr>parseFloat = (\<lambda>_. None), formatFloat = (\<lambda>_. []), formatFloat10 = (\<lambda>_. []), addFloat = (+),
      numError = id, regexpCompile = (\<lambda>src. Some (\<lambda>k. length src > 3))\<rparr> :: int env"
  let ?db = "fst (PutEntity ''k'' (EString None) (tinyDB 5))"
  have "CompilePattern (regexpCompile ?E) (str ([Some ''*''] ! 0)) = Some (\<lambda>k. True)"
    by (simp add: CompilePattern_def replaceMap_def backslash_def)
  moreover have "DB_ok ?db" by (simp add: DB_ok_PutEntity)
  ultimately show ?thesis
    using execKeys_complete [of ?db ?E "[Some ''*'']" "\<lambda>k. True"] by (auto simp: live_PutEntity)
qed

theorem execRenameNx_moves_witness:
  "live (fst (execRenameNx (fst (PutEntity ''a'' (EString None) (tinyDB 5))) [Some ''a'', Some ''b''])) ''b''
     = Some (EString None, None)"
  using execRenameNx_moves [of "fst (PutEntity ''a'' (EString None) (tinyDB 5))" "Some ''a''" "EString None" None "Some ''b''"]
  by (simp add: DB_ok_PutEntity live_PutEntity)

text \<open>
  C38: \<^verbatim>\<open>RENAME\<close> of a key to itself replies OK and deletes the key; its expiration time is kept, for a key
  that no longer has a value, and would apply to the next value stored under that name.
\<close>

theorem execRename_self_deletes:
  assumes "DB_ok db" and "live db (str k) = Some (e, t)"
  shows "snd (execRename db [k, k]) = Some OkReply \<and> live (fst (execRename db [k, k])) (str k) = None \<and>
    CD_Get (ttlMap (fst (execRename db [k, k]))) (str k) = t"
proof -
  have "CD_Get (ttlMap (touch (str k) db)) (str k) = t" using assms by (simp add: ttl_touch)
  then show ?thesis
    using assms by (cases t) (simp_all add: execRename_def Let_def live_None DB_ok_PutEntity live_entity_ok DB_ok_Remove)
qed

theorem execRename_self_deletes_witness:
  "live (fst (execRename (fst (PutEntity ''a'' (EString None) (tinyDB 5))) [Some ''a'', Some ''a''])) ''a'' = None"
  using execRename_self_deletes [of "fst (PutEntity ''a'' (EString None) (tinyDB 5))" "Some ''a''" "EString None" None]
  by (simp add: DB_ok_PutEntity live_PutEntity)

text \<open>
  C29: after \<^verbatim>\<open>PEXPIRE key ms\<close>, \<^verbatim>\<open>PTTL\<close> counts down: \<open>d\<close> nanoseconds later it answers what is left of the \<open>ms\<close>
  milliseconds, rounded down, and the value is unchanged; past that time the key is gone.
\<close>

theorem execPExpire_execPTTL:
  assumes "DB_ok db" and "live db (str k) = Some (e, t)" and "ParseInt (str n) = Some ms"
    and "0 \<le> ms" and "ms * 10 ^ 6 < 2 ^ 63" and "0 \<le> d"
  defines "later \<equiv> (fst (execPExpire db [k, n]))\<lparr>clock := clock db + d\<rparr>"
  shows "snd (execPExpire db [k, n]) = Some (IntReply 1) \<and>
    (if d \<le> ms * 10 ^ 6 then live later (str k) = Some (e, Some (clock db + ms * 10 ^ 6)) \<and>
       snd (execPTTL later [k]) = Some (IntReply ((ms * 10 ^ 6 - d) div 10 ^ 6))
     else live later (str k) = None \<and> snd (execPTTL later [k]) = Some (IntReply (- 2)))"
proof -
  let ?t = "clock db + ms * 10 ^ 6"
  have w: "wrap64 (ms * 10 ^ 6) = ms * 10 ^ 6" using assms(4,5) by (simp add: int64_range_def)
  have exec: "execPExpire db [k, n] = (addAof (MakeExpireCmd (str k) ?t) (Expire (str k) ?t (touch (str k) db)), Some (IntReply 1))"
    using assms(1-3) w by (simp add: execPExpire_def onInt_def expire_at_def after_ms_def)
  have ok: "DB_ok later" using assms(1,2) exec by (simp add: later_def DB_ok_Expire data_touch)
  have c: "clock later = clock db + d" "CD_Get (ttlMap later) (str k) = Some ?t" "CD_Get (data later) (str k) = Some e"
    using assms(1,2) exec by (simp_all add: later_def data_touch)
  show ?thesis
  proof (cases "d \<le> ms * 10 ^ 6")
    case True
    then have l: "live later (str k) = Some (e, Some ?t)" using c by (simp add: live_Some)
    have "time_Sub ?t (clock later) = ms * 10 ^ 6 - d" using True assms(5,6) c by (simp add: time_Sub_def)
    then have "snd (execPTTL later [k]) = Some (IntReply ((ms * 10 ^ 6 - d) div 10 ^ 6))"
      using l ok True by (simp add: execPTTL_def onExpiration_def ttl_touch quot_nonneg)
    with exec l True show ?thesis by simp
  next
    case False
    then have l: "live later (str k) = None" using c by (simp add: live_None)
    with exec ok False show ?thesis by (simp add: execPTTL_def onExpiration_def)
  qed
qed

theorem execPExpire_execPTTL_witness:
  "snd (execPTTL ((fst (execPExpire (fst (PutEntity ''a'' (EString None) (tinyDB 5))) [Some ''a'', Some ''3'']))\<lparr>clock := 1000005\<rparr>) [Some ''a''])
     = Some (IntReply 2)"
proof -
  have "ParseInt (str (Some ''3'')) = Some 3" by code_simp
  then show ?thesis
    using execPExpire_execPTTL [of "fst (PutEntity ''a'' (EString None) (tinyDB 5))" "Some ''a''" "EString None" None "Some ''3''" 3 1000000]
    by (simp add: DB_ok_PutEntity live_PutEntity)
qed

end
