(* ===== verification/HashCmds.thy ===== *)
theory HashCmds
  imports KeyCmds StringCmds
begin

text \<open>\<^verbatim>\<open>database/hash.go\<close>: the commands on hashes, which are simple dictionaries of byte slices.\<close>

definition getOrInitDict :: "'f DB \<Rightarrow> string \<Rightarrow> 'f DB \<times> (reply + bytes SimpleDict)" where
  "getOrInitDict db key =
     (case getAsDict db key of
        (db, Inl err) \<Rightarrow> (db, Inl err)
      | (db, Inr None) \<Rightarrow> (fst (PutEntity key (EHash MakeSimple) db), Inr MakeSimple)
      | (db, Inr (Some d)) \<Rightarrow> (db, Inr d))"

definition execHSet :: "'f handler" where
  "execHSet db args =
     (let key = str (args ! 0); field = str (args ! 1); value = args ! 2 in
      onLookup (getOrInitDict db key) (\<lambda>db d.
        case SD_Put d field value of (d, result) \<Rightarrow>
          (addAof (ToCmdLine3 ''hset'' args) (store key (EHash d) db), Some (IntReply result))))"

definition execHSetNX :: "'f handler" where
  "execHSetNX db args =
     (let key = str (args ! 0); field = str (args ! 1); value = args ! 2 in
      onLookup (getOrInitDict db key) (\<lambda>db d.
        case SD_PutIfAbsent d field value of (d, result) \<Rightarrow>
          let db = store key (EHash d) db in
          (if result > 0 then addAof (ToCmdLine3 ''hsetnx'' args) db else db, Some (IntReply result))))"

text \<open>The reading commands: a reply for a missing key, and one that is computed from the hash.\<close>

definition onDict :: "'f DB \<Rightarrow> string \<Rightarrow> reply \<Rightarrow> (bytes SimpleDict \<Rightarrow> reply) \<Rightarrow> 'f DB \<times> reply option" where
  "onDict db key missing f =
     onLookup (getAsDict db key) (\<lambda>db dict. case dict of None \<Rightarrow> (db, Some missing) | Some d \<Rightarrow> (db, Some (f d)))"

definition execHGet :: "'f handler" where
  "execHGet db args =
     onDict db (str (args ! 0)) NullBulkReply (\<lambda>d.
       case SD_Get d (str (args ! 1)) of None \<Rightarrow> NullBulkReply | Some value \<Rightarrow> BulkReply value)"

definition execHExists :: "'f handler" where
  "execHExists db args =
     onDict db (str (args ! 0)) (IntReply 0) (\<lambda>d. IntReply (if SD_Get d (str (args ! 1)) \<noteq> None then 1 else 0))"

fun hdel_loop :: "string list \<Rightarrow> bytes SimpleDict \<Rightarrow> int \<Rightarrow> bytes SimpleDict \<times> int" where
  "hdel_loop [] d deleted = (d, deleted)"
| "hdel_loop (field # fs) d deleted = (case SD_Remove d field of (d, _, result) \<Rightarrow> hdel_loop fs d (deleted + result))"

definition execHDel :: "'f handler" where
  "execHDel db args =
     (let key = str (args ! 0) in
      onLookup (getAsDict db key) (\<lambda>db dict. case dict of
        None \<Rightarrow> (db, Some (IntReply 0))
      | Some d \<Rightarrow>
          (case hdel_loop (map str (tl args)) d 0 of (d, deleted) \<Rightarrow>
             let db = store key (EHash d) db;
                 db = (if SD_Len d = 0 then Remove key db else db)
             in (if deleted > 0 then addAof (ToCmdLine3 ''hdel'' args) db else db, Some (IntReply deleted)))))"

definition execHLen :: "'f handler" where
  "execHLen db args = onDict db (str (args ! 0)) (IntReply 0) (\<lambda>d. IntReply (SD_Len d))"

definition execHStrlen :: "'f handler" where
  "execHStrlen db args =
     onDict db (str (args ! 0)) (IntReply 0) (\<lambda>d.
       case SD_Get d (str (args ! 1)) of Some value \<Rightarrow> IntReply (int (length (str value))) | None \<Rightarrow> IntReply 0)"

definition hput_all :: "bytes SimpleDict \<Rightarrow> (bytes \<times> bytes) list \<Rightarrow> bytes SimpleDict" where
  "hput_all d fvs = foldl (\<lambda>d (field, value). fst (SD_Put d (str field) value)) d fvs"

definition execHMSet :: "'f handler" where
  "execHMSet db args =
     (if length args mod 2 \<noteq> 1 then (db, Some SyntaxErrReply)
      else let key = str (args ! 0) in
        onLookup (getOrInitDict db key) (\<lambda>db d.
          (addAof (ToCmdLine3 ''hmset'' args) (store key (EHash (hput_all d (pairs (tl args)))) db), Some OkReply)))"

definition execHMGet :: "'f handler" where
  "execHMGet db args =
     onDict db (str (args ! 0)) (MultiBulkReply (replicate (length args - 1) None)) (\<lambda>d.
       MultiBulkReply (map (\<lambda>field. case SD_Get d (str field) of None \<Rightarrow> None | Some value \<Rightarrow> value) (tl args)))"

text \<open>
  The results of the next three are collected into an array of \<^verbatim>\<open>dict.Len()\<close> cells (twice as many for the
  last), which is as many as are filled.
\<close>

definition execHKeys :: "'f handler" where
  "execHKeys db args =
     onDict db (str (args ! 0)) EmptyMultiBulkReply (\<lambda>d.
       MultiBulkReply (SD_ForEach d (\<lambda>fs key val. (True, fs @ [Some key])) []))"

definition execHVals :: "'f handler" where
  "execHVals db args =
     onDict db (str (args ! 0)) EmptyMultiBulkReply (\<lambda>d.
       MultiBulkReply (SD_ForEach d (\<lambda>vals key val. (True, vals @ [val])) []))"

definition execHGetAll :: "'f handler" where
  "execHGetAll db args =
     onDict db (str (args ! 0)) EmptyMultiBulkReply (\<lambda>d.
       MultiBulkReply (SD_ForEach d (\<lambda>result key val. (True, result @ [Some key, val])) []))"

text \<open>
  A missing field is set to the argument as it was sent; the reply of both increments is a string.
\<close>

definition execHIncrBy :: "'f handler" where
  "execHIncrBy db args =
     (let key = str (args ! 0); field = str (args ! 1) in
      onInt notInteger (args ! 2) db (\<lambda>delta.
        onLookup (getOrInitDict db key) (\<lambda>db d.
          case SD_Get d field of
            None \<Rightarrow> (addAof (ToCmdLine3 ''hincrby'' args) (store key (EHash (fst (SD_Put d field (args ! 2)))) db),
                     Some (BulkReply (args ! 2)))
          | Some value \<Rightarrow>
              onInt (StandardErrReply ''ERR hash value is not an integer'') value db (\<lambda>val.
                let bytes = Some (FormatInt (wrap64 (val + delta))) in
                (addAof (ToCmdLine3 ''hincrby'' args) (store key (EHash (fst (SD_Put d field bytes))) db),
                 Some (BulkReply bytes))))))"

definition execHIncrByFloat :: "'f env \<Rightarrow> 'f handler" where
  "execHIncrByFloat E db args =
     (let key = str (args ! 0); field = str (args ! 1) in
      case parseFloat E (str (args ! 2)) of
        None \<Rightarrow> (db, Some notFloat)
      | Some delta \<Rightarrow>
          onLookup (getOrInitDict db key) (\<lambda>db d.
            case SD_Get d field of
              None \<Rightarrow> (addAof (ToCmdLine3 ''hincrbyfloat'' args) (store key (EHash (fst (SD_Put d field (args ! 2)))) db),
                       Some (BulkReply (args ! 2)))
            | Some value \<Rightarrow>
                (case parseFloat E (str value) of
                   None \<Rightarrow> (db, Some (StandardErrReply ''ERR hash value is not a float''))
                 | Some val \<Rightarrow>
                     let resultBytes = Some (formatFloat E (addFloat E val delta)) in
                     (addAof (ToCmdLine3 ''hincrbyfloat'' args) (store key (EHash (fst (SD_Put d field resultBytes))) db),
                      Some (BulkReply resultBytes)))))"

text \<open>
  The reply of \<^verbatim>\<open>HRANDFIELD\<close>, with or without the values; the type assertion on a field that does not
  exist panics.
\<close>

fun fields_reply :: "bytes SimpleDict \<Rightarrow> bool \<Rightarrow> string list \<Rightarrow> bytes list option" where
  "fields_reply d withvalues [] = Some []"
| "fields_reply d withvalues (v # fs) =
     (if \<not> withvalues then map_option (\<lambda>r. Some v # r) (fields_reply d withvalues fs)
      else do { raw \<leftarrow> SD_Get d v; r \<leftarrow> fields_reply d withvalues fs; Some (Some v # raw # r) })"

definition execHRandField :: "'f handler" where
  "execHRandField db args =
     (let key = str (args ! 0) in
      if length args > 3
      then (db, Some (StandardErrReply (''ERR wrong number of arguments for '' @ [CHR 0x27] @ ''hrandfield'' @ [CHR 0x27] @ '' command'')))
      else if length args = 3 \<and> ToLower (str (args ! 2)) \<noteq> ''withvalues'' then (db, Some SyntaxErrReply)
      else let withvalues = (length args = 3) in
        onInt notInteger (if length args \<ge> 2 then args ! 1 else Some ''1'') db (\<lambda>cnt.
          onLookup (getAsDict db key) (\<lambda>db dict. case dict of
            None \<Rightarrow> (db, Some EmptyMultiBulkReply)
          | Some d \<Rightarrow>
              if cnt = 0 then (db, Some EmptyMultiBulkReply)
              else
                let db' = (if cnt > 0 then db else db\<lparr>drawn := drawn db + nat (- cnt)\<rparr>);
                    fs = (if cnt > 0 then SD_RandomDistinctKeys d cnt
                          else SD_RandomKeys d (\<lambda>i. rands db (drawn db + i)) (wrap64 (- cnt)))
                in onValue fs db' (\<lambda>fs.
                     onValue (fields_reply d withvalues fs) db' (\<lambda>result. (db', Some (MultiBulkReply result)))))))"

definition execHScan :: "'f env \<Rightarrow> 'f handler" where
  "execHScan E db args =
     onValue (scan_options False (drop 2 args) 10 ''*'' []) db (\<lambda>opts.
       onLookup (db, opts) (\<lambda>db (cnt, pattern, _).
         if length args < 2 then (db, Some SyntaxErrReply)
         else onLookup (getAsDict db (str (args ! 0))) (\<lambda>db dict. case dict of
           None \<Rightarrow> (db, Some NullBulkReply)
         | Some d \<Rightarrow>
             onInt (StandardErrReply ''ERR invalid cursor'') (args ! 1) db (\<lambda>cursor.
               case SD_DictScan (regexpCompile E) d cursor cnt pattern of (keysReply, nextCursor) \<Rightarrow>
                 if nextCursor < 0 then (db, Some (StandardErrReply ''Invalid argument''))
                 else (db, Some (scan_reply nextCursor keysReply))))))"

section \<open>Undo functions\<close>

definition undoHSet :: "'f DB \<Rightarrow> cmdline \<Rightarrow> 'f DB \<times> cmdline list option" where
  "undoHSet db args = rollbackHashFields db (str (args ! 0)) [str (args ! 1)]"

definition undoHIncr :: "'f DB \<Rightarrow> cmdline \<Rightarrow> 'f DB \<times> cmdline list option" where
  "undoHIncr db args = rollbackHashFields db (str (args ! 0)) [str (args ! 1)]"

definition undoHDel :: "'f DB \<Rightarrow> cmdline \<Rightarrow> 'f DB \<times> cmdline list option" where
  "undoHDel db args = rollbackHashFields db (str (args ! 0)) (map str (tl args))"

definition undoHMSet :: "'f DB \<Rightarrow> cmdline \<Rightarrow> 'f DB \<times> cmdline list option" where
  "undoHMSet db args =
     rollbackHashFields db (str (args ! 0)) (map (\<lambda>i. str (args ! (2 * i + 1))) [0..<(length args - 1) div 2])"

section \<open>Lemmas\<close>

subsection \<open>Dictionaries\<close>

lemma SD_inv_Put [simp]: "SD_inv d \<Longrightarrow> SD_inv (fst (SD_Put d k v))"
  by (simp add: SD_inv_def SD_Put_def)

lemma SD_inv_New [simp]: "SD_inv MakeSimple"
  by (simp add: SD_inv_def MakeSimple_def)

lemma SD_Get_New [simp]: "SD_Get MakeSimple k = None"
  by (simp add: SD_Get_def MakeSimple_def)

lemma SD_PutIfAbsent_eq: "SD_PutIfAbsent d k v = (if SD_Get d k = None then (fst (SD_Put d k v), 1) else (d, 0))"
  by (simp add: SD_PutIfAbsent_def SD_Put_def SD_Get_def split: option.split)

lemma SD_inv_Remove [simp]: "SD_inv d \<Longrightarrow> SD_inv (fst (SD_Remove d k))"
  by (simp add: SD_inv_def SD_Remove_def Let_def)

lemma hput_all_inv: "SD_inv d \<Longrightarrow> SD_inv (hput_all d fvs)"
  unfolding hput_all_def by (induction fvs arbitrary: d) auto

lemma hdel_loop_inv: "SD_inv d \<Longrightarrow> SD_inv (fst (hdel_loop fs d n))"
  by (induction fs arbitrary: d n) (simp_all add: case_prod_beta)

subsection \<open>What the handlers change\<close>

text \<open>A hash is looked up or created; no live key loses its value.\<close>

lemma getOrInitDict_outcome:
  assumes "within {} db0 db" and "key \<in> K"
    and "\<And>db'. live db key = None \<Longrightarrow> within K db0 db' \<Longrightarrow> outcome K db0 (fst (f db' MakeSimple))"
    and "\<And>db' d t. live db key = Some (EHash d, t) \<Longrightarrow> within {} db0 db' \<Longrightarrow> SD_inv d \<Longrightarrow>
      CD_Get (data db') key = Some (EHash d) \<Longrightarrow> outcome K db0 (fst (f db' d))"
  shows "outcome K db0 (fst (onLookup (getOrInitDict db key) f))"
proof -
  have ok: "DB_ok db" by (rule within_ok [OF assms(1)])
  have t: "within {} db0 (touch key db)" using assms(1) by (rule within_touch)
  then have "within K db0 (touch key db)" by (rule within_mono) simp
  then have n: "within K db0 (fst (PutEntity key (EHash MakeSimple) (touch key db)))"
    using assms(2) by (rule within_PutEntity) simp
  consider "live db key = None" | d ttl where "live db key = Some (EHash d, ttl)"
    | e ttl where "live db key = Some (e, ttl)" "\<And>d. e \<noteq> EHash d"
    by (cases "live db key") (auto, metis)
  then show ?thesis
  proof cases
    case 1
    with assms(3) [OF 1 n] ok show ?thesis by (simp add: onLookup_def getOrInitDict_def lookups)
  next
    case (2 d ttl)
    with assms(4) [OF 2 t] live_entity_ok [OF ok 2] ok show ?thesis
      by (simp add: onLookup_def getOrInitDict_def lookups data_touch)
  next
    case 3
    with ok t show ?thesis
      by (cases e) (auto simp: onLookup_def getOrInitDict_def lookups intro: outcome_read)
  qed
qed

lemma outcome_put_hash: "within K db0 db \<Longrightarrow> key \<in> K \<Longrightarrow> SD_inv d \<Longrightarrow>
    outcome K db0 (addAof line (store key (EHash d) db))"
  by (intro outcome_logged within_store) simp_all

lemma execHSet_outcome: "DB_ok db \<Longrightarrow> outcome {str (args ! 0)} db (fst (execHSet db args))"
  unfolding execHSet_def Let_def
  by (rule getOrInitDict_outcome) (auto simp: case_prod_beta within_refl within_any intro!: outcome_put_hash)

lemma execHSetNX_outcome: "DB_ok db \<Longrightarrow> outcome {str (args ! 0)} db (fst (execHSetNX db args))"
  unfolding execHSetNX_def Let_def SD_PutIfAbsent_eq
  by (rule getOrInitDict_outcome)
    (auto simp: within_refl within_any intro: outcome_put_hash outcome_read store_same)

lemma onDict_outcome: "DB_ok db \<Longrightarrow> outcome K db (fst (onDict db key missing f))"
  by (auto simp: onDict_def intro!: outcomes)

lemma hash_reads_outcome:
  assumes "DB_ok db"
  shows "outcome K db (fst (execHGet db args))" "outcome K db (fst (execHExists db args))"
    "outcome K db (fst (execHLen db args))" "outcome K db (fst (execHStrlen db args))"
    "outcome K db (fst (execHMGet db args))" "outcome K db (fst (execHKeys db args))"
    "outcome K db (fst (execHVals db args))" "outcome K db (fst (execHGetAll db args))"
  using assms by (simp_all add: execHGet_def execHExists_def execHLen_def execHStrlen_def execHMGet_def execHKeys_def
      execHVals_def execHGetAll_def onDict_outcome)

text \<open>\<^verbatim>\<open>HDEL\<close> on a hash without fields would remove it without logging.\<close>

lemma execHDel_within: "DB_ok db \<Longrightarrow> within {str (args ! 0)} db (fst (execHDel db args))"
proof -
  let ?key = "str (args ! 0)"
  assume ok: "DB_ok db"
  have t: "within {?key} db (touch ?key db)" by (rule within_touch [OF within_refl [OF ok]])
  have "SD_inv d" if "live db ?key = Some (EHash d, ttl)" for d ttl using live_entity_ok [OF ok that] by simp
  with ok t show ?thesis
    by (auto simp: execHDel_def Let_def onLookup_def lookups case_prod_beta hdel_loop_inv
        intro!: within_addAof within_Remove within_store within_refl split: option.split prod.split entity.split)
qed

lemma execHMSet_outcome: "DB_ok db \<Longrightarrow> outcome {str (args ! 0)} db (fst (execHMSet db args))"
proof (cases "length args mod 2 = 1")
  case True
  assume ok: "DB_ok db"
  with True show ?thesis unfolding execHMSet_def Let_def
    by simp (rule getOrInitDict_outcome, auto simp: within_refl within_any intro!: outcome_put_hash hput_all_inv)
qed (simp add: execHMSet_def outcome_refl)

lemma execHIncrBy_outcome: "DB_ok db \<Longrightarrow> outcome {str (args ! 0)} db (fst (execHIncrBy db args))"
  unfolding execHIncrBy_def Let_def
  by (rule outcome_onInt, simp add: within_refl, rule getOrInitDict_outcome)
    (auto simp: within_refl within_any intro!: outcome_put_hash outcome_onInt split: option.split)

lemma execHIncrByFloat_outcome: "DB_ok db \<Longrightarrow> outcome {str (args ! 0)} db (fst (execHIncrByFloat E db args))"
proof (cases "parseFloat E (str (args ! 2))")
  case (Some delta)
  assume ok: "DB_ok db"
  with Some show ?thesis unfolding execHIncrByFloat_def Let_def
    by simp (rule getOrInitDict_outcome,
      auto simp: within_refl within_any intro: outcome_put_hash outcome_read split: option.split)
qed (simp add: execHIncrByFloat_def outcome_refl)

lemma execHRandField_outcome: "DB_ok db \<Longrightarrow> outcome K db (fst (execHRandField db args))"
  by (auto simp: execHRandField_def Let_def intro!: outcomes outcome_read [OF within_drawn])

lemma execHScan_outcome: "DB_ok db \<Longrightarrow> outcome K db (fst (execHScan E db args))"
  unfolding execHScan_def
  by (auto simp: case_prod_beta intro!: outcome_onValue outcome_onOptions outcome_onInt outcome_onDict within_refl outcome_refl
      outcome_touch within_touch)

end
