(* ===== verification/HashSet.thy ===== *)
theory HashSet
  imports Scan
begin

text \<open>
  \<^verbatim>\<open>datastruct/set/set.go\<close>: sets of strings over a simple dictionary whose values are nil. The methods
  that may be called on a nil pointer take an option.
\<close>

type_synonym Set = "unit SimpleDict"

definition Set_Add :: "Set \<Rightarrow> string \<Rightarrow> Set \<times> int" where
  "Set_Add s val = SD_Put s val ()"

definition Set_Make :: "string list \<Rightarrow> Set" where
  "Set_Make members = foldl (\<lambda>s member. fst (Set_Add s member)) MakeSimple members"

definition Set_Remove :: "Set \<Rightarrow> string \<Rightarrow> Set \<times> int" where
  "Set_Remove s val = (case SD_Remove s val of (s, _, ret) \<Rightarrow> (s, ret))"

definition Set_Has :: "Set option \<Rightarrow> string \<Rightarrow> bool" where
  "Set_Has s val = (case s of None \<Rightarrow> False | Some s \<Rightarrow> SD_Get s val \<noteq> None)"

definition Set_Len :: "Set option \<Rightarrow> int" where
  "Set_Len s = (case s of None \<Rightarrow> 0 | Some s \<Rightarrow> SD_Len s)"

definition Set_ForEach :: "Set option \<Rightarrow> ('s \<Rightarrow> string \<Rightarrow> bool \<times> 's) \<Rightarrow> 's \<Rightarrow> 's" where
  "Set_ForEach s consumer x = (case s of None \<Rightarrow> x | Some s \<Rightarrow> SD_ForEach s (\<lambda>x key val. consumer x key) x)"

text \<open>\<^verbatim>\<open>ToSlice\<close> fills an array of the size of the set, and would extend it.\<close>

definition ToSlice :: "Set \<Rightarrow> string list" where
  "ToSlice s = fst (Set_ForEach (Some s) (\<lambda>(slic, i) key.
     (True, (if i < length slic then slic[i := key] else slic @ [key], Suc i))) (replicate (nat (SD_Len s)) [], 0))"

definition ShallowCopy :: "Set option \<Rightarrow> Set" where
  "ShallowCopy s = Set_ForEach s (\<lambda>result member. (True, fst (Set_Add result member))) (Set_Make [])"

definition countMap :: "Set option list \<Rightarrow> (string, int) gomap" where
  "countMap sets = foldl (\<lambda>m s. Set_ForEach s (\<lambda>m member.
     (True, map_put member ((case map_of m member of None \<Rightarrow> 0 | Some n \<Rightarrow> n) + 1) m)) m) [] sets"

definition Intersect :: "Set option list \<Rightarrow> Set" where
  "Intersect sets =
     (if sets = [] then Set_Make []
      else foldl (\<lambda>result (k, v). if v = int (length sets) then fst (Set_Add result k) else result)
             (Set_Make []) (countMap sets))"

definition Union :: "Set option list \<Rightarrow> Set" where
  "Union sets = foldl (\<lambda>result s. Set_ForEach s (\<lambda>result member. (True, fst (Set_Add result member))) result) (Set_Make []) sets"

fun diff_loop :: "Set \<Rightarrow> Set option list \<Rightarrow> Set" where
  "diff_loop result [] = result"
| "diff_loop result (s # sets) =
     (let result = Set_ForEach s (\<lambda>result member. (True, fst (Set_Remove result member))) result in
      if SD_Len result = 0 then result else diff_loop result sets)"

definition Diff :: "Set option list \<Rightarrow> Set" where
  "Diff sets = (case sets of [] \<Rightarrow> Set_Make [] | s # sets \<Rightarrow> diff_loop (ShallowCopy s) sets)"

definition RandomMembers :: "Set \<Rightarrow> (nat \<Rightarrow> nat) \<Rightarrow> int \<Rightarrow> string list option" where
  "RandomMembers s pick limit = SD_RandomKeys s pick limit"

definition RandomDistinctMembers :: "Set \<Rightarrow> int \<Rightarrow> string list option" where
  "RandomDistinctMembers s limit = SD_RandomDistinctKeys s limit"

text \<open>The members.\<close>

definition elems :: "Set option \<Rightarrow> string set" where
  "elems s = (case s of None \<Rightarrow> {} | Some s \<Rightarrow> fst ` set (sd_m s))"

text \<open>How often a member has been counted.\<close>

definition times :: "(string, int) gomap \<Rightarrow> string \<Rightarrow> int" where
  "times m k = (case map_of m k of None \<Rightarrow> 0 | Some n \<Rightarrow> n)"

section \<open>Lemmas\<close>

lemma range_map_keys: "snd (range_map (\<lambda>s k v. (True, h s k)) m s) = foldl h s (map fst m)"
  by (induction m arbitrary: s) auto

lemma SD_ForEach_foldl: "SD_ForEach d (\<lambda>s k v. (True, h s k)) s = foldl h s (map fst (sd_m d))"
  by (simp add: SD_ForEach_def range_map_keys)

lemma Set_ForEach_foldl:
  "Set_ForEach s (\<lambda>x m. (True, h x m)) x = foldl h x (case s of None \<Rightarrow> [] | Some s \<Rightarrow> map fst (sd_m s))"
  by (simp add: Set_ForEach_def SD_ForEach_foldl split: option.split)

lemma Set_inv_Add [simp]: "SD_inv s \<Longrightarrow> SD_inv (fst (Set_Add s m))"
  by (simp add: SD_inv_def Set_Add_def SD_Put_def)

lemma elems_Add [simp]: "elems (Some (fst (Set_Add s m))) = insert m (elems (Some s))"
  by (simp add: elems_def Set_Add_def SD_Put_def fst_map_put)

lemma Set_inv_Remove [simp]: "SD_inv s \<Longrightarrow> SD_inv (fst (Set_Remove s m))"
  by (simp add: SD_inv_def Set_Remove_def SD_Remove_def Let_def)

lemma map_del_keys: "fst ` set (map_del k m) = fst ` set m - {k}"
  using map_of_dom [of "map_del k m"] map_of_dom [of m] by auto

lemma elems_Remove [simp]: "elems (Some (fst (Set_Remove s m))) = elems (Some s) - {m}"
  by (simp add: elems_def Set_Remove_def SD_Remove_def Let_def map_del_keys)

lemma elems_New [simp]: "elems (Some MakeSimple) = {}" "elems None = {}"
  by (simp_all add: elems_def MakeSimple_def)

lemma foldl_Add:
  "elems (Some (foldl (\<lambda>s m. fst (Set_Add s m)) s ms)) = elems (Some s) \<union> set ms \<and>
   (SD_inv s \<longrightarrow> SD_inv (foldl (\<lambda>s m. fst (Set_Add s m)) s ms))"
  by (induction ms arbitrary: s) auto

lemma foldl_Remove:
  "elems (Some (foldl (\<lambda>s m. fst (Set_Remove s m)) s ms)) = elems (Some s) - set ms \<and>
   (SD_inv s \<longrightarrow> SD_inv (foldl (\<lambda>s m. fst (Set_Remove s m)) s ms))"
  by (induction ms arbitrary: s) auto

lemma SD_inv_Make [simp]: "SD_inv MakeSimple"
  by (simp add: SD_inv_def MakeSimple_def)

lemma Set_Make_elems: "elems (Some (Set_Make ms)) = set ms" "SD_inv (Set_Make ms)"
  using foldl_Add [of MakeSimple ms] by (simp_all add: Set_Make_def)

lemma elems_list: "set (case s of None \<Rightarrow> [] | Some s \<Rightarrow> map fst (sd_m s)) = elems s"
  by (simp add: elems_def split: option.split)

lemma distinct_elems: "(\<And>x. s = Some x \<Longrightarrow> SD_inv x) \<Longrightarrow> distinct (case s of None \<Rightarrow> [] | Some s \<Rightarrow> map fst (sd_m s))"
  by (simp add: SD_inv_def map_ok_def split: option.split)

lemma Set_Len_elems: "(\<And>x. s = Some x \<Longrightarrow> SD_inv x) \<Longrightarrow> Set_Len s = int (card (elems s))"
  using distinct_elems [of s]
  by (cases s) (auto simp: Set_Len_def elems_def SD_Len_def distinct_card simp flip: set_map)

lemma Union_elems: "elems (Some (Union sets)) = (\<Union>s \<in> set sets. elems s)" "SD_inv (Union sets)"
proof -
  have "elems (Some (foldl (\<lambda>result s. Set_ForEach s (\<lambda>result member. (True, fst (Set_Add result member))) result) r sets))
      = elems (Some r) \<union> (\<Union>s \<in> set sets. elems s) \<and>
      (SD_inv r \<longrightarrow> SD_inv (foldl (\<lambda>result s. Set_ForEach s (\<lambda>result member. (True, fst (Set_Add result member))) result) r sets))" for r
    by (induction sets arbitrary: r) (simp_all add: Set_ForEach_foldl foldl_Add elems_list Un_assoc)
  from this [of "Set_Make []"] show "elems (Some (Union sets)) = (\<Union>s \<in> set sets. elems s)" "SD_inv (Union sets)"
    by (simp_all add: Union_def Set_Make_elems)
qed

lemma ShallowCopy_elems: "elems (Some (ShallowCopy s)) = elems s" "SD_inv (ShallowCopy s)"
  using foldl_Add [of "Set_Make []"] by (simp_all add: ShallowCopy_def Set_ForEach_foldl elems_list Set_Make_elems)

lemma diff_loop_elems:
  "SD_inv r \<Longrightarrow> elems (Some (diff_loop r sets)) = elems (Some r) - (\<Union>s \<in> set sets. elems s) \<and> SD_inv (diff_loop r sets)"
proof (induction sets arbitrary: r)
  case (Cons s sets)
  let ?r = "Set_ForEach s (\<lambda>result member. (True, fst (Set_Remove result member))) r"
  have r: "elems (Some ?r) = elems (Some r) - elems s" "SD_inv ?r"
    using foldl_Remove [of r] Cons.prems by (simp_all add: Set_ForEach_foldl elems_list)
  show ?case
  proof (cases "SD_Len ?r = 0")
    case True
    then have "elems (Some ?r) = {}" by (simp add: SD_Len_def elems_def)
    with True r show ?thesis by auto
  next
    case False
    with Cons.IH [OF r(2)] r(1) show ?thesis by auto
  qed
qed simp

lemma Diff_elems:
  "elems (Some (Diff (s # sets))) = elems s - (\<Union>s \<in> set sets. elems s)" "SD_inv (Diff sets')"
  using diff_loop_elems [OF ShallowCopy_elems(2)]
  by (simp_all add: Diff_def ShallowCopy_elems Set_Make_elems split: list.split)

lemma count_members:
  "distinct ms \<Longrightarrow> times (foldl (\<lambda>m k. map_put k (times m k + 1) m) m ms) k = times m k + of_bool (k \<in> set ms)"
proof (induction ms arbitrary: m)
  case (Cons a ms)
  then show ?case by (auto simp: times_def)
qed simp

lemma count_ok: "map_ok m \<Longrightarrow> map_ok (foldl (\<lambda>m k. map_put k (times m k + 1) m) m ms)"
  by (induction ms arbitrary: m) auto

lemma countMap_times:
  assumes "\<And>x. Some x \<in> set sets \<Longrightarrow> SD_inv x"
  shows "times (countMap sets) k = int (length (filter (\<lambda>s. k \<in> elems s) sets)) \<and> map_ok (countMap sets)"
proof -
  have "times (foldl (\<lambda>m s. foldl (\<lambda>m k. map_put k (times m k + 1) m) m (case s of None \<Rightarrow> [] | Some s \<Rightarrow> map fst (sd_m s))) m sets) k
      = times m k + int (length (filter (\<lambda>s. k \<in> elems s) sets)) \<and>
      (map_ok m \<longrightarrow> map_ok (foldl (\<lambda>m s. foldl (\<lambda>m k. map_put k (times m k + 1) m) m (case s of None \<Rightarrow> [] | Some s \<Rightarrow> map fst (sd_m s))) m sets))"
    for m using assms
  proof (induction sets arbitrary: m)
    case (Cons s sets)
    then show ?case by (auto simp: count_members distinct_elems elems_list count_ok)
  qed simp
  from this [of "[]"] show ?thesis
    by (simp add: countMap_def Set_ForEach_foldl times_def)
qed

lemma Intersect_fold:
  "elems (Some (foldl (\<lambda>result (k, v). if v = n then fst (Set_Add result k) else result) r m)) =
     elems (Some r) \<union> {k. (k, n) \<in> set m} \<and>
   (SD_inv r \<longrightarrow> SD_inv (foldl (\<lambda>result (k, v). if v = n then fst (Set_Add result k) else result) r m))"
  by (induction m arbitrary: r) (auto split: if_splits)

lemma Intersect_elems:
  assumes "\<And>x. Some x \<in> set sets \<Longrightarrow> SD_inv x" and "sets \<noteq> []"
  shows "elems (Some (Intersect sets)) = (\<Inter>s \<in> set sets. elems s)" "SD_inv (Intersect sets)"
proof -
  let ?n = "int (length sets)"
  have "(k, ?n) \<in> set (countMap sets) \<longleftrightarrow> (\<forall>s \<in> set sets. k \<in> elems s)" for k
  proof -
    have t: "times (countMap sets) k = int (length (filter (\<lambda>s. k \<in> elems s) sets))" and ok: "map_ok (countMap sets)"
      using countMap_times [of sets k] assms(1) by auto
    have "(k, ?n) \<in> set (countMap sets) \<longleftrightarrow> times (countMap sets) k = ?n"
      using assms(2) by (auto simp: map_ok_in_set [OF ok] times_def split: option.split)
    also have "\<dots> \<longleftrightarrow> (\<forall>s \<in> set sets. k \<in> elems s)"
      by (simp add: t) (metis filter_True length_filter_less less_irrefl)
    finally show ?thesis .
  qed
  with Intersect_fold [of ?n "Set_Make []" "countMap sets"] assms(2)
  show "elems (Some (Intersect sets)) = (\<Inter>s \<in> set sets. elems s)" by (auto simp: Intersect_def Set_Make_elems)
  show "SD_inv (Intersect sets)"
    using Intersect_fold [of ?n "Set_Make []" "countMap sets"] by (simp add: Intersect_def Set_Make_elems)
qed

end
