(* ===== verification/SetCmds.thy ===== *)
theory SetCmds
  imports KeyCmds HashSet
begin

text \<open>\<^verbatim>\<open>database/set.go\<close>: the commands on sets.\<close>

definition getOrInitSet :: "'f DB \<Rightarrow> string \<Rightarrow> 'f DB \<times> (reply + Set)" where
  "getOrInitSet db key =
     (case getAsSet db key of
        (db, Inl err) \<Rightarrow> (db, Inl err)
      | (db, Inr None) \<Rightarrow> (fst (PutEntity key (ESet (Set_Make [])) db), Inr (Set_Make []))
      | (db, Inr (Some s)) \<Rightarrow> (db, Inr s))"

fun sadd_loop :: "string list \<Rightarrow> Set \<Rightarrow> int \<Rightarrow> Set \<times> int" where
  "sadd_loop [] s counter = (s, counter)"
| "sadd_loop (member # members) s counter = (case Set_Add s member of (s, n) \<Rightarrow> sadd_loop members s (counter + n))"

definition execSAdd :: "'f handler" where
  "execSAdd db args =
     (let key = str (args ! 0) in
      onLookup (getOrInitSet db key) (\<lambda>db s.
        case sadd_loop (map str (tl args)) s 0 of (s, counter) \<Rightarrow>
          (addAof (ToCmdLine3 ''sadd'' args) (store key (ESet s) db), Some (IntReply counter))))"

definition execSIsMember :: "'f handler" where
  "execSIsMember db args =
     onLookup (getAsSet db (str (args ! 0))) (\<lambda>db s.
       if s = None then (db, Some (IntReply 0))
       else (db, Some (IntReply (if Set_Has s (str (args ! 1)) then 1 else 0))))"

fun srem_loop :: "string list \<Rightarrow> Set \<Rightarrow> int \<Rightarrow> Set \<times> int" where
  "srem_loop [] s counter = (s, counter)"
| "srem_loop (member # members) s counter = (case Set_Remove s member of (s, n) \<Rightarrow> srem_loop members s (counter + n))"

definition execSRem :: "'f handler" where
  "execSRem db args =
     (let key = str (args ! 0) in
      onLookup (getAsSet db key) (\<lambda>db s. case s of
        None \<Rightarrow> (db, Some (IntReply 0))
      | Some s \<Rightarrow>
          (case srem_loop (map str (tl args)) s 0 of (s, counter) \<Rightarrow>
             let db = store key (ESet s) db;
                 db = (if SD_Len s = 0 then Remove key db else db)
             in (if counter > 0 then addAof (ToCmdLine3 ''srem'' args) db else db, Some (IntReply counter)))))"

text \<open>The set keeps its key when its last member is taken out.\<close>

definition execSPop :: "'f handler" where
  "execSPop db args =
     (if length args \<noteq> 1 \<and> length args \<noteq> 2
      then (db, Some (StandardErrReply (''ERR wrong number of arguments for '' @ [CHR 0x27] @ ''spop'' @ [CHR 0x27] @ '' command'')))
      else let key = str (args ! 0) in
        onLookup (getAsSet db key) (\<lambda>db s. case s of
          None \<Rightarrow> (db, Some NullBulkReply)
        | Some s \<Rightarrow>
            let outOfRange = StandardErrReply ''ERR value is out of range, must be positive'' in
            onInt outOfRange (if length args = 2 then args ! 1 else Some ''1'') db (\<lambda>count64.
              if count64 \<le> 0 then (db, Some outOfRange)
              else let cnt = (if count64 > SD_Len s then SD_Len s else count64) in
                onValue (RandomDistinctMembers s cnt) db (\<lambda>members.
                  let s = foldl (\<lambda>s v. fst (Set_Remove s v)) s members;
                      db = store key (ESet s) db
                  in (if cnt > 0 then addAof (ToCmdLine3 ''spop'' args) db else db,
                      Some (MultiBulkReply (map Some members)))))))"

definition execSCard :: "'f handler" where
  "execSCard db args =
     onLookup (getAsSet db (str (args ! 0))) (\<lambda>db s.
       if s = None then (db, Some (IntReply 0)) else (db, Some (IntReply (Set_Len s))))"

text \<open>\<^verbatim>\<open>set2reply\<close>: the array has a cell for every member.\<close>

definition set2reply :: "Set \<Rightarrow> reply" where
  "set2reply s = MultiBulkReply (Set_ForEach (Some s) (\<lambda>arr member. (True, arr @ [Some member])) [])"

definition execSMembers :: "'f handler" where
  "execSMembers db args =
     onLookup (getAsSet db (str (args ! 0))) (\<lambda>db s. case s of
       None \<Rightarrow> (db, Some EmptyMultiBulkReply)
     | Some s \<Rightarrow> (db, Some (set2reply s)))"

subsection \<open>Set algebra\<close>

text \<open>
  The sets of the keys, missing ones as nil. The intersections stop at an empty one, with the reply
  given first.
\<close>

fun lookup_sets :: "reply option \<Rightarrow> string list \<Rightarrow> 'f DB \<Rightarrow> 'f DB \<times> (reply + Set option list)" where
  "lookup_sets onEmpty [] db = (db, Inr [])"
| "lookup_sets onEmpty (key # keys) db =
     (case getAsSet db key of
        (db, Inl err) \<Rightarrow> (db, Inl err)
      | (db, Inr s) \<Rightarrow>
          if onEmpty \<noteq> None \<and> Set_Len s = 0 then (db, Inl (the onEmpty))
          else (case lookup_sets onEmpty keys db of
              (db, Inl err) \<Rightarrow> (db, Inl err)
            | (db, Inr sets) \<Rightarrow> (db, Inr (s # sets))))"

definition execSInter :: "'f handler" where
  "execSInter db args =
     onLookup (lookup_sets (Some EmptyMultiBulkReply) (map str args) db) (\<lambda>db sets.
       (db, Some (set2reply (Intersect sets))))"

definition execSUnion :: "'f handler" where
  "execSUnion db args =
     onLookup (lookup_sets None (map str args) db) (\<lambda>db sets. (db, Some (set2reply (Union sets))))"

definition execSDiff :: "'f handler" where
  "execSDiff db args =
     onLookup (lookup_sets None (map str args) db) (\<lambda>db sets. (db, Some (set2reply (Diff sets))))"

definition execSInterStore :: "'f handler" where
  "execSInterStore db args =
     (let dest = str (args ! 0) in
      onLookup (lookup_sets (Some (IntReply 0)) (map str (tl args)) db) (\<lambda>db sets.
        let result = Intersect sets in
        (addAof (ToCmdLine3 ''sinterstore'' args) (fst (PutEntity dest (ESet result) db)), Some (IntReply (SD_Len result)))))"

definition execSUnionStore :: "'f handler" where
  "execSUnionStore db args =
     (let dest = str (args ! 0) in
      onLookup (lookup_sets None (map str (tl args)) db) (\<lambda>db sets.
        let result = Union sets; db = Remove dest db in
        if SD_Len result = 0 then (db, Some (IntReply 0))
        else (addAof (ToCmdLine3 ''sunionstore'' args) (fst (PutEntity dest (ESet result) db)),
              Some (IntReply (SD_Len result)))))"

definition execSDiffStore :: "'f handler" where
  "execSDiffStore db args =
     (let dest = str (args ! 0) in
      onLookup (lookup_sets None (map str (tl args)) db) (\<lambda>db sets.
        let result = Diff sets; db = Remove dest db in
        if SD_Len result = 0 then (db, Some (IntReply 0))
        else (addAof (ToCmdLine3 ''sdiffstore'' args) (fst (PutEntity dest (ESet result) db)),
              Some (IntReply (SD_Len result)))))"

subsection \<open>Random members and scans\<close>

definition execSRandMember :: "'f handler" where
  "execSRandMember db args =
     (if length args \<noteq> 1 \<and> length args \<noteq> 2
      then (db, Some (StandardErrReply (''ERR wrong number of arguments for '' @ [CHR 0x27] @ ''srandmember'' @ [CHR 0x27] @ '' command'')))
      else onLookup (getAsSet db (str (args ! 0))) (\<lambda>db s. case s of
        None \<Rightarrow> (db, Some NullBulkReply)
      | Some s \<Rightarrow>
          let pick = (\<lambda>i. rands db (drawn db + i)) in
          if length args = 1 then
            let db = db\<lparr>drawn := drawn db + 1\<rparr> in
            onValue (do { members \<leftarrow> RandomMembers s pick 1; go_index members 0 }) db (\<lambda>m. (db, Some (BulkReply (Some m))))
          else onInt notInteger (args ! 1) db (\<lambda>cnt.
            if cnt > 0 then
              onValue (RandomDistinctMembers s cnt) db (\<lambda>members. (db, Some (MultiBulkReply (map Some members))))
            else if cnt < 0 then
              let db = db\<lparr>drawn := drawn db + nat (- cnt)\<rparr> in
              onValue (RandomMembers s pick (wrap64 (- cnt))) db (\<lambda>members. (db, Some (MultiBulkReply (map Some members))))
            else (db, Some EmptyMultiBulkReply))))"

text \<open>A missing cursor is an index panic.\<close>

definition execSScan :: "'f env \<Rightarrow> 'f handler" where
  "execSScan E db args =
     onValue (scan_options False (drop 2 args) 10 ''*'' []) db (\<lambda>opts.
       onLookup (db, opts) (\<lambda>db (cnt, pattern, _).
         onLookup (getAsSet db (str (args ! 0))) (\<lambda>db s. case s of
           None \<Rightarrow> (db, Some EmptyMultiBulkReply)
         | Some s \<Rightarrow>
             onValue (go_index args 1) db (\<lambda>arg1.
               onInt (StandardErrReply ''ERR invalid cursor'') arg1 db (\<lambda>cursor.
                 case SetScan (regexpCompile E) s cursor cnt pattern of (keysReply, nextCursor) \<Rightarrow>
                   if nextCursor < 0 then (db, Some (StandardErrReply ''Invalid argument''))
                   else (db, Some (scan_reply nextCursor keysReply)))))))"

subsection \<open>The sets that clients see\<close>

text \<open>A key that holds a set or nothing, its set, and a reply that lists the members of a set, each once.\<close>

definition set_key :: "'f DB \<Rightarrow> string \<Rightarrow> bool" where
  "set_key db k \<longleftrightarrow> (case live db k of None \<Rightarrow> True | Some (e, t) \<Rightarrow> (\<exists>s. e = ESet s))"

definition set_at :: "'f DB \<Rightarrow> string \<Rightarrow> Set option" where
  "set_at db k = (case live db k of Some (ESet s, t) \<Rightarrow> Some s | _ \<Rightarrow> None)"

definition lists_set :: "reply option \<Rightarrow> string set \<Rightarrow> bool" where
  "lists_set r S \<longleftrightarrow> (\<exists>ms. distinct ms \<and> set ms = S \<and>
     (r = Some (MultiBulkReply (map Some ms)) \<or> r = Some EmptyMultiBulkReply \<and> ms = []))"

section \<open>Lemmas\<close>

lemma sadd_loop_elems:
  "elems (Some (fst (sadd_loop ms s n))) = elems (Some s) \<union> set ms \<and> (SD_inv s \<longrightarrow> SD_inv (fst (sadd_loop ms s n)))"
  by (induction ms arbitrary: s n) (auto simp: case_prod_beta)

lemma srem_loop_elems:
  "elems (Some (fst (srem_loop ms s n))) = elems (Some s) - set ms \<and> (SD_inv s \<longrightarrow> SD_inv (fst (srem_loop ms s n)))"
  by (induction ms arbitrary: s n) (auto simp: case_prod_beta)

subsection \<open>What the handlers change\<close>

lemma execSAdd_outcome: "DB_ok db \<Longrightarrow> outcome {str (args ! 0)} db (fst (execSAdd db args))"
proof -
  let ?key = "str (args ! 0)"
  assume ok: "DB_ok db"
  have t: "within {?key} db (touch ?key db)" by (rule within_touch [OF within_refl [OF ok]])
  then have n: "within {?key} db (fst (PutEntity ?key (ESet (Set_Make [])) (touch ?key db)))"
    by (rule within_PutEntity) (simp_all add: Set_Make_elems)
  have s: "SD_inv s" if "live db ?key = Some (ESet s, ttl)" for s ttl using live_entity_ok [OF ok that] by simp
  show ?thesis
    using ok t n s
    by (auto simp: execSAdd_def Let_def onLookup_def getOrInitSet_def lookups case_prod_beta sadd_loop_elems Set_Make_elems
        intro!: outcome_logged within_store outcome_touch within_refl split: option.split prod.split entity.split)
qed

lemma execSIsMember_outcome: "DB_ok db \<Longrightarrow> outcome K db (fst (execSIsMember db args))"
  by (auto simp: execSIsMember_def intro!: outcomes)

lemma execSCard_outcome: "DB_ok db \<Longrightarrow> outcome K db (fst (execSCard db args))"
  by (auto simp: execSCard_def intro!: outcomes)

lemma execSMembers_outcome: "DB_ok db \<Longrightarrow> outcome K db (fst (execSMembers db args))"
  by (auto simp: execSMembers_def intro!: outcomes)

text \<open>\<^verbatim>\<open>SREM\<close> removes an empty set that \<^verbatim>\<open>SPOP\<close> has left behind, without logging it.\<close>

lemma execSRem_within: "DB_ok db \<Longrightarrow> within {str (args ! 0)} db (fst (execSRem db args))"
proof -
  let ?key = "str (args ! 0)"
  assume ok: "DB_ok db"
  have t: "within {?key} db (touch ?key db)" by (rule within_touch [OF within_refl [OF ok]])
  have "SD_inv s" if "live db ?key = Some (ESet s, ttl)" for s ttl using live_entity_ok [OF ok that] by simp
  with ok t show ?thesis
    by (auto simp: execSRem_def Let_def onLookup_def lookups case_prod_beta srem_loop_elems
        intro!: within_addAof within_Remove within_store within_refl split: option.split prod.split entity.split)
qed

lemma RandomDistinct_none: "RandomDistinctMembers s 0 = Some ms \<Longrightarrow> ms = []"
  by (simp add: RandomDistinctMembers_def SD_RandomDistinctKeys_def split: if_splits)

lemma execSPop_outcome: "DB_ok db \<Longrightarrow> outcome {str (args ! 0)} db (fst (execSPop db args))"
proof -
  let ?key = "str (args ! 0)"
  assume ok: "DB_ok db"
  have t: "within {} db (touch ?key db)" by (rule within_touch [OF within_refl [OF ok]])
  have logs: "outcome {?key} db (addAof line (store ?key (ESet (foldl (\<lambda>s v. fst (Set_Remove s v)) s ms)) (touch ?key db)))"
    if "SD_inv s" for s ms line
    using that foldl_Remove [of s ms] by (simp add: outcome_logged within_store within_any [OF t])
  have same: "outcome {?key} db (store ?key (ESet (foldl (\<lambda>s v. fst (Set_Remove s v)) s ms)) (touch ?key db))"
    if l: "map_option fst (live db ?key) = Some (ESet s)" and m: "RandomDistinctMembers s (SD_Len s) = Some ms"
      and "\<not> 0 < SD_Len s" for s ms
  proof -
    have "SD_Len s = 0" using that(3) by (simp add: SD_Len_def)
    with RandomDistinct_none m have "ms = []" by simp
    moreover have "CD_Get (data (touch ?key db)) ?key = Some (ESet s)" using l ok by (simp add: data_touch)
    ultimately show ?thesis using store_same [OF t] by (simp add: outcome_read)
  qed
  show ?thesis
    using ok by (auto simp: execSPop_def Let_def intro!: outcome_onSet outcome_onInt outcome_onValue within_refl outcome_refl
        outcome_touch within_touch logs same)
qed

lemma getAsSet_found:
  assumes "DB_ok db"
  obtains err where "getAsSet db key = (touch key db, Inl err)"
  | "getAsSet db key = (touch key db, Inr None)" "live db key = None"
  | s t where "getAsSet db key = (touch key db, Inr (Some s))" "live db key = Some (ESet s, t)" "SD_inv s"
proof (cases "live db key")
  case None
  with assms that(2) show ?thesis by (simp add: lookups)
next
  case (Some p)
  obtain e t where "p = (e, t)" by (cases p)
  with Some assms live_entity_ok [OF assms, of key e t] that(1,3) show ?thesis by (cases e) (auto simp: lookups)
qed

lemma lookup_sets_within: "within {} db0 db \<Longrightarrow> within {} db0 (fst (lookup_sets r keys db))"
proof (induction keys arbitrary: db)
  case (Cons key keys)
  have ok: "DB_ok db" and w: "within {} db0 (touch key db)" using Cons.prems by (auto intro: within_ok)
  obtain v where g: "getAsSet db key = (touch key db, v)" using ok by (rule getAsSet_found) auto
  from Cons.IH [OF w] w show ?case
    by (cases v; cases "lookup_sets r keys (touch key db)") (auto simp: g split: sum.split)
qed simp

lemma lookup_sets_ok:
  "DB_ok db \<Longrightarrow> lookup_sets r keys db = (db', Inr sets) \<Longrightarrow> Some s \<in> set sets \<Longrightarrow> SD_inv s"
proof (induction keys arbitrary: db sets)
  case (Cons key keys)
  have ok: "DB_ok (touch key db)" using Cons.prems(1) by simp
  note IH = Cons.IH [OF ok]
  from Cons.prems(1) show ?case
  proof (rule getAsSet_found)
    fix err assume "getAsSet db key = (touch key db, Inl err)"
    with Cons.prems(2) show ?thesis by simp
  next
    assume "getAsSet db key = (touch key db, Inr None)"
    with Cons.prems(2,3) IH show ?thesis by (auto split: if_splits prod.splits sum.splits)
  next
    fix x t assume "getAsSet db key = (touch key db, Inr (Some x))" "SD_inv x"
    with Cons.prems(2,3) IH show ?thesis by (auto split: if_splits prod.splits sum.splits)
  qed
qed simp

lemma onSets_outcome:
  assumes "DB_ok db"
    and "\<And>db' sets. lookup_sets r keys db = (db', Inr sets) \<Longrightarrow> within {} db db' \<Longrightarrow> outcome K db (fst (f db' sets))"
  shows "outcome K db (fst (onLookup (lookup_sets r keys db) f))"
proof -
  obtain db' v where l: "lookup_sets r keys db = (db', v)" by fastforce
  have w: "within {} db db'" using lookup_sets_within [OF within_refl [OF assms(1)], of r keys] l by simp
  with assms(2) l show ?thesis by (cases v) (auto simp: onLookup_def intro: outcome_read)
qed

lemma set_reads_outcome:
  assumes "DB_ok db"
  shows "outcome K db (fst (execSInter db args))" "outcome K db (fst (execSUnion db args))" "outcome K db (fst (execSDiff db args))"
  unfolding execSInter_def execSUnion_def execSDiff_def
  by (rule onSets_outcome [OF assms], simp add: outcome_read)+

lemma outcome_put_set: "within {} db0 db \<Longrightarrow> key \<in> K \<Longrightarrow> SD_inv s \<Longrightarrow>
    outcome K db0 (addAof line (fst (PutEntity key (ESet s) db)))"
  by (rule outcome_logged, rule within_PutEntity, erule within_any) simp_all

lemma Intersect_inv: "(\<And>x. Some x \<in> set sets \<Longrightarrow> SD_inv x) \<Longrightarrow> SD_inv (Intersect sets)"
  using Intersect_elems(2) [of sets] by (cases "sets = []") (simp_all add: Intersect_def Set_Make_elems)

lemma execSInterStore_outcome: "DB_ok db \<Longrightarrow> outcome {str (args ! 0)} db (fst (execSInterStore db args))"
  unfolding execSInterStore_def Let_def
proof (rule onSets_outcome)
  fix db' sets
  assume ok: "DB_ok db" and l: "lookup_sets (Some (IntReply 0)) (map str (tl args)) db = (db', Inr sets)" and "within {} db db'"
  moreover have "SD_inv (Intersect sets)" by (rule Intersect_inv) (rule lookup_sets_ok [OF ok l])
  ultimately show "outcome {str (args ! 0)} db (fst (addAof (ToCmdLine3 ''sinterstore'' args)
      (fst (PutEntity (str (args ! 0)) (ESet (Intersect sets)) db')), Some (IntReply (SD_Len (Intersect sets)))))"
    by (simp add: outcome_put_set)
qed

text \<open>
  The other two store commands remove the destination before they find the result empty, and do not
  log that.
\<close>

lemma store_commands_within:
  assumes "DB_ok db" and "\<And>sets. SD_inv (f sets)"
  shows "within {dest} db (fst (onLookup (lookup_sets None keys db) (\<lambda>db sets.
    let result = f sets; db = Remove dest db in
    if SD_Len result = 0 then (db, Some (IntReply 0))
    else (addAof line (fst (PutEntity dest (ESet result) db)), Some (IntReply (SD_Len result))))))"
proof -
  obtain db' v where l: "lookup_sets None keys db = (db', v)" by fastforce
  have "within {} db db'" using lookup_sets_within [OF within_refl [OF assms(1)], of None keys] l by simp
  then have w: "within {dest} db db'" by (rule within_any)
  then have "within {dest} db (Remove dest db')" by (rule within_Remove) simp
  with w l show ?thesis
    by (cases v) (auto simp: onLookup_def Let_def assms(2) intro!: within_addAof within_PutEntity)
qed

lemma execSUnionStore_within: "DB_ok db \<Longrightarrow> within {str (args ! 0)} db (fst (execSUnionStore db args))"
  unfolding execSUnionStore_def Let_def by (rule store_commands_within [unfolded Let_def]) (simp_all add: Union_elems)

lemma execSDiffStore_within: "DB_ok db \<Longrightarrow> within {str (args ! 0)} db (fst (execSDiffStore db args))"
  unfolding execSDiffStore_def Let_def by (rule store_commands_within [unfolded Let_def]) (simp_all add: Diff_elems)

lemma execSRandMember_outcome: "DB_ok db \<Longrightarrow> outcome K db (fst (execSRandMember db args))"
  by (auto simp: execSRandMember_def Let_def intro!: outcomes outcome_read [OF within_drawn])

lemma execSScan_outcome: "DB_ok db \<Longrightarrow> outcome K db (fst (execSScan E db args))"
  unfolding execSScan_def
  by (auto simp: case_prod_beta intro!: outcome_onValue outcome_onOptions outcome_onInt outcome_onSet within_refl outcome_refl
      outcome_touch within_touch)

subsection \<open>What SADD stores\<close>

text \<open>The set that members are added to: the one that is stored, or a new one.\<close>

lemma execSAdd_live:
  assumes "DB_ok db"
    and "(live db (str k) = None \<and> s = Set_Make [] \<and> t = None) \<or> live db (str k) = Some (ESet s, t)"
  shows "DB_ok (fst (execSAdd db (k # ms)))"
    and "live (fst (execSAdd db (k # ms))) = (live db)(str k \<mapsto> (ESet (fst (sadd_loop (map str ms) s 0)), t))"
proof -
  show "DB_ok (fst (execSAdd db (k # ms)))"
    using execSAdd_outcome [OF assms(1), of "k # ms"] by (auto simp: outcome_def dest: within_ok)
  obtain db' where g: "getOrInitSet db (str k) = (db', Inr s)" "DB_ok db'" "live db' = (live db)(str k \<mapsto> (ESet s, t))"
    using assms by (auto simp: getOrInitSet_def lookups live_put_touch Set_Make_elems fun_upd_idem)
  then show "live (fst (execSAdd db (k # ms))) = (live db)(str k \<mapsto> (ESet (fst (sadd_loop (map str ms) s 0)), t))"
    using live_store [OF g(2), of "str k" "ESet s" t] by (simp add: execSAdd_def Let_def onLookup_def case_prod_beta)
qed

subsection \<open>Set algebra\<close>

lemma getAsSet_set_key: "DB_ok db \<Longrightarrow> set_key db k \<Longrightarrow> getAsSet db k = (touch k db, Inr (set_at db k))"
  by (auto simp: set_key_def set_at_def lookups split: option.split entity.split)

lemma set_key_touch [simp]: "DB_ok db \<Longrightarrow> set_key (touch k' db) k = set_key db k" "DB_ok db \<Longrightarrow> set_at (touch k' db) k = set_at db k"
  by (simp_all add: set_key_def set_at_def)

lemma set_at_inv: "DB_ok db \<Longrightarrow> set_at db k = Some s \<Longrightarrow> SD_inv s"
  using live_entity_ok [of db k "ESet s"] by (auto simp: set_at_def split: option.splits prod.splits entity.splits)

lemma lookup_sets_live:
  "DB_ok db \<Longrightarrow> (\<And>k. k \<in> set keys \<Longrightarrow> set_key db k) \<Longrightarrow>
   \<exists>db'. lookup_sets r keys db =
     (db', if r \<noteq> None \<and> (\<exists>k \<in> set keys. Set_Len (set_at db k) = 0) then Inl (the r) else Inr (map (set_at db) keys))"
proof (induction keys arbitrary: db)
  case (Cons key keys)
  have "\<And>k. k \<in> set keys \<Longrightarrow> set_key (touch key db) k" using Cons.prems by simp
  from Cons.IH [OF DB_ok_touch [OF Cons.prems(1)] this] obtain db' where
    "lookup_sets r keys (touch key db) = (db', if r \<noteq> None \<and> (\<exists>k \<in> set keys. Set_Len (set_at db k) = 0)
      then Inl (the r) else Inr (map (set_at db) keys))" using Cons.prems(1) by auto
  with Cons.prems show ?case by (auto simp: getAsSet_set_key)
qed simp

lemma lists_set2reply: "SD_inv s \<Longrightarrow> lists_set (Some (set2reply s)) (elems (Some s))"
  unfolding lists_set_def
proof (intro exI conjI)
  assume "SD_inv s"
  then show "distinct (map fst (sd_m s))" by (simp add: SD_inv_def map_ok_def)
  show "set (map fst (sd_m s)) = elems (Some s)" by (simp add: elems_def)
  have "foldl (\<lambda>arr m. arr @ [Some m]) acc ms = acc @ map Some ms" for acc :: "bytes list" and ms
    by (induction ms arbitrary: acc) auto
  then show "Some (set2reply s) = Some (MultiBulkReply (map Some (map fst (sd_m s)))) \<or>
      Some (set2reply s) = Some EmptyMultiBulkReply \<and> map fst (sd_m s) = []"
    by (simp add: set2reply_def Set_ForEach_foldl)
qed

lemma elems_empty: "DB_ok db \<Longrightarrow> Set_Len (set_at db k) = 0 \<Longrightarrow> elems (set_at db k) = {}"
  by (auto simp: Set_Len_def SD_Len_def elems_def split: option.splits)



end
