(* ===== verification/ZSetCmds.thy ===== *)
theory ZSetCmds
  imports KeyCmds SortedSetSpec
begin

text \<open>
  \<^verbatim>\<open>database/sortedset.go\<close>: the commands on sorted sets. Scores are values of a linear order with a
  zero, parsed and printed by the functions of the environment.
\<close>

definition getOrInitSortedSet :: "('f :: zero) DB \<Rightarrow> string \<Rightarrow> 'f DB \<times> (reply + 'f SortedSet)" where
  "getOrInitSortedSet db key =
     (case getAsSortedSet db key of
        (db, Inl err) \<Rightarrow> (db, Inl err)
      | (db, Inr None) \<Rightarrow> (fst (PutEntity key (EZSet SS_Make) db), Inr SS_Make)
      | (db, Inr (Some z)) \<Rightarrow> (db, Inr z))"

definition notFloat :: reply where
  "notFloat = StandardErrReply ''ERR value is not a valid float''"

text \<open>The score-member pairs of the arguments; no result when a score is malformed.\<close>

fun zadd_elements :: "'f env \<Rightarrow> cmdline \<Rightarrow> 'f Element list option" where
  "zadd_elements E (scoreValue # member # rest) = do {
     score \<leftarrow> parseFloat E (str scoreValue);
     es \<leftarrow> zadd_elements E rest;
     Some (\<lparr>Member = str member, Score = score\<rparr> # es)
   }"
| "zadd_elements E _ = Some []"

text \<open>Every call of \<^verbatim>\<open>Add\<close> is given a random number of its own for the level of a new node.\<close>

fun zadd_loop :: "('f :: linorder) Element list \<Rightarrow> 'f SortedSet \<Rightarrow> int \<Rightarrow> 'f DB \<Rightarrow> 'f DB \<times> ('f SortedSet \<times> int) option" where
  "zadd_loop [] z i db = (db, Some (z, i))"
| "zadd_loop (e # es) z i db =
     (case draw db of (rnd, db) \<Rightarrow>
        (case SS_Add rnd z (Member e) (Score e) of
           None \<Rightarrow> (db, None)
         | Some (z, new) \<Rightarrow> zadd_loop es z (if new then i + 1 else i) db))"

definition execZAdd :: "('f :: {linorder, zero}) env \<Rightarrow> 'f handler" where
  "execZAdd E db args =
     (if length args mod 2 \<noteq> 1 then (db, Some SyntaxErrReply)
      else let key = str (args ! 0) in
        case zadd_elements E (tl args) of
          None \<Rightarrow> (db, Some notFloat)
        | Some elements \<Rightarrow>
            onLookup (getOrInitSortedSet db key) (\<lambda>db z.
              case zadd_loop elements z 0 db of (db, r) \<Rightarrow>
                onValue r db (\<lambda>(z, i).
                  (addAof (ToCmdLine3 ''zadd'' args) (store key (EZSet z) db), Some (IntReply i)))))"

fun every_other :: "'a list \<Rightarrow> 'a list" where
  "every_other (a # b # rest) = b # every_other rest"
| "every_other _ = []"

definition undoZAdd :: "'f env \<Rightarrow> 'f DB \<Rightarrow> cmdline \<Rightarrow> 'f DB \<times> cmdline list option" where
  "undoZAdd E db args = rollbackZSetFields E db (str (args ! 0)) (map str (every_other (tl args)))"

text \<open>The idiom of the queries: a reply for a missing key, and a value that may be a panic.\<close>

definition onSortedSet :: "'f DB \<Rightarrow> string \<Rightarrow> reply \<Rightarrow> ('f SortedSet \<Rightarrow> reply option) \<Rightarrow> 'f DB \<times> reply option" where
  "onSortedSet db key missing f =
     onLookup (getAsSortedSet db key) (\<lambda>db z. case z of None \<Rightarrow> (db, Some missing) | Some z \<Rightarrow> (db, f z))"

definition execZScore :: "'f env \<Rightarrow> 'f handler" where
  "execZScore E db args =
     onSortedSet db (str (args ! 0)) NullBulkReply (\<lambda>z.
       case SS_Get z (str (args ! 1)) of
         None \<Rightarrow> Some NullBulkReply
       | Some element \<Rightarrow> Some (BulkReply (Some (formatFloat E (Score element)))))"

definition execZRank :: "('f :: linorder) handler" where
  "execZRank db args =
     onSortedSet db (str (args ! 0)) NullBulkReply (\<lambda>z. do {
       rank \<leftarrow> SS_GetRank z (str (args ! 1)) False;
       Some (if rank < 0 then NullBulkReply else IntReply rank)
     })"

definition execZRevRank :: "('f :: linorder) handler" where
  "execZRevRank db args =
     onSortedSet db (str (args ! 0)) NullBulkReply (\<lambda>z. do {
       rank \<leftarrow> SS_GetRank z (str (args ! 1)) True;
       Some (if rank < 0 then NullBulkReply else IntReply rank)
     })"

definition execZCard :: "'f handler" where
  "execZCard db args = onSortedSet db (str (args ! 0)) (IntReply 0) (\<lambda>z. Some (IntReply (SS_Len z)))"

subsection \<open>Ranges by rank\<close>

text \<open>The members of a slice, each followed by its score when asked for.\<close>

definition elements_reply :: "'f env \<Rightarrow> bool \<Rightarrow> 'f Element list \<Rightarrow> reply" where
  "elements_reply E withScores slic =
     MultiBulkReply (concat (map (\<lambda>element.
       Some (Member element) # (if withScores then [Some (formatFloat E (Score element))] else [])) slic))"

text \<open>The indexes of a range from the arguments; none when it starts behind the end.\<close>

definition rank_range :: "int \<Rightarrow> int \<Rightarrow> int \<Rightarrow> (int \<times> int) option" where
  "rank_range sz start stop =
     (if start \<ge> sz \<and> \<not> start < - sz \<and> \<not> start < 0 then None
      else
        let start = (if start < - sz then 0 else if start < 0 then sz + start else start);
            stop = (if stop < - sz then 0 else if stop < 0 then sz + stop + 1 else if stop < sz then stop + 1 else sz)
        in Some (start, if stop < start then start else stop))"

definition range0 :: "'f env \<Rightarrow> 'f DB \<Rightarrow> string \<Rightarrow> int \<Rightarrow> int \<Rightarrow> bool \<Rightarrow> bool \<Rightarrow> 'f DB \<times> reply option" where
  "range0 E db key start stop withScores desc =
     onSortedSet db key EmptyMultiBulkReply (\<lambda>z.
       case rank_range (SS_Len z) start stop of
         None \<Rightarrow> Some EmptyMultiBulkReply
       | Some (start, stop) \<Rightarrow> do {
           slic \<leftarrow> SS_RangeByRank z start stop desc;
           es \<leftarrow> those slic;
           Some (elements_reply E withScores es)
         })"

definition arity_error :: "string \<Rightarrow> reply" where
  "arity_error name = StandardErrReply (''ERR wrong number of arguments for '' @ [CHR 0x27] @ name @ [CHR 0x27] @ '' command'')"

definition execZRange :: "'f env \<Rightarrow> 'f handler" where
  "execZRange E db args =
     (if length args \<noteq> 3 \<and> length args \<noteq> 4 then (db, Some (arity_error ''zrange''))
      else if length args = 4 \<and> ToUpper (str (args ! 3)) \<noteq> ''WITHSCORES'' then (db, Some (StandardErrReply ''syntax error''))
      else onInt notInteger (args ! 1) db (\<lambda>start.
        onInt notInteger (args ! 2) db (\<lambda>stop.
          range0 E db (str (args ! 0)) start stop (length args = 4) False)))"

text \<open>Unlike \<^verbatim>\<open>ZRANGE\<close>, this one takes its option in upper case only.\<close>

definition execZRevRange :: "'f env \<Rightarrow> 'f handler" where
  "execZRevRange E db args =
     (if length args \<noteq> 3 \<and> length args \<noteq> 4 then (db, Some (arity_error ''zrevrange''))
      else if length args = 4 \<and> str (args ! 3) \<noteq> ''WITHSCORES'' then (db, Some (StandardErrReply ''syntax error''))
      else onInt notInteger (args ! 1) db (\<lambda>start.
        onInt notInteger (args ! 2) db (\<lambda>stop.
          range0 E db (str (args ! 0)) start stop (length args = 4) True)))"

subsection \<open>Ranges by borders\<close>

text \<open>Continuing with a parsed border.\<close>

definition onBorder :: "(string + 'f Border) option \<Rightarrow> 'f DB \<Rightarrow> ('f Border \<Rightarrow> 'f DB \<times> reply option) \<Rightarrow> 'f DB \<times> reply option" where
  "onBorder b db k = onValue b db (\<lambda>r. case r of Inl err \<Rightarrow> (db, Some (StandardErrReply err)) | Inr border \<Rightarrow> k border)"

definition execZCount :: "('f :: {linorder, zero}) env \<Rightarrow> 'f handler" where
  "execZCount E db args =
     onBorder (ParseScoreBorder (parseFloat E) (str (args ! 1))) db (\<lambda>mn.
       onBorder (ParseScoreBorder (parseFloat E) (str (args ! 2))) db (\<lambda>mx.
         onSortedSet db (str (args ! 0)) (IntReply 0) (\<lambda>z. map_option IntReply (SS_RangeCount z mn mx))))"

definition rangeByScore0 :: "('f :: linorder) env \<Rightarrow> 'f DB \<Rightarrow> string \<Rightarrow> 'f Border \<Rightarrow> 'f Border \<Rightarrow> int \<Rightarrow> int
    \<Rightarrow> bool \<Rightarrow> bool \<Rightarrow> 'f DB \<times> reply option" where
  "rangeByScore0 E db key mn mx offset limit withScores desc =
     onSortedSet db key EmptyMultiBulkReply (\<lambda>z.
       map_option (elements_reply E withScores) (SS_Range z mn mx offset limit desc))"

fun range_options :: "cmdline \<Rightarrow> bool \<Rightarrow> int \<Rightarrow> int \<Rightarrow> reply + bool \<times> int \<times> int" where
  "range_options [] withScores offset limit = Inr (withScores, offset, limit)"
| "range_options (s # rest) withScores offset limit =
     (if ToUpper (str s) = ''WITHSCORES'' then range_options rest True offset limit
      else if ToUpper (str s) = ''LIMIT'' then
        (case rest of
           o1 # l1 # rest' \<Rightarrow>
             (case ParseInt (str o1) of
                None \<Rightarrow> Inl notInteger
              | Some offset \<Rightarrow>
                  (case ParseInt (str l1) of
                     None \<Rightarrow> Inl notInteger
                   | Some limit \<Rightarrow> range_options rest' withScores offset limit))
         | _ \<Rightarrow> Inl (StandardErrReply ''ERR syntax error''))
      else Inl (StandardErrReply ''ERR syntax error''))"

definition execZRangeByScore :: "('f :: {linorder, zero}) env \<Rightarrow> 'f handler" where
  "execZRangeByScore E db args =
     (if length args < 3 then (db, Some (arity_error ''zrangebyscore''))
      else onBorder (ParseScoreBorder (parseFloat E) (str (args ! 1))) db (\<lambda>mn.
        onBorder (ParseScoreBorder (parseFloat E) (str (args ! 2))) db (\<lambda>mx.
          onLookup (db, range_options (drop 3 args) False 0 (- 1)) (\<lambda>db (withScores, offset, limit).
            rangeByScore0 E db (str (args ! 0)) mn mx offset limit withScores False))))"

definition execZRevRangeByScore :: "('f :: {linorder, zero}) env \<Rightarrow> 'f handler" where
  "execZRevRangeByScore E db args =
     (if length args < 3 then (db, Some (arity_error ''zrangebyscore''))
      else onBorder (ParseScoreBorder (parseFloat E) (str (args ! 2))) db (\<lambda>mn.
        onBorder (ParseScoreBorder (parseFloat E) (str (args ! 1))) db (\<lambda>mx.
          onLookup (db, range_options (drop 3 args) False 0 (- 1)) (\<lambda>db (withScores, offset, limit).
            rangeByScore0 E db (str (args ! 0)) mn mx offset limit withScores True))))"

subsection \<open>Removal\<close>

text \<open>
  What the commands that take elements out have in common: \<open>f\<close> changes the set and answers; the line
  is logged when \<open>f\<close> says that something was removed. An emptied set keeps its key.
\<close>

definition removing :: "'f DB \<Rightarrow> string \<Rightarrow> reply \<Rightarrow> cmdline \<Rightarrow> ('f SortedSet \<Rightarrow> ('f SortedSet \<times> bool \<times> reply) option)
    \<Rightarrow> 'f DB \<times> reply option" where
  "removing db key missing line f =
     onLookup (getAsSortedSet db key) (\<lambda>db z. case z of
       None \<Rightarrow> (db, Some missing)
     | Some z \<Rightarrow> onValue (f z) db (\<lambda>(z, removed, r).
         let db = store key (EZSet z) db in (if removed then addAof line db else db, Some r)))"

definition execZRemRangeByScore :: "('f :: {linorder, zero}) env \<Rightarrow> 'f handler" where
  "execZRemRangeByScore E db args =
     (if length args \<noteq> 3 then (db, Some (arity_error ''zremrangebyscore''))
      else onBorder (ParseScoreBorder (parseFloat E) (str (args ! 1))) db (\<lambda>mn.
        onBorder (ParseScoreBorder (parseFloat E) (str (args ! 2))) db (\<lambda>mx.
          removing db (str (args ! 0)) EmptyMultiBulkReply (ToCmdLine3 ''zremrangebyscore'' args) (\<lambda>z. do {
            (z, removed) \<leftarrow> SS_RemoveRange z mn mx;
            Some (z, removed > 0, IntReply removed)
          }))))"

definition execZRemRangeByRank :: "'f handler" where
  "execZRemRangeByRank db args =
     onInt notInteger (args ! 1) db (\<lambda>start.
       onInt notInteger (args ! 2) db (\<lambda>stop.
         removing db (str (args ! 0)) (IntReply 0) (ToCmdLine3 ''zremrangebyrank'' args) (\<lambda>z.
           case rank_range (SS_Len z) start stop of
             None \<Rightarrow> Some (z, False, IntReply 0)
           | Some (start, stop) \<Rightarrow> do {
               (z, removed) \<leftarrow> SS_RemoveByRank z start stop;
               Some (z, removed > 0, IntReply removed)
             })))"

definition execZPopMin :: "('f :: {linorder, zero}) env \<Rightarrow> 'f handler" where
  "execZPopMin E db args =
     onInt notInteger (if length args > 1 then args ! 1 else Some ''1'') db (\<lambda>cnt.
       removing db (str (args ! 0)) EmptyMultiBulkReply (ToCmdLine3 ''zpopmin'' args) (\<lambda>z. do {
         (z, removed) \<leftarrow> SS_PopMin z cnt;
         Some (z, length removed > 0, elements_reply E True removed)
       }))"

fun zrem_loop :: "string list \<Rightarrow> ('f :: linorder) SortedSet \<Rightarrow> int \<Rightarrow> ('f SortedSet \<times> int) option" where
  "zrem_loop [] z deleted = Some (z, deleted)"
| "zrem_loop (field # rest) z deleted = do {
     (z, b) \<leftarrow> SS_Remove z field;
     zrem_loop rest z (if b then deleted + 1 else deleted)
   }"

definition execZRem :: "('f :: linorder) handler" where
  "execZRem db args =
     removing db (str (args ! 0)) (IntReply 0) (ToCmdLine3 ''zrem'' args) (\<lambda>z. do {
       (z, deleted) \<leftarrow> zrem_loop (map str (tl args)) z 0;
       Some (z, deleted > 0, IntReply deleted)
     })"

definition undoZRem :: "'f env \<Rightarrow> 'f DB \<Rightarrow> cmdline \<Rightarrow> 'f DB \<times> cmdline list option" where
  "undoZRem E db args = rollbackZSetFields E db (str (args ! 0)) (map str (tl args))"

definition execZIncrBy :: "('f :: {linorder, zero}) env \<Rightarrow> 'f handler" where
  "execZIncrBy E db args =
     (let key = str (args ! 0); field = str (args ! 2) in
      case parseFloat E (str (args ! 1)) of
        None \<Rightarrow> (db, Some notFloat)
      | Some delta \<Rightarrow>
          onLookup (getOrInitSortedSet db key) (\<lambda>db z.
            case draw db of (rnd, db) \<Rightarrow>
            let line = ToCmdLine3 ''zincrby'' args in
            (case SS_Get z field of
               None \<Rightarrow> onValue (SS_Add rnd z field delta) db (\<lambda>(z, b).
                 (addAof line (store key (EZSet z) db), Some (BulkReply (args ! 1))))
             | Some element \<Rightarrow>
                 let score = addFloat E (Score element) delta in
                 onValue (SS_Add rnd z field score) db (\<lambda>(z, b).
                   (addAof line (store key (EZSet z) db), Some (BulkReply (Some (formatFloat E score))))))))"

definition undoZIncr :: "'f env \<Rightarrow> 'f DB \<Rightarrow> cmdline \<Rightarrow> 'f DB \<times> cmdline list option" where
  "undoZIncr E db args = rollbackZSetFields E db (str (args ! 0)) [str (args ! 2)]"

subsection \<open>Lexicographic ranges\<close>

text \<open>These commands look the key up before they parse the borders.\<close>

definition execZLexCount :: "('f :: linorder) handler" where
  "execZLexCount db args =
     onLookup (getAsSortedSet db (str (args ! 0))) (\<lambda>db z. case z of
       None \<Rightarrow> (db, Some (IntReply 0))
     | Some z \<Rightarrow>
         onBorder (ParseLexBorder (str (args ! 1))) db (\<lambda>mn.
           onBorder (ParseLexBorder (str (args ! 2))) db (\<lambda>mx.
             (db, map_option IntReply (SS_RangeCount z mn mx)))))"

text \<open>The offset and the limit of the arguments, or the reply that ends the command.\<close>

definition lex_limits :: "cmdline \<Rightarrow> reply + int \<times> int" where
  "lex_limits args =
     (if length args \<le> 3 then Inr (0, 2 ^ 63 - 1)
      else case ParseInt (str (args ! 4)) of
        None \<Rightarrow> Inl notInteger
      | Some offset \<Rightarrow>
          if offset < 0 then Inl EmptyMultiBulkReply
          else (case ParseInt (str (args ! 5)) of
            None \<Rightarrow> Inl notInteger
          | Some cnt \<Rightarrow> Inr (offset, if cnt \<ge> 0 then cnt else 2 ^ 63 - 1)))"

text \<open>Both directions: the arguments that hold the lower and the upper border.\<close>

definition rangeByLex0 :: "bool \<Rightarrow> nat \<Rightarrow> nat \<Rightarrow> ('f :: linorder) handler" where
  "rangeByLex0 desc lo hi db args =
     (let n = length args in
      if n > 3 \<and> ToLower (str (args ! 3)) \<noteq> ''limit'' then (db, Some (StandardErrReply ''ERR syntax error''))
      else if n \<noteq> 3 \<and> n \<noteq> 6 then (db, Some (arity_error ''zrangebylex''))
      else onLookup (getAsSortedSet db (str (args ! 0))) (\<lambda>db z. case z of
        None \<Rightarrow> (db, Some (IntReply 0))
      | Some z \<Rightarrow>
          onBorder (ParseLexBorder (str (args ! lo))) db (\<lambda>mn.
            onBorder (ParseLexBorder (str (args ! hi))) db (\<lambda>mx.
              onLookup (db, lex_limits args) (\<lambda>db (offset, limitCnt).
                onValue (SS_Range z mn mx offset limitCnt desc) db (\<lambda>elements.
                  (db, Some (if elements = [] then EmptyMultiBulkReply
                     else MultiBulkReply (map (\<lambda>ele. Some (Member ele)) elements)))))))))"

definition execZRangeByLex :: "('f :: linorder) handler" where
  "execZRangeByLex db args = rangeByLex0 False 1 2 db args"

definition execZRevRangeByLex :: "('f :: linorder) handler" where
  "execZRevRangeByLex db args = rangeByLex0 True 2 1 db args"

text \<open>This one is not logged.\<close>

definition execZRemRangeByLex :: "('f :: linorder) handler" where
  "execZRemRangeByLex db args =
     (if length args \<noteq> 3 then (db, Some (arity_error ''zremrangebylex''))
      else let key = str (args ! 0) in
        onLookup (getAsSortedSet db key) (\<lambda>db z. case z of
          None \<Rightarrow> (db, Some (IntReply 0))
        | Some z \<Rightarrow>
            onBorder (ParseLexBorder (str (args ! 1))) db (\<lambda>mn.
              onBorder (ParseLexBorder (str (args ! 2))) db (\<lambda>mx.
                onValue (SS_RemoveRange z mn mx) db (\<lambda>(z, cnt).
                  (store key (EZSet z) db, Some (IntReply cnt)))))))"

text \<open>A missing cursor is an index panic.\<close>

definition execZScan :: "'f env \<Rightarrow> 'f handler" where
  "execZScan E db args =
     onValue (scan_options False (drop 2 args) 10 ''*'' []) db (\<lambda>opts.
       onLookup (db, opts) (\<lambda>db (cnt, pattern, _).
         onLookup (getAsSortedSet db (str (args ! 0))) (\<lambda>db z. case z of
           None \<Rightarrow> (db, Some EmptyMultiBulkReply)
         | Some z \<Rightarrow>
             onValue (go_index args 1) db (\<lambda>arg1.
               onInt (StandardErrReply ''ERR invalid cursor'') arg1 db (\<lambda>cursor.
                 case ZSetScan E z cursor cnt pattern of (keysReply, nextCursor) \<Rightarrow>
                   if nextCursor < 0 then (db, Some (StandardErrReply ''Invalid argument''))
                   else (db, Some (scan_reply nextCursor keysReply)))))))"

text \<open>An environment in which scores are integers.\<close>

definition int_env :: "int env" where
  "int_env = \<lparr>parseFloat = ParseInt, formatFloat = FormatInt, formatFloat10 = FormatInt, addFloat = (+), numError = (\<lambda>s. s),
     regexpCompile = (\<lambda>s. None)\<rparr>"

section \<open>Lemmas\<close>

subsection \<open>Searches with any condition\<close>

text \<open>
  A search of the skip list whose condition is not monotone still ends at some position \<open>K\<close>, with the
  nodes of the levels that are right for it: a lower level does not pass the node that a higher one
  has stopped at.
\<close>

lemma walk_any:
  assumes rep: "sl_rep sl es hs as" and i: "i < sl_level sl"
    and "p < B" "B \<le> Suc (length es)" "i < Hs hs ! p"
    and B: "B \<le> length es \<Longrightarrow> \<not> P (es ! (B - 1)) \<and> i < Hs hs ! B"
  shows "\<exists>q. walk sl i (\<lambda>r s e. P e) (As as ! p) (int p) = Some (As as ! q, int q) \<and> p \<le> q \<and> q < B \<and> i < Hs hs ! q \<and>
    nxt (Hs hs) i q \<le> B \<and> (nxt (Hs hs) i q \<le> length es \<longrightarrow> \<not> P (es ! (nxt (Hs hs) i q - 1)))"
  using assms(3,5)
proof (induction "B - p" arbitrary: p rule: less_induct)
  case less
  let ?H = "Hs hs" and ?q = "nxt (Hs hs) i p"
  have p: "p \<le> length es" and len: "length ?H = Suc (length es)" using less.prems assms(4) sl_rep_lengths [OF rep] by simp_all
  have f: "forward sl (As as ! p) i = Some (if ?q \<le> length es then Some (As as ! ?q) else None)"
    using less.prems p by (intro sl_rep_forward [OF rep]) auto
  have qB: "?q \<le> B"
  proof (rule ccontr)
    assume "\<not> ?q \<le> B"
    with nxt_low [of p B ?H i] nxt_le [of p ?H i] less.prems p len B show False by (cases "B \<le> length es") auto
  qed
  show ?case
  proof (cases "?q \<le> length es")
    case False
    with f less.prems qB show ?thesis by (subst walk.simps) auto
  next
    case True
    have "0 < ?q" using nxt_gt [of p ?H i] by simp
    then obtain nd where nd: "sl_nodes sl (As as ! ?q) = Some nd" "zn_elem nd = es ! (?q - 1)"
      using sl_rep_node [OF rep True] by blast
    have s: "sl_span sl (As as ! p) i = int ?q - int p"
      using sl_rep_fwd(2) [OF rep p less.prems(2) i] True by simp
    show ?thesis
    proof (cases "P (es ! (?q - 1))")
      case False
      with f True nd less.prems qB show ?thesis by (subst walk.simps) auto
    next
      case P: True
      then have lt: "?q < B" using B qB True by (cases "?q = B") auto
      have hi: "i < ?H ! ?q" using True len by (intro nxt_high) simp
      have "B - ?q < B - p" using lt nxt_gt [of p ?H i] by linarith
      from less.hyps [OF this lt hi] obtain q where "walk sl i (\<lambda>r s e. P e) (As as ! ?q) (int ?q) = Some (As as ! q, int q)" "?q \<le> q" "q < B"
        "i < ?H ! q" "nxt ?H i q \<le> B" "nxt ?H i q \<le> length es \<longrightarrow> \<not> P (es ! (nxt ?H i q - 1))"
        by blast
      moreover have "p \<le> q" using \<open>?q \<le> q\<close> nxt_gt [of p ?H i] by simp
      ultimately show ?thesis using f True nd s P by (subst walk.simps) auto
    qed
  qed
qed

lemma descend_any:
  assumes rep: "sl_rep sl es hs as"
  shows "L \<le> sl_level sl \<Longrightarrow> p < B \<Longrightarrow> B \<le> Suc (length es) \<Longrightarrow> (\<And>i. i < L \<Longrightarrow> i < Hs hs ! p) \<Longrightarrow>
    (\<And>i. i < L \<Longrightarrow> B \<le> length es \<Longrightarrow> i < Hs hs ! B) \<Longrightarrow> (B \<le> length es \<Longrightarrow> \<not> P (es ! (B - 1))) \<Longrightarrow>
    \<exists>K rank'. descend sl (\<lambda>r s e. P e) L (As as ! p) (int p) update rank =
      Some (As as ! K, int K, map (\<lambda>i. As as ! lst (Hs hs) i K) [0..<L] @ update, rank') \<and> p \<le> K \<and> K < B"
proof (induction L arbitrary: p B update rank)
  case (Suc L)
  from walk_any [OF rep, of L p B P] Suc.prems obtain q where
    q: "walk sl L (\<lambda>r s e. P e) (As as ! p) (int p) = Some (As as ! q, int q)" "p \<le> q" "q < B" "L < Hs hs ! q"
      "nxt (Hs hs) L q \<le> B" "nxt (Hs hs) L q \<le> length es \<longrightarrow> \<not> P (es ! (nxt (Hs hs) L q - 1))"
    by (auto simp: Suc_le_eq)
  have len: "length (Hs hs) = Suc (length es)" using sl_rep_lengths [OF rep] by simp
  have high: "nxt (Hs hs) L q \<le> length es \<Longrightarrow> L < Hs hs ! nxt (Hs hs) L q" using len by (intro nxt_high) simp
  have "\<exists>K rank'. descend sl (\<lambda>r s e. P e) L (As as ! q) (int q) ((As as ! q) # update) (int q # rank) =
      Some (As as ! K, int K, map (\<lambda>i. As as ! lst (Hs hs) i K) [0..<L] @ ((As as ! q) # update), rank') \<and>
      q \<le> K \<and> K < nxt (Hs hs) L q"
    by (rule Suc.IH) (use Suc.prems q nxt_gt [of q "Hs hs" L] high in \<open>auto intro: less_trans dest: Suc_leD\<close>)
  then obtain K rank' where K: "descend sl (\<lambda>r s e. P e) L (As as ! q) (int q) ((As as ! q) # update) (int q # rank) =
      Some (As as ! K, int K, map (\<lambda>i. As as ! lst (Hs hs) i K) [0..<L] @ ((As as ! q) # update), rank')"
      "q \<le> K" "K < nxt (Hs hs) L q" by blast
  moreover have "lst (Hs hs) L K = q" using K(2,3) q(4,5) Suc.prems(3) len by (intro lst_nxt) auto
  ultimately show ?case using q by auto
qed auto

lemma SS_RemoveRange_any:
  assumes r: "SS_rep ss es"
  shows "\<exists>ss' es' n. SS_RemoveRange ss mn mx = Some (ss', n) \<and> SS_rep ss' es'"
proof -
  obtain hs as where rep: "sl_rep (ss_list ss) es hs as" using r by (auto simp: SS_rep_def)
  have "1 \<le> sl_level (ss_list ss)" "\<And>i. i < sl_level (ss_list ss) \<Longrightarrow> i < Hs hs ! 0"
    using sl_rep_level [OF rep] by auto
  with descend_any [OF rep order_refl, of 0 "Suc (length es)" "\<lambda>e. \<not> border_less mn e" "[]" "[]"]
  obtain K rank' where K: "K \<le> length es" and d: "descend (ss_list ss) (\<lambda>r s e. \<not> border_less mn e) (sl_level (ss_list ss)) 0 0 [] [] =
      Some (As as ! K, int K, map (\<lambda>i. As as ! lst (Hs hs) i K) [0..<sl_level (ss_list ss)], rank')"
    by (auto simp: less_Suc_eq_le)
  define n where "n = run_length mx 0 (drop K es)"
  from removeRange_loop_rep [OF rep K upd_ok_descend [OF rep K] refl, of 0 "[]" n mx] n_def
  obtain sl' hs' as' where "sl_RemoveRange (ss_list ss) mn mx 0 = Some (sl', take n (drop K es))"
      "sl_rep sl' (take K es @ drop (K + n) es) hs' as'"
    using d forward_0 [OF rep K] by (auto simp: sl_RemoveRange_def)
  with removed_rep [OF r] show ?thesis by (fastforce simp: SS_RemoveRange_def)
qed

subsection \<open>Removing nothing\<close>

lemma removeRange_loop_grows:
  "removeRange_loop sl mx limit update node rm = Some y \<Longrightarrow>
   length rm \<le> length (snd y) \<and> (length (snd y) \<le> length rm \<longrightarrow> fst y = sl)"
proof (induction rule: removeRange_loop.raw_induct [rotated 1, consumes 1, case_names 1])
  case (1 f sl mx limit update node rm y)
  show ?case
  proof (cases node)
    case (Some x)
    with 1(2) show ?thesis
      by (auto split: Option.bind_splits if_splits dest!: 1(1))
  qed (use 1(2) in auto)
qed

lemma removeByRank_loop_grows:
  "removeByRank_loop sl stop update node i rm = Some y \<Longrightarrow>
   length rm \<le> length (snd y) \<and> (length (snd y) \<le> length rm \<longrightarrow> fst y = sl)"
proof (induction rule: removeByRank_loop.raw_induct [rotated 1, consumes 1, case_names 1])
  case (1 f sl stop update node i rm y)
  show ?case
  proof (cases node)
    case (Some x)
    with 1(2) show ?thesis
      by (auto split: Option.bind_splits if_splits dest!: 1(1))
  qed (use 1(2) in auto)
qed

lemma del_members_none [simp]: "del_members z (ss_list z) [] = z"
  by (simp add: del_members_def)

lemma SS_RemoveRange_none: "SS_RemoveRange z mn mx = Some (z', n) \<Longrightarrow> n \<le> 0 \<Longrightarrow> z' = z"
  by (auto simp: SS_RemoveRange_def sl_RemoveRange_def split: Option.bind_splits dest!: removeRange_loop_grows)

lemma SS_RemoveByRank_none: "SS_RemoveByRank z a b = Some (z', n) \<Longrightarrow> n \<le> 0 \<Longrightarrow> z' = z"
  by (auto simp: SS_RemoveByRank_def sl_RemoveRangeByRank_def split: Option.bind_splits dest!: removeByRank_loop_grows)

lemma SS_PopMin_none: "SS_PopMin z n = Some (z', []) \<Longrightarrow> z' = z"
  by (auto simp: SS_PopMin_def sl_RemoveRange_def split: Option.bind_splits option.splits dest!: removeRange_loop_grows)

lemma zrem_loop_rep:
  "SS_rep z es \<Longrightarrow> \<exists>z' es' n'. zrem_loop fs z n = Some (z', n') \<and> SS_rep z' es' \<and> n \<le> n' \<and> (n' = n \<longrightarrow> z' = z)"
proof (induction fs arbitrary: z es n)
  case (Cons f fs)
  obtain z1 where z1: "SS_Remove z f = Some (z1, f \<in> Member ` set es)" "SS_rep z1 (without f es)"
    using SS_Remove_rep [OF Cons.prems] by blast
  have "z1 = z" if "f \<notin> Member ` set es"
    using z1(1) that SS_rep_dict_None [OF Cons.prems, of f] by (simp add: SS_Remove_def)
  with Cons.IH [OF z1(2), of "if f \<in> Member ` set es then n + 1 else n"] z1 show ?case by (auto split: if_splits)
qed auto

subsection \<open>Adding elements\<close>

abbreviation add_elements :: "('f :: linorder) Element list \<Rightarrow> 'f Element list \<Rightarrow> 'f Element list" where
  "add_elements \<equiv> foldl (\<lambda>es e. place e (without (Member e) es))"

lemma zadd_loop_rep:
  "SS_rep z es \<Longrightarrow> \<exists>z' n. zadd_loop els z i db = (db\<lparr>drawn := drawn db + length els\<rparr>, Some (z', n)) \<and>
     SS_rep z' (add_elements es els)"
proof (induction els arbitrary: z es i db)
  case (Cons e els)
  obtain z1 where z1: "SS_Add (rands db (drawn db)) z (Member e) (Score e) = Some (z1, Member e \<notin> Member ` set es)"
    "SS_rep z1 (place e (without (Member e) es))"
    using SS_Add_rep [OF Cons.prems, of "rands db (drawn db)" "Member e" "Score e"] by (cases e) auto
  from Cons.IH [OF z1(2), of "if Member e \<notin> Member ` set es then i + 1 else i" "db\<lparr>drawn := Suc (drawn db)\<rparr>"] z1
  show ?case by (auto simp: draw_def)
qed auto

lemma SS_Make_rep: "SS_rep (SS_Make :: ('f :: {linorder, zero}) SortedSet) []"
  using SS_Make_holds by (simp add: SS_holds_def)

subsection \<open>What the handlers change\<close>

lemma outcome_onBorder [outcomes]:
  "within {} db0 db \<Longrightarrow> (\<And>x. b = Some (Inr x) \<Longrightarrow> outcome K db0 (fst (k x))) \<Longrightarrow> outcome K db0 (fst (onBorder b db k))"
  unfolding onBorder_def by (rule outcome_onValue) (auto intro: outcome_read split: sum.split)

lemma outcome_onSortedSet_read [outcomes]: "within {} db0 db \<Longrightarrow> outcome K db0 (fst (onSortedSet db key missing f))"
  unfolding onSortedSet_def by (rule outcome_onSortedSet) (auto intro: outcome_touch)

lemma outcome_removing:
  assumes w: "within {} db0 db" and key: "key \<in> K"
    and f: "\<And>z es z' removed r. SS_rep z es \<Longrightarrow> f z = Some (z', removed, r) \<Longrightarrow> (\<exists>es'. SS_rep z' es') \<and> (\<not> removed \<longrightarrow> z' = z)"
  shows "outcome K db0 (fst (removing db key missing line f))"
  unfolding removing_def
proof (rule outcome_onSortedSet [OF w])
  have t: "within {} db0 (touch key db)" by (rule within_touch [OF w])
  then show "outcome K db0 (fst (case None of None \<Rightarrow> (touch key db, Some missing) | Some z \<Rightarrow>
      onValue (f z) (touch key db) (\<lambda>(z, removed, r). let db = store key (EZSet z) (touch key db) in
        (if removed then addAof line db else db, Some r))))"
    by (simp add: outcome_read)
  fix z es ttl assume l: "live db key = Some (EZSet z, ttl)" and z: "SS_rep z es"
  have d: "CD_Get (data (touch key db)) key = Some (EZSet z)" using l within_ok [OF w] by (simp add: data_touch)
  have "outcome K db0 (if removed then addAof line (store key (EZSet z') (touch key db)) else store key (EZSet z') (touch key db))"
    if "f z = Some (z', removed, r)" for z' removed r
    using f [OF z that] key d t
    by (auto intro!: outcome_logged within_store within_any [OF t] outcome_read [OF store_same])
  then show "outcome K db0 (fst (case Some z of None \<Rightarrow> (touch key db, Some missing) | Some z \<Rightarrow>
      onValue (f z) (touch key db) (\<lambda>(z, removed, r). let db = store key (EZSet z) (touch key db) in
        (if removed then addAof line db else db, Some r))))"
    using t by (auto simp: Let_def intro!: outcome_onValue)
qed

lemma zset_reads_outcome:
  assumes "DB_ok db"
  shows "outcome K db (fst (execZScore E db args))" "outcome K db (fst (execZRank db args))"
    "outcome K db (fst (execZRevRank db args))" "outcome K db (fst (execZCard db args))"
    "outcome K db (fst (execZRange E db args))" "outcome K db (fst (execZRevRange E db args))"
    "outcome K db (fst (execZCount E db args))" "outcome K db (fst (execZRangeByScore E db args))"
    "outcome K db (fst (execZRevRangeByScore E db args))" "outcome K db (fst (execZLexCount db args))"
    "outcome K db (fst (execZRangeByLex db args))" "outcome K db (fst (execZRevRangeByLex db args))"
  using assms
  unfolding execZScore_def execZRank_def execZRevRank_def execZCard_def execZRange_def execZRevRange_def range0_def
    execZCount_def execZRangeByScore_def execZRevRangeByScore_def rangeByScore0_def execZLexCount_def
    execZRangeByLex_def execZRevRangeByLex_def rangeByLex0_def Let_def
  by (auto simp: case_prod_beta intro!: outcome_refl outcome_onSortedSet_read outcome_onInt outcome_onBorder outcome_onOptions outcome_onSortedSet
      outcome_onValue within_refl outcome_touch within_touch)

lemma execZScan_outcome: "DB_ok db \<Longrightarrow> outcome K db (fst (execZScan E db args))"
  unfolding execZScan_def
  by (auto simp: case_prod_beta intro!: outcome_onValue outcome_onOptions outcome_onInt outcome_onSortedSet within_refl outcome_refl
      outcome_touch within_touch)

lemma execZRem_outcome: "DB_ok db \<Longrightarrow> outcome {str (args ! 0)} db (fst (execZRem db args))"
  unfolding execZRem_def
proof (rule outcome_removing)
  fix z :: "'a SortedSet" and es z' removed r
  assume "SS_rep z es" and
    "zrem_loop (map str (tl args)) z 0 \<bind> (\<lambda>(z, deleted). Some (z, deleted > 0, IntReply deleted)) = Some (z', removed, r)"
  then show "(\<exists>es'. SS_rep z' es') \<and> (\<not> removed \<longrightarrow> z' = z)"
    using zrem_loop_rep [of z es "map str (tl args)" 0] by auto
qed (simp_all add: within_refl)

lemma RemoveRange_step:
  assumes "SS_rep z es" and "SS_RemoveRange z mn mx \<bind> (\<lambda>(z, n). Some (z, n > 0, IntReply n)) = Some (z', removed, r)"
  shows "(\<exists>es'. SS_rep z' es') \<and> (\<not> removed \<longrightarrow> z' = z)"
proof -
  obtain y es' n where y: "SS_RemoveRange z mn mx = Some (y, n)" "SS_rep y es'" using SS_RemoveRange_any [OF assms(1)] by blast
  with assms(2) SS_RemoveRange_none [OF y(1)] show ?thesis by auto
qed

lemma RemoveByRank_step:
  assumes "SS_rep z es" and "SS_RemoveByRank z a b \<bind> (\<lambda>(z, n). Some (z, n > 0, IntReply n)) = Some (z', removed, r)"
  shows "(\<exists>es'. SS_rep z' es') \<and> (\<not> removed \<longrightarrow> z' = z)"
proof -
  obtain y es' n where y: "SS_RemoveByRank z a b = Some (y, n)" "SS_rep y es'"
    using SS_RemoveByRank_rep [OF assms(1) refl refl, of a b] by blast
  with assms(2) SS_RemoveByRank_none [OF y(1)] show ?thesis by auto
qed

lemma PopMin_step:
  assumes "SS_rep z es" and "SS_PopMin z n \<bind> (\<lambda>(z, rm). Some (z, length rm > 0, f rm)) = Some (z', removed, r)"
  shows "(\<exists>es'. SS_rep z' es') \<and> (\<not> removed \<longrightarrow> z' = z)"
proof -
  obtain y es' rm where y: "SS_PopMin z n = Some (y, rm)" "SS_rep y es'"
    using SS_PopMin_rep [OF assms(1) refl, of n] by blast
  with assms(2) SS_PopMin_none [of z n y] show ?thesis by auto
qed

lemma execZRemRangeByScore_outcome:
  assumes ok: "DB_ok db"
  shows "outcome {str (args ! 0)} db (fst (execZRemRangeByScore E db args))"
proof -
  note step = outcome_removing [OF within_refl [OF ok], of "str (args ! 0)" "{str (args ! 0)}"]
  show ?thesis unfolding execZRemRangeByScore_def
    by (auto intro!: outcome_refl outcome_onBorder within_refl ok step dest: RemoveRange_step)
qed

lemma execZRemRangeByRank_outcome:
  assumes ok: "DB_ok db"
  shows "outcome {str (args ! 0)} db (fst (execZRemRangeByRank db args))"
proof -
  have r: "(\<exists>es'. SS_rep z' es') \<and> (\<not> removed \<longrightarrow> z' = z)"
    if "SS_rep z es" "(case rank_range (SS_Len z) a b of None \<Rightarrow> Some (z, False, IntReply 0)
      | Some (a, b) \<Rightarrow> SS_RemoveByRank z a b \<bind> (\<lambda>(z, n). Some (z, n > 0, IntReply n))) = Some (z', removed, r)"
    for z :: "'a SortedSet" and es z' removed r a b
    using that RemoveByRank_step [OF that(1)] by (auto split: option.splits)
  show ?thesis unfolding execZRemRangeByRank_def
    by (intro outcome_onInt within_refl ok outcome_removing) (rule insertI1, rule r)
qed

lemma execZPopMin_outcome: "DB_ok db \<Longrightarrow> outcome {str (args ! 0)} db (fst (execZPopMin E db args))"
  unfolding execZPopMin_def
  by (rule outcome_onInt, erule within_refl, rule outcome_removing, erule within_refl, simp, rule PopMin_step)

lemma getOrInitSortedSet_found:
  fixes db :: "('f :: {linorder, zero}) DB"
  assumes "DB_ok db"
  obtains err where "getOrInitSortedSet db key = (touch key db, Inl err)"
  | db' z es t where "getOrInitSortedSet db key = (db', Inr z)" "within {key} db db'" "SS_rep z es"
    "live db' = (live db)(key \<mapsto> (EZSet z, t))"
    "live db key = None \<and> es = [] \<and> t = None \<or> live db key = Some (EZSet z, t)"
proof (cases "live db key")
  case None
  let ?db = "fst (PutEntity key (EZSet SS_Make) (touch key db))"
  have z: "entity_ok (EZSet (SS_Make :: 'f SortedSet))" using SS_Make_rep by auto
  have "within {key} db ?db"
    using within_touch [OF within_refl [OF assms]] z by (intro within_PutEntity) auto
  moreover have "live ?db = (live db)(key \<mapsto> (EZSet SS_Make, None))" using assms None z by (simp add: live_put_touch)
  ultimately show ?thesis
    using None assms SS_Make_rep by (intro that(2) [of ?db SS_Make "[]" None]) (simp_all add: getOrInitSortedSet_def lookups)
next
  case (Some p)
  obtain e t where p: "p = (e, t)" by (cases p)
  have w: "within {key} db (touch key db)" by (rule within_touch [OF within_refl [OF assms]])
  show ?thesis
  proof (cases e)
    case (EZSet z)
    then obtain es where "SS_rep z es" using live_entity_ok [OF assms, of key e t] Some p by auto
    with Some p EZSet assms w show ?thesis
      by (intro that(2) [of "touch key db" z es t]) (auto simp: getOrInitSortedSet_def lookups)
  qed (use Some p assms that(1) in \<open>auto simp: getOrInitSortedSet_def lookups\<close>)
qed

text \<open>The elements end up in the set, in the order of the list; the expiration time stays.\<close>

lemma execZAdd_live:
  fixes E :: "('f :: {linorder, zero}) env"
  assumes ok: "DB_ok db" and els: "zadd_elements E args = Some els" and len: "even (length args)"
    and l: "live db (str k) = None \<and> es = [] \<and> t = None \<or> (\<exists>z. live db (str k) = Some (EZSet z, t) \<and> SS_rep z es)"
  shows "\<exists>z'. SS_rep z' (add_elements es els) \<and>
    live (fst (execZAdd E db (k # args))) = (live db)(str k \<mapsto> (EZSet z', t))"
  using ok
proof (rule getOrInitSortedSet_found [of db "str k"])
  fix err assume "getOrInitSortedSet db (str k) = (touch (str k) db, Inl err)"
  with l ok show ?thesis by (auto simp: getOrInitSortedSet_def lookups)
next
  fix db' z es' t'
  assume g: "getOrInitSortedSet db (str k) = (db', Inr z)" "within {str k} db db'" "SS_rep z es'"
    "live db' = (live db)(str k \<mapsto> (EZSet z, t'))"
    "live db (str k) = None \<and> es' = [] \<and> t' = None \<or> live db (str k) = Some (EZSet z, t')"
  obtain es'' where es: "SS_rep z es''" "es'' = es" "t' = t" using g(3,5) l by auto
  from zadd_loop_rep [OF es(1), of els 0 db'] obtain z' n where
    z: "zadd_loop els z 0 db' = (db'\<lparr>drawn := drawn db' + length els\<rparr>, Some (z', n))" "SS_rep z' (add_elements es els)"
    unfolding es(2) by blast
  have ok': "DB_ok (db'\<lparr>drawn := drawn db' + length els\<rparr>)" using within_ok [OF within_drawn [OF g(2)]] .
  have "fst (execZAdd E db (k # args)) =
      addAof (ToCmdLine3 ''zadd'' (k # args)) (store (str k) (EZSet z') (db'\<lparr>drawn := drawn db' + length els\<rparr>))"
    using len els z g(1) by (simp add: execZAdd_def Let_def onLookup_def onValue_def even_iff_mod_2_eq_zero mod_Suc)
  then show ?thesis
    using z(2) live_store [OF ok', of "str k" "EZSet z" t "EZSet z'"] g(4) es(3) by auto
qed

lemma execZAdd_outcome:
  assumes ok: "DB_ok db"
  shows "outcome {str (args ! 0)} db (fst (execZAdd E db args))"
proof -
  let ?key = "str (args ! 0)"
  have "outcome {?key} db (fst (onLookup (getOrInitSortedSet db ?key) (\<lambda>db z.
      case zadd_loop els z 0 db of (db, r) \<Rightarrow> onValue r db (\<lambda>(z, i). (addAof line (store ?key (EZSet z) db), Some (IntReply i))))))"
    for els line
    using ok
  proof (rule getOrInitSortedSet_found)
    fix db' z es t assume g: "getOrInitSortedSet db ?key = (db', Inr z)" "within {?key} db db'" "SS_rep z es"
    from zadd_loop_rep [OF g(3), of els 0 db'] obtain z' n where
      "zadd_loop els z 0 db' = (db'\<lparr>drawn := drawn db' + length els\<rparr>, Some (z', n))" "SS_rep z' (add_elements es els)" by blast
    with g show ?thesis by (auto simp: onLookup_def onValue_def intro!: outcome_logged within_store within_drawn)
  qed (use ok in \<open>auto simp: onLookup_def intro: outcome_touch within_refl\<close>)
  then show ?thesis by (auto simp: execZAdd_def Let_def ok intro: outcome_refl split: option.split)
qed

lemma execZIncrBy_outcome:
  assumes ok: "DB_ok db"
  shows "outcome {str (args ! 0)} db (fst (execZIncrBy E db args))"
proof -
  let ?key = "str (args ! 0)"
  have add: "outcome {?key} db (fst (onValue (SS_Add rnd z m sc) db' (\<lambda>(z, b). (addAof line (store ?key (EZSet z) db'), Some r))))"
    if w: "within {?key} db db'" and z: "SS_rep z es" for z es db' rnd m sc line r
  proof -
    obtain z' where "SS_Add rnd z m sc = Some (z', m \<notin> Member ` set es)" "\<exists>es'. SS_rep z' es'" using SS_Add_rep [OF z] by blast
    with w show ?thesis by (auto simp: onValue_def intro!: outcome_logged within_store)
  qed
  show ?thesis
  proof (cases "parseFloat E (str (args ! 1))")
    case (Some delta)
    from ok show ?thesis
    proof (rule getOrInitSortedSet_found)
      fix db' z es t assume g: "getOrInitSortedSet db ?key = (db', Inr z)" "within {?key} db db'" "SS_rep z es"
      then show ?thesis
        by (auto simp: execZIncrBy_def Let_def Some onLookup_def draw_def simp del: One_nat_def intro!: add within_drawn
            split: option.split)
    qed (use ok Some in \<open>auto simp: execZIncrBy_def Let_def onLookup_def intro: outcome_touch within_refl\<close>)
  qed (use ok in \<open>simp add: execZIncrBy_def Let_def outcome_refl\<close>)
qed

text \<open>\<^verbatim>\<open>ZREMRANGEBYLEX\<close> changes its key without logging it.\<close>

lemma execZRemRangeByLex_within:
  assumes ok: "DB_ok db"
  shows "within {str (args ! 0)} db (fst (execZRemRangeByLex db args))"
proof -
  let ?key = "str (args ! 0)"
  have t: "within {?key} db (touch ?key db)" by (rule within_touch [OF within_refl [OF ok]])
  have st: "within {?key} db (fst (onValue (SS_RemoveRange z mn mx) (touch ?key db) (\<lambda>(z, cnt).
      (store ?key (EZSet z) (touch ?key db), Some (IntReply cnt)))))" if "SS_rep z es" for z es mn mx
  proof -
    obtain y es' n where "SS_RemoveRange z mn mx = Some (y, n)" "SS_rep y es'" using SS_RemoveRange_any [OF \<open>SS_rep z es\<close>] by blast
    with t show ?thesis by (auto simp: onValue_def intro!: within_store)
  qed
  have e: "\<exists>es. SS_rep z es" if "live db ?key = Some (EZSet z, ttl)" for z ttl using live_entity_ok [OF ok that] by simp
  have b: "within {?key} db (fst (onBorder x (touch ?key db) k))" if "\<And>y. within {?key} db (fst (k y))" for x k
    using that t by (auto simp: onBorder_def onValue_def split: option.split sum.split)
  show ?thesis
    using ok t by (auto simp: execZRemRangeByLex_def Let_def onLookup_def lookups within_refl dest!: e intro!: b st
        split: option.split prod.split entity.split)
qed

subsection \<open>Properties\<close>

lemma add_elements_set:
  "e \<in> set (add_elements es els) \<longleftrightarrow>
   (case map_of (map (\<lambda>x. (Member x, Score x)) (rev els)) (Member e) of Some sc \<Rightarrow> Score e = sc | None \<Rightarrow> e \<in> set es)"
proof (induction els rule: rev_induct)
  case (snoc x els)
  have "e = x \<longleftrightarrow> Member e = Member x \<and> Score e = Score x" by (cases e; cases x) auto
  with snoc show ?case by (auto split: option.splits)
qed simp

lemma add_elements_length: "length (add_elements es els) \<le> length es + length els"
proof (induction els rule: rev_induct)
  case (snoc x els)
  have "length (place x (without m ys)) \<le> Suc (length ys)" for m ys
    by (simp add: place_def without_def)
  from le_trans [OF this] snoc show ?case by simp
qed simp

lemma range0_all:
  assumes "DB_ok db" and "live db key = Some (EZSet z, t)" and "SS_rep z es" and "8 * int (length es) \<le> maxAlloc" and "es \<noteq> []"
  shows "snd (range0 E db key 0 (- 1) withScores desc) = Some (elements_reply E withScores (dir desc es))"
proof -
  have L: "SS_Len z = int (length es)" using SS_rep_length [OF assms(3)] by (simp add: SS_Len_def)
  have "rank_range (SS_Len z) 0 (- 1) = Some (0, int (length es))" using assms(5) L by (auto simp: rank_range_def Let_def)
  moreover have "SS_RangeByRank z 0 (int (length es)) desc = Some (map Some (dir desc es))"
    using SS_RangeByRank_rep [OF assms(3), of 0 "int (length es)" desc] assms(4,5) by simp
  moreover have "those (map Some ys) = Some ys" for ys :: "'a Element list" by (induction ys) auto
  ultimately show ?thesis using assms(1,2) by (simp add: range0_def onSortedSet_def onLookup_def lookups)
qed



end
