(* ===== verification/ClusterHelper.thy ===== *)
theory ClusterHelper
  imports KeyCmds RespParser
begin

text \<open>
  \<^verbatim>\<open>database/cluster_helper.go\<close>: the commands that nodes of a cluster send each other. A dumped key is
  the wire form of the command that restores its value and of the one that restores its expiration
  time; loading it parses both, puts the new key into them and runs them. The command table that
  the loading commands run them with is an argument.
\<close>

fun existIn_loop :: "cmdline \<Rightarrow> bytes list \<Rightarrow> 'f DB \<Rightarrow> 'f DB \<times> bytes list" where
  "existIn_loop [] result db = (db, result)"
| "existIn_loop (arg # args) result db =
     (case GetEntity db (str arg) of
        (db, Some e) \<Rightarrow> existIn_loop args (result @ [Some (str arg)]) db
      | (db, None) \<Rightarrow> existIn_loop args result db)"

definition execExistIn :: "'f handler" where
  "execExistIn db args =
     (case existIn_loop args [] db of (db, result) \<Rightarrow>
        (db, Some (if result = [] then EmptyMultiBulkReply else MultiBulkReply result)))"

definition execDumpKey :: "'f env \<Rightarrow> 'f handler" where
  "execDumpKey E db args =
     (let key = str (args ! 0) in
      case GetEntity db key of
        (db, None) \<Rightarrow> (db, Some EmptyMultiBulkReply)
      | (db, Some entity) \<Rightarrow>
          onValue (EntityToCmd E key entity) db (\<lambda>dumpCmd.
            (db, Some (MultiBulkReply [Some (ToBytes (MultiBulkReply dumpCmd)),
                                       Some (ToBytes (MultiBulkReply (toTTLCmd db key)))]))))"

definition execRenameFrom :: "'f handler" where
  "execRenameFrom db args = (Remove (str (args ! 0)) db, Some OkReply)"

definition execCopyFrom :: "'f handler" where
  "execCopyFrom db args = (db, Some OkReply)"

text \<open>
  The command in a dump, with the key put in its place. A command without arguments is an index
  panic; a parser that dies leaves the command without a reply.
\<close>

fun perr_Error :: "'f env \<Rightarrow> perr \<Rightarrow> string" where
  "perr_Error E EOF = ''EOF''"
| "perr_Error E UnexpectedEOF = ''unexpected EOF''"
| "perr_Error E (ErrMsg s) = s"
| "perr_Error E (NumError s) = numError E s"

definition load_cmd :: "'f env \<Rightarrow> string \<Rightarrow> bytes \<Rightarrow> bytes \<Rightarrow> (reply + cmdline) option" where
  "load_cmd E what key raw = do {
     p \<leftarrow> ParseOne (str raw);
     (case p of
        Err e \<Rightarrow> Some (Inl (StandardErrReply (''illegal '' @ what @ '' cmd: '' @ perr_Error E e)))
      | Data (MultiBulkReply line) \<Rightarrow> do { line \<leftarrow> go_update line 1 key; Some (Inr line) }
      | Data r \<Rightarrow> Some (Inl (StandardErrReply (what @ '' cmd is not multi bulk reply''))))
   }"

text \<open>Running a command whose error reply ends the handler.\<close>

definition onSuccess :: "'f DB \<times> reply option \<Rightarrow> ('f DB \<Rightarrow> 'f DB \<times> reply option) \<Rightarrow> 'f DB \<times> reply option" where
  "onSuccess res k =
     (case res of (db, r) \<Rightarrow>
        onValue (do { r \<leftarrow> r; b \<leftarrow> IsErrorReply r; Some (r, b) }) db (\<lambda>(r, b). if b then (db, Some r) else k db))"

definition execRenameTo :: "'f env \<Rightarrow> 'f table \<Rightarrow> 'f handler" where
  "execRenameTo E cmdTable db args =
     (let key = args ! 0 in
      onValue (load_cmd E ''dump'' key (args ! 1)) db (\<lambda>dump. onLookup (db, dump) (\<lambda>db dumpCmd.
        onValue (load_cmd E ''ttl'' key (args ! 2)) db (\<lambda>ttl. onLookup (db, ttl) (\<lambda>db ttlCmd.
          let db = Remove (str key) db in
          onSuccess (execWithLock cmdTable db dumpCmd) (\<lambda>db.
            onSuccess (execWithLock cmdTable db ttlCmd) (\<lambda>db. (db, Some OkReply))))))))"

definition execRenameNxTo :: "'f env \<Rightarrow> 'f table \<Rightarrow> 'f handler" where
  "execRenameNxTo E cmdTable db args = execRenameTo E cmdTable db args"

definition execCopyTo :: "'f env \<Rightarrow> 'f table \<Rightarrow> 'f handler" where
  "execCopyTo E cmdTable db args =
     (let key = args ! 0 in
      onValue (load_cmd E ''dump'' key (args ! 1)) db (\<lambda>dump. onLookup (db, dump) (\<lambda>db dumpCmd.
        onValue (load_cmd E ''ttl'' key (args ! 2)) db (\<lambda>ttl. onLookup (db, ttl) (\<lambda>db ttlCmd.
          let db = Remove (str key) db in
          onSuccess (execWithLock cmdTable db dumpCmd) (\<lambda>db.
            onSuccess (execWithLock cmdTable db ttlCmd) (\<lambda>db. (db, Some OkReply))))))))"

section \<open>Lemmas\<close>

lemma existIn_loop_within: "within {} db0 db \<Longrightarrow> within {} db0 (fst (existIn_loop args r db))"
proof (induction args arbitrary: r db)
  case (Cons a args)
  have "DB_ok db" "within {} db0 (touch (str a) db)" using Cons.prems by (auto intro: within_ok)
  with Cons.IH show ?case by (auto split: option.split)
qed simp

lemma execExistIn_outcome: "DB_ok db \<Longrightarrow> outcome K db (fst (execExistIn db args))"
  using existIn_loop_within [OF within_refl, of db args "[]"] by (simp add: execExistIn_def outcome_read case_prod_beta)

lemma execDumpKey_outcome: "DB_ok db \<Longrightarrow> outcome K db (fst (execDumpKey E db args))"
  by (auto simp: execDumpKey_def Let_def intro!: outcomes split: option.split)

lemma execCopyFrom_outcome: "DB_ok db \<Longrightarrow> outcome K db (fst (execCopyFrom db args))"
  by (simp add: execCopyFrom_def outcome_refl)

text \<open>\<^verbatim>\<open>RENAMEFROM\<close> removes its key without logging it.\<close>

lemma execRenameFrom_within: "DB_ok db \<Longrightarrow> within {str (args ! 0)} db (fst (execRenameFrom db args))"
  by (simp add: execRenameFrom_def within_Remove within_refl)

end
