(* ===== verification/CmdTable.thy ===== *)
theory CmdTable
  imports StringCmds ListCmds HashCmds SetCmds ZSetCmds ClusterHelper
begin

text \<open>
  The command table of \<^verbatim>\<open>database/router.go\<close>: what the \<^verbatim>\<open>init\<close> functions of the command files register,
  and what holds of every command in it. Go runs the \<^verbatim>\<open>init\<close> functions in the order of the file
  names, and a later registration replaces an earlier one of the same name. The geo commands,
  \<^verbatim>\<open>RANDOMKEY\<close> and the commands that load a dumped key are not in the table.
\<close>

text \<open>\<^verbatim>\<open>MSET\<close> and \<^verbatim>\<open>GETVER\<close> are the rest of \<^verbatim>\<open>string.go\<close> and \<^verbatim>\<open>transaction.go\<close> that the table needs.\<close>

definition undoMSet :: "'f env \<Rightarrow> 'f DB \<Rightarrow> cmdline \<Rightarrow> 'f DB \<times> cmdline list option" where
  "undoMSet E db args = rollbackGivenKeys E db (fst (prepareMSet args))"

definition execGetVersion :: "'f handler" where
  "execGetVersion db args = (db, Some (IntReply (uint (GetVersion db (str (args ! 0))))))"

definition flagSpecial :: int where "flagSpecial = 2"

definition registerCommand :: "string \<Rightarrow> 'f handler \<Rightarrow> (cmdline \<Rightarrow> string list \<times> string list)
    \<Rightarrow> ('f DB \<Rightarrow> cmdline \<Rightarrow> 'f DB \<times> cmdline list option) option \<Rightarrow> int \<Rightarrow> int \<Rightarrow> string \<times> 'f command" where
  "registerCommand name executor prepare rollback arity flags =
     (ToLower name, \<lparr>cmd_executor = executor, cmd_prepare = prepare, cmd_undo = rollback, cmd_arity = arity, cmd_flags = flags\<rparr>)"

text \<open>A special command has no functions: calling its nil function is a panic.\<close>

definition registerSpecialCommand :: "string \<Rightarrow> int \<Rightarrow> int \<Rightarrow> string \<times> 'f command" where
  "registerSpecialCommand name arity flags =
     (ToLower name, \<lparr>cmd_executor = \<lambda>db args. (db, None), cmd_prepare = noPrepare, cmd_undo = None, cmd_arity = arity,
        cmd_flags = flags + flagSpecial\<rparr>)"

definition cluster_helper_init :: "('f :: {linorder, zero}) env \<Rightarrow> (string \<times> 'f command) list" where
  "cluster_helper_init E = [
     registerCommand ''DumpKey'' (execDumpKey E) writeAllKeys (Some (undoDel E)) 2 flagReadOnly,
     registerCommand ''ExistIn'' execExistIn readAllKeys None (- 1) flagReadOnly,
     registerCommand ''RenameFrom'' execRenameFrom readFirstKey None 2 flagWrite,
     registerCommand ''CopyFrom'' execCopyFrom readFirstKey None 2 flagReadOnly]"

definition commandinfo_init :: "('f :: {linorder, zero}) env \<Rightarrow> (string \<times> 'f command) list" where
  "commandinfo_init E = [
     registerSpecialCommand ''Command'' 0 0,
     registerSpecialCommand ''Keys'' 2 0,
     registerSpecialCommand ''Auth'' 2 0,
     registerSpecialCommand ''Info'' (- 1) 0,
     registerSpecialCommand ''SlaveOf'' 3 0,
     registerSpecialCommand ''Subscribe'' (- 2) 0,
     registerSpecialCommand ''Publish'' 3 0,
     registerSpecialCommand ''FlushAll'' (- 1) 0,
     registerSpecialCommand ''FlushDB'' (- 1) 0,
     registerSpecialCommand ''Save'' (- 1) 0,
     registerSpecialCommand ''BgSave'' 1 0,
     registerSpecialCommand ''Select'' 2 0,
     registerSpecialCommand ''ReplConf'' (- 1) 0,
     registerSpecialCommand ''Multi'' 1 0,
     registerSpecialCommand ''Discard'' 1 0,
     registerSpecialCommand ''Exec'' 1 0,
     registerSpecialCommand ''Watch'' 1 0]"

definition hash_init :: "('f :: {linorder, zero}) env \<Rightarrow> (string \<times> 'f command) list" where
  "hash_init E = [
     registerCommand ''HSet'' execHSet writeFirstKey (Some undoHSet) 4 flagWrite,
     registerCommand ''HSetNX'' execHSetNX writeFirstKey (Some undoHSet) 4 flagWrite,
     registerCommand ''HGet'' execHGet readFirstKey None 3 flagReadOnly,
     registerCommand ''HExists'' execHExists readFirstKey None 3 flagReadOnly,
     registerCommand ''HDel'' execHDel writeFirstKey (Some undoHDel) (- 3) flagWrite,
     registerCommand ''HLen'' execHLen readFirstKey None 2 flagReadOnly,
     registerCommand ''HStrlen'' execHStrlen readFirstKey None 3 flagReadOnly,
     registerCommand ''HMSet'' execHMSet writeFirstKey (Some undoHMSet) (- 4) flagWrite,
     registerCommand ''HMGet'' execHMGet readFirstKey None (- 3) flagReadOnly,
     registerCommand ''HGet'' execHGet readFirstKey None (- 3) flagReadOnly,
     registerCommand ''HKeys'' execHKeys readFirstKey None 2 flagReadOnly,
     registerCommand ''HVals'' execHVals readFirstKey None 2 flagReadOnly,
     registerCommand ''HGetAll'' execHGetAll readFirstKey None 2 flagReadOnly,
     registerCommand ''HIncrBy'' execHIncrBy writeFirstKey (Some undoHIncr) 4 flagWrite,
     registerCommand ''HIncrByFloat'' (execHIncrByFloat E) writeFirstKey (Some undoHIncr) 4 flagWrite,
     registerCommand ''HRandField'' execHRandField readFirstKey None (- 2) flagReadOnly,
     registerCommand ''HScan'' (execHScan E) readFirstKey None (- 2) flagReadOnly]"

definition keys_init :: "('f :: {linorder, zero}) env \<Rightarrow> (string \<times> 'f command) list" where
  "keys_init E = [
     registerCommand ''Del'' execDel writeAllKeys (Some (undoDel E)) (- 2) flagWrite,
     registerCommand ''Expire'' execExpire writeFirstKey (Some undoExpire) 3 flagWrite,
     registerCommand ''ExpireAt'' execExpireAt writeFirstKey (Some undoExpire) 3 flagWrite,
     registerCommand ''ExpireTime'' execExpireTime readFirstKey None 2 flagReadOnly,
     registerCommand ''PExpire'' execPExpire writeFirstKey (Some undoExpire) 3 flagWrite,
     registerCommand ''PExpireAt'' execPExpireAt writeFirstKey (Some undoExpire) 3 flagWrite,
     registerCommand ''PExpireTime'' execPExpireTime readFirstKey None 2 flagReadOnly,
     registerCommand ''TTL'' execTTL readFirstKey None 2 flagReadOnly,
     registerCommand ''PTTL'' execPTTL readFirstKey None 2 flagReadOnly,
     registerCommand ''Persist'' execPersist writeFirstKey (Some undoExpire) 2 flagWrite,
     registerCommand ''Exists'' execExists readAllKeys None (- 2) flagReadOnly,
     registerCommand ''Type'' execType readFirstKey None 2 flagReadOnly,
     registerCommand ''Rename'' execRename prepareRename (Some (undoRename E)) 3 flagReadOnly,
     registerCommand ''RenameNx'' execRenameNx prepareRename (Some (undoRename E)) 3 flagReadOnly,
     registerCommand ''Keys'' (execKeys E) noPrepare None 2 flagReadOnly,
     registerCommand ''Scan'' (execScan E) noPrepare None (- 2) flagReadOnly]"

definition list_init :: "('f :: {linorder, zero}) env \<Rightarrow> (string \<times> 'f command) list" where
  "list_init E = [
     registerCommand ''LPush'' execLPush writeFirstKey (Some undoLPush) (- 3) flagWrite,
     registerCommand ''LPushX'' execLPushX writeFirstKey (Some undoLPush) (- 3) flagWrite,
     registerCommand ''RPush'' execRPush writeFirstKey (Some undoRPush) (- 3) flagWrite,
     registerCommand ''RPushX'' execRPushX writeFirstKey (Some undoRPush) (- 3) flagWrite,
     registerCommand ''LPop'' execLPop writeFirstKey (Some undoLPop) (- 2) flagWrite,
     registerCommand ''RPop'' execRPop writeFirstKey (Some undoRPop) (- 2) flagWrite,
     registerCommand ''RPopLPush'' execRPopLPush prepareRPopLPush (Some undoRPopLPush) 3 flagWrite,
     registerCommand ''LRem'' execLRem writeFirstKey (Some (rollbackFirstKey E)) 4 flagWrite,
     registerCommand ''LLen'' execLLen readFirstKey None 2 flagReadOnly,
     registerCommand ''LIndex'' execLIndex readFirstKey None 3 flagReadOnly,
     registerCommand ''LSet'' execLSet writeFirstKey (Some undoLSet) 4 flagWrite,
     registerCommand ''LRange'' execLRange readFirstKey None 4 flagReadOnly,
     registerCommand ''LTrim'' execLTrim writeFirstKey (Some (rollbackFirstKey E)) 4 flagWrite,
     registerCommand ''LInsert'' execLInsert writeFirstKey (Some (rollbackFirstKey E)) 5 flagWrite]"

definition set_init :: "('f :: {linorder, zero}) env \<Rightarrow> (string \<times> 'f command) list" where
  "set_init E = [
     registerCommand ''SAdd'' execSAdd writeFirstKey (Some undoSetChange) (- 3) flagWrite,
     registerCommand ''SIsMember'' execSIsMember readFirstKey None 3 flagReadOnly,
     registerCommand ''SRem'' execSRem writeFirstKey (Some undoSetChange) (- 3) flagWrite,
     registerCommand ''SPop'' execSPop writeFirstKey (Some undoSetChange) (- 2) flagWrite,
     registerCommand ''SCard'' execSCard readFirstKey None 2 flagReadOnly,
     registerCommand ''SMembers'' execSMembers readFirstKey None 2 flagReadOnly,
     registerCommand ''SInter'' execSInter prepareSetCalculate None (- 2) flagReadOnly,
     registerCommand ''SInterStore'' execSInterStore prepareSetCalculateStore (Some (rollbackFirstKey E)) (- 3) flagWrite,
     registerCommand ''SUnion'' execSUnion prepareSetCalculate None (- 2) flagReadOnly,
     registerCommand ''SUnionStore'' execSUnionStore prepareSetCalculateStore (Some (rollbackFirstKey E)) (- 3) flagWrite,
     registerCommand ''SDiff'' execSDiff prepareSetCalculate None (- 2) flagReadOnly,
     registerCommand ''SDiffStore'' execSDiffStore prepareSetCalculateStore (Some (rollbackFirstKey E)) (- 3) flagWrite,
     registerCommand ''SRandMember'' execSRandMember readFirstKey None (- 2) flagReadOnly,
     registerCommand ''SScan'' (execSScan E) readFirstKey None (- 2) flagReadOnly]"

definition sortedset_init :: "('f :: {linorder, zero}) env \<Rightarrow> (string \<times> 'f command) list" where
  "sortedset_init E = [
     registerCommand ''ZAdd'' (execZAdd E) writeFirstKey (Some (undoZAdd E)) (- 4) flagWrite,
     registerCommand ''ZScore'' (execZScore E) readFirstKey None 3 flagReadOnly,
     registerCommand ''ZIncrBy'' (execZIncrBy E) writeFirstKey (Some (undoZIncr E)) 4 flagWrite,
     registerCommand ''ZRank'' execZRank readFirstKey None 3 flagReadOnly,
     registerCommand ''ZCount'' (execZCount E) readFirstKey None 4 flagReadOnly,
     registerCommand ''ZRevRank'' execZRevRank readFirstKey None 3 flagReadOnly,
     registerCommand ''ZCard'' execZCard readFirstKey None 2 flagReadOnly,
     registerCommand ''ZRange'' (execZRange E) readFirstKey None (- 4) flagReadOnly,
     registerCommand ''ZRangeByScore'' (execZRangeByScore E) readFirstKey None (- 4) flagReadOnly,
     registerCommand ''ZRevRange'' (execZRevRange E) readFirstKey None (- 4) flagReadOnly,
     registerCommand ''ZRevRangeByScore'' (execZRevRangeByScore E) readFirstKey None (- 4) flagReadOnly,
     registerCommand ''ZPopMin'' (execZPopMin E) writeFirstKey (Some (rollbackFirstKey E)) (- 2) flagWrite,
     registerCommand ''ZRem'' execZRem writeFirstKey (Some (undoZRem E)) (- 3) flagWrite,
     registerCommand ''ZRemRangeByScore'' (execZRemRangeByScore E) writeFirstKey (Some (rollbackFirstKey E)) 4 flagWrite,
     registerCommand ''ZRemRangeByRank'' execZRemRangeByRank writeFirstKey (Some (rollbackFirstKey E)) 4 flagWrite,
     registerCommand ''ZLexCount'' execZLexCount readFirstKey None 4 flagReadOnly,
     registerCommand ''ZRangeByLex'' execZRangeByLex readFirstKey None (- 4) flagReadOnly,
     registerCommand ''ZRemRangeByLex'' execZRemRangeByLex writeFirstKey (Some (rollbackFirstKey E)) 4 flagWrite,
     registerCommand ''ZRevRangeByLex'' execZRevRangeByLex readFirstKey None (- 4) flagReadOnly,
     registerCommand ''ZScan'' (execZScan E) readFirstKey None (- 2) flagReadOnly]"

definition string_init :: "('f :: {linorder, zero}) env \<Rightarrow> (string \<times> 'f command) list" where
  "string_init E = [
     registerCommand ''Set'' execSet writeFirstKey (Some (rollbackFirstKey E)) (- 3) flagWrite,
     registerCommand ''SetNx'' execSetNX writeFirstKey (Some (rollbackFirstKey E)) 3 flagWrite,
     registerCommand ''SetEX'' execSetEX writeFirstKey (Some (rollbackFirstKey E)) 4 flagWrite,
     registerCommand ''PSetEX'' execPSetEX writeFirstKey (Some (rollbackFirstKey E)) 4 flagWrite,
     registerCommand ''MSet'' execMSet prepareMSet (Some (undoMSet E)) (- 3) flagWrite,
     registerCommand ''MGet'' execMGet prepareMGet None (- 2) flagReadOnly,
     registerCommand ''MSetNX'' execMSetNX prepareMSet (Some (undoMSet E)) (- 3) flagWrite,
     registerCommand ''Get'' execGet readFirstKey None 2 flagReadOnly,
     registerCommand ''GetEX'' execGetEX writeFirstKey (Some (rollbackFirstKey E)) (- 2) flagReadOnly,
     registerCommand ''GetSet'' execGetSet writeFirstKey (Some (rollbackFirstKey E)) 3 flagWrite,
     registerCommand ''GetDel'' execGetDel writeFirstKey (Some (rollbackFirstKey E)) 2 flagWrite,
     registerCommand ''Incr'' execIncr writeFirstKey (Some (rollbackFirstKey E)) 2 flagWrite,
     registerCommand ''IncrBy'' execIncrBy writeFirstKey (Some (rollbackFirstKey E)) 3 flagWrite,
     registerCommand ''IncrByFloat'' (execIncrByFloat E) writeFirstKey (Some (rollbackFirstKey E)) 3 flagWrite,
     registerCommand ''Decr'' execDecr writeFirstKey (Some (rollbackFirstKey E)) 2 flagWrite,
     registerCommand ''DecrBy'' execDecrBy writeFirstKey (Some (rollbackFirstKey E)) 3 flagWrite,
     registerCommand ''StrLen'' execStrLen readFirstKey None 2 flagReadOnly,
     registerCommand ''Append'' execAppend writeFirstKey (Some (rollbackFirstKey E)) 3 flagWrite,
     registerCommand ''SetRange'' (execSetRange E) writeFirstKey (Some (rollbackFirstKey E)) 4 flagWrite,
     registerCommand ''GetRange'' execGetRange readFirstKey None 4 flagReadOnly,
     registerCommand ''SetBit'' execSetBit writeFirstKey (Some (rollbackFirstKey E)) 4 flagWrite,
     registerCommand ''GetBit'' execGetBit readFirstKey None 3 flagReadOnly,
     registerCommand ''BitCount'' execBitCount readFirstKey None (- 2) flagReadOnly,
     registerCommand ''BitPos'' execBitPos readFirstKey None (- 3) flagReadOnly]"

definition transaction_init :: "('f :: {linorder, zero}) env \<Rightarrow> (string \<times> 'f command) list" where
  "transaction_init E = [
     registerCommand ''GetVer'' execGetVersion readAllKeys None 2 flagReadOnly]"

definition registered :: "('f :: {linorder, zero}) env \<Rightarrow> (string \<times> 'f command) list" where
  "registered E = cluster_helper_init E @ commandinfo_init E @ hash_init E @ keys_init E @ list_init E @ set_init E @
     sortedset_init E @ string_init E @ transaction_init E"

definition cmdTable :: "('f :: {linorder, zero}) env \<Rightarrow> 'f table" where
  "cmdTable E = foldl (\<lambda>t (name, cmd). t(name \<mapsto> cmd)) (\<lambda>_. None) (registered E)"

definition GetRelatedKeys :: "'f table \<Rightarrow> cmdline \<Rightarrow> string list \<times> string list" where
  "GetRelatedKeys tab cmdLine =
     (case cmdLine of
        [] \<Rightarrow> ([], [])
      | c # args \<Rightarrow> (case tab (ToLower (str c)) of None \<Rightarrow> ([], []) | Some cmd \<Rightarrow> cmd_prepare cmd args))"

text \<open>
  The commands that change keys they declare as read, and the ones that can change a key without
  passing a line on to the append-only file.
\<close>

definition writes_read_keys :: "string list" where
  "writes_read_keys = [''rename'', ''renamenx'', ''renamefrom'']"

definition silent :: "string list" where
  "silent = [''getex'', ''lrem'', ''hdel'', ''srem'', ''sunionstore'', ''sdiffstore'', ''zremrangebylex'', ''renamefrom'']"

text \<open>\<^verbatim>\<open>RENAME\<close> of a key to itself, which breaks the database.\<close>

definition renames_self :: "cmdline \<Rightarrow> bool" where
  "renames_self cmdLine \<longleftrightarrow> (case cmdLine of [c, a, b] \<Rightarrow> ToLower (str c) = ''rename'' \<and> str a = str b | _ \<Rightarrow> False)"

text \<open>The keys a command may change.\<close>

definition may_change :: "string \<Rightarrow> 'f command \<Rightarrow> cmdline \<Rightarrow> string set" where
  "may_change name cmd args =
     (if cmd_flags cmd mod 2 = 1 \<and> name \<notin> {''getex'', ''rename'', ''renamenx''} then {}
      else set (fst (cmd_prepare cmd args)) \<union> (if name \<in> set writes_read_keys then set (snd (cmd_prepare cmd args)) else {}))"

definition entry_ok :: "string \<times> ('f :: linorder) command \<Rightarrow> bool" where
  "entry_ok e \<longleftrightarrow> (case e of (name, cmd) \<Rightarrow> (name = ''rename'' \<longrightarrow> cmd_arity cmd = 3) \<and> (\<forall>db args. DB_ok db \<longrightarrow> validateArity (cmd_arity cmd) (Some name # args) \<longrightarrow>
     (name = ''rename'' \<longrightarrow> str (args ! 0) \<noteq> str (args ! 1)) \<longrightarrow>
     (if name \<in> set silent then within (may_change name cmd args) db (fst (cmd_executor cmd db args))
      else outcome (may_change name cmd args) db (fst (cmd_executor cmd db args)))))"

section \<open>Lemmas\<close>

lemma lower_names [simp]:
  "ToLower ''DumpKey'' = ''dumpkey''" "ToLower ''ExistIn'' = ''existin''" "ToLower ''RenameFrom'' = ''renamefrom''"
  "ToLower ''CopyFrom'' = ''copyfrom''" "ToLower ''Command'' = ''command''" "ToLower ''Keys'' = ''keys''"
  "ToLower ''Auth'' = ''auth''" "ToLower ''Info'' = ''info''" "ToLower ''SlaveOf'' = ''slaveof''"
  "ToLower ''Subscribe'' = ''subscribe''" "ToLower ''Publish'' = ''publish''" "ToLower ''FlushAll'' = ''flushall''"
  "ToLower ''FlushDB'' = ''flushdb''" "ToLower ''Save'' = ''save''" "ToLower ''BgSave'' = ''bgsave''"
  "ToLower ''Select'' = ''select''" "ToLower ''ReplConf'' = ''replconf''" "ToLower ''Multi'' = ''multi''"
  "ToLower ''Discard'' = ''discard''" "ToLower ''Exec'' = ''exec''" "ToLower ''Watch'' = ''watch''"
  "ToLower ''HSet'' = ''hset''" "ToLower ''HSetNX'' = ''hsetnx''" "ToLower ''HGet'' = ''hget''"
  "ToLower ''HExists'' = ''hexists''" "ToLower ''HDel'' = ''hdel''" "ToLower ''HLen'' = ''hlen''"
  "ToLower ''HStrlen'' = ''hstrlen''" "ToLower ''HMSet'' = ''hmset''" "ToLower ''HMGet'' = ''hmget''"
  "ToLower ''HKeys'' = ''hkeys''" "ToLower ''HVals'' = ''hvals''" "ToLower ''HGetAll'' = ''hgetall''"
  "ToLower ''HIncrBy'' = ''hincrby''" "ToLower ''HIncrByFloat'' = ''hincrbyfloat''"
  "ToLower ''HRandField'' = ''hrandfield''" "ToLower ''HScan'' = ''hscan''" "ToLower ''Del'' = ''del''"
  "ToLower ''Expire'' = ''expire''" "ToLower ''ExpireAt'' = ''expireat''" "ToLower ''ExpireTime'' = ''expiretime''"
  "ToLower ''PExpire'' = ''pexpire''" "ToLower ''PExpireAt'' = ''pexpireat''" "ToLower ''PExpireTime'' = ''pexpiretime''"
  "ToLower ''TTL'' = ''ttl''" "ToLower ''PTTL'' = ''pttl''" "ToLower ''Persist'' = ''persist''"
  "ToLower ''Exists'' = ''exists''" "ToLower ''Type'' = ''type''" "ToLower ''Rename'' = ''rename''"
  "ToLower ''RenameNx'' = ''renamenx''" "ToLower ''Scan'' = ''scan''" "ToLower ''LPush'' = ''lpush''"
  "ToLower ''LPushX'' = ''lpushx''" "ToLower ''RPush'' = ''rpush''" "ToLower ''RPushX'' = ''rpushx''"
  "ToLower ''LPop'' = ''lpop''" "ToLower ''RPop'' = ''rpop''" "ToLower ''RPopLPush'' = ''rpoplpush''"
  "ToLower ''LRem'' = ''lrem''" "ToLower ''LLen'' = ''llen''" "ToLower ''LIndex'' = ''lindex''"
  "ToLower ''LSet'' = ''lset''" "ToLower ''LRange'' = ''lrange''" "ToLower ''LTrim'' = ''ltrim''"
  "ToLower ''LInsert'' = ''linsert''" "ToLower ''SAdd'' = ''sadd''" "ToLower ''SIsMember'' = ''sismember''"
  "ToLower ''SRem'' = ''srem''" "ToLower ''SPop'' = ''spop''" "ToLower ''SCard'' = ''scard''"
  "ToLower ''SMembers'' = ''smembers''" "ToLower ''SInter'' = ''sinter''" "ToLower ''SInterStore'' = ''sinterstore''"
  "ToLower ''SUnion'' = ''sunion''" "ToLower ''SUnionStore'' = ''sunionstore''" "ToLower ''SDiff'' = ''sdiff''"
  "ToLower ''SDiffStore'' = ''sdiffstore''" "ToLower ''SRandMember'' = ''srandmember''" "ToLower ''SScan'' = ''sscan''"
  "ToLower ''ZAdd'' = ''zadd''" "ToLower ''ZScore'' = ''zscore''" "ToLower ''ZIncrBy'' = ''zincrby''"
  "ToLower ''ZRank'' = ''zrank''" "ToLower ''ZCount'' = ''zcount''" "ToLower ''ZRevRank'' = ''zrevrank''"
  "ToLower ''ZCard'' = ''zcard''" "ToLower ''ZRange'' = ''zrange''" "ToLower ''ZRangeByScore'' = ''zrangebyscore''"
  "ToLower ''ZRevRange'' = ''zrevrange''" "ToLower ''ZRevRangeByScore'' = ''zrevrangebyscore''"
  "ToLower ''ZPopMin'' = ''zpopmin''" "ToLower ''ZRem'' = ''zrem''" "ToLower ''ZRemRangeByScore'' = ''zremrangebyscore''"
  "ToLower ''ZRemRangeByRank'' = ''zremrangebyrank''" "ToLower ''ZLexCount'' = ''zlexcount''"
  "ToLower ''ZRangeByLex'' = ''zrangebylex''" "ToLower ''ZRemRangeByLex'' = ''zremrangebylex''"
  "ToLower ''ZRevRangeByLex'' = ''zrevrangebylex''" "ToLower ''ZScan'' = ''zscan''" "ToLower ''Set'' = ''set''"
  "ToLower ''SetNx'' = ''setnx''" "ToLower ''SetEX'' = ''setex''" "ToLower ''PSetEX'' = ''psetex''"
  "ToLower ''MSet'' = ''mset''" "ToLower ''MGet'' = ''mget''" "ToLower ''MSetNX'' = ''msetnx''" "ToLower ''Get'' = ''get''"
  "ToLower ''GetEX'' = ''getex''" "ToLower ''GetSet'' = ''getset''" "ToLower ''GetDel'' = ''getdel''"
  "ToLower ''Incr'' = ''incr''" "ToLower ''IncrBy'' = ''incrby''" "ToLower ''IncrByFloat'' = ''incrbyfloat''"
  "ToLower ''Decr'' = ''decr''" "ToLower ''DecrBy'' = ''decrby''" "ToLower ''StrLen'' = ''strlen''"
  "ToLower ''Append'' = ''append''" "ToLower ''SetRange'' = ''setrange''" "ToLower ''GetRange'' = ''getrange''"
  "ToLower ''SetBit'' = ''setbit''" "ToLower ''GetBit'' = ''getbit''" "ToLower ''BitCount'' = ''bitcount''"
  "ToLower ''BitPos'' = ''bitpos''" "ToLower ''GetVer'' = ''getver''"
  by code_simp+

subsection \<open>Every entry of the table\<close>

lemmas entry_defs = registerCommand_def registerSpecialCommand_def entry_ok_def may_change_def silent_def writes_read_keys_def
  flagReadOnly_def flagWrite_def flagSpecial_def writeFirstKey_def readFirstKey_def writeAllKeys_def readAllKeys_def noPrepare_def
  prepareRename_def prepareMGet_def prepareRPopLPush_def prepareSetCalculate_def prepareSetCalculateStore_def

lemma string_init_ok: "list_all entry_ok (string_init E)"
  by (simp add: string_init_def entry_defs execGet_outcome execSet_outcome execSetNX_outcome execSetEX_outcome execPSetEX_outcome
      execMSet_outcome execMGet_outcome execMSetNX_outcome execGetSet_outcome execGetDel_outcome execIncr_outcome execIncrBy_outcome
      execDecr_outcome execDecrBy_outcome execIncrByFloat_outcome execStrLen_outcome execAppend_outcome execSetRange_outcome
      execGetRange_outcome execSetBit_outcome execGetBit_outcome execBitCount_outcome execBitPos_outcome execGetEX_within)

lemma keys_init_ok: "list_all entry_ok (keys_init E)"
  by (simp add: keys_init_def entry_defs execDel_outcome [simplified] execExpire_outcome execExpireAt_outcome execExpireTime_outcome
      execPExpire_outcome execPExpireAt_outcome execPExpireTime_outcome execTTL_outcome execPTTL_outcome execPersist_outcome
      execExists_outcome execType_outcome execKeys_outcome execScan_outcome execRename_outcome [simplified]
      execRenameNx_outcome [simplified] insert_commute)

lemma list_init_ok: "list_all entry_ok (list_init E)"
  by (simp add: list_init_def entry_defs execLPush_outcome execLPushX_outcome execRPush_outcome execRPushX_outcome execLPop_outcome
      execRPop_outcome execRPopLPush_outcome [simplified] execLRem_within execLLen_outcome execLIndex_outcome execLSet_outcome execLRange_outcome
      execLTrim_outcome execLInsert_outcome)

lemma hash_init_ok: "list_all entry_ok (hash_init E)"
  by (simp add: hash_init_def entry_defs execHSet_outcome execHSetNX_outcome hash_reads_outcome execHDel_within execHMSet_outcome
      execHIncrBy_outcome execHIncrByFloat_outcome execHRandField_outcome execHScan_outcome)

lemma set_init_ok: "list_all entry_ok (set_init E)"
  by (simp add: set_init_def entry_defs execSAdd_outcome execSIsMember_outcome execSRem_within execSPop_outcome execSCard_outcome
      execSMembers_outcome set_reads_outcome execSInterStore_outcome execSUnionStore_within execSDiffStore_within
      execSRandMember_outcome execSScan_outcome)

lemma sortedset_init_ok: "list_all entry_ok (sortedset_init E)"
  by (simp add: sortedset_init_def entry_defs zset_reads_outcome execZAdd_outcome execZIncrBy_outcome execZPopMin_outcome
      execZRem_outcome execZRemRangeByScore_outcome execZRemRangeByRank_outcome execZRemRangeByLex_within execZScan_outcome)

lemma other_init_ok: "list_all entry_ok (cluster_helper_init E)" "list_all entry_ok (commandinfo_init E)" "list_all entry_ok (transaction_init E)"
  by (simp_all add: cluster_helper_init_def commandinfo_init_def transaction_init_def entry_defs execExistIn_outcome execDumpKey_outcome
      execCopyFrom_outcome execRenameFrom_within execGetVersion_def outcome_refl)

lemma foldl_update_in: "foldl (\<lambda>t (n, c). t(n \<mapsto> c)) t xs name = Some cmd \<Longrightarrow> (name, cmd) \<in> set xs \<or> t name = Some cmd"
  by (induction xs arbitrary: t) (fastforce split: if_splits)+

lemma cmdTable_ok: "cmdTable E name = Some cmd \<Longrightarrow> entry_ok (name, cmd)"
  using foldl_update_in [of "\<lambda>_. None" "registered E" name cmd] string_init_ok [of E] keys_init_ok [of E] list_init_ok [of E]
    hash_init_ok [of E] set_init_ok [of E] sortedset_init_ok [of E] other_init_ok [of E]
  by (auto simp: cmdTable_def registered_def list_all_iff)

subsection \<open>Looking up a command\<close>

lemma foldl_update_map_of: "foldl (\<lambda>t (n, c). t(n \<mapsto> c)) t xs = t ++ map_of (rev xs)"
  by (induction xs arbitrary: t) (auto simp: fun_eq_iff map_add_def split: option.split)

lemma cmdTable_map_of: "cmdTable E = map_of (rev (registered E))"
  by (simp add: cmdTable_def foldl_update_map_of)

lemmas lookup_defs = cmdTable_map_of registered_def transaction_init_def string_init_def sortedset_init_def set_init_def
  list_init_def keys_init_def hash_init_def registerCommand_def

text \<open>The commands that restore values, and a few others.\<close>

lemma cmdTable_set: "cmdTable E ''set'' = Some \<lparr>cmd_executor = execSet, cmd_prepare = writeFirstKey,
    cmd_undo = Some (rollbackFirstKey E), cmd_arity = - 3, cmd_flags = flagWrite\<rparr>"
  by (simp add: lookup_defs)

lemma cmdTable_rpush: "cmdTable E ''rpush'' = Some \<lparr>cmd_executor = execRPush, cmd_prepare = writeFirstKey,
    cmd_undo = Some undoRPush, cmd_arity = - 3, cmd_flags = flagWrite\<rparr>"
  by (simp add: lookup_defs)

lemma cmdTable_hmset: "cmdTable E ''hmset'' = Some \<lparr>cmd_executor = execHMSet, cmd_prepare = writeFirstKey,
    cmd_undo = Some undoHMSet, cmd_arity = - 4, cmd_flags = flagWrite\<rparr>"
  by (simp add: lookup_defs)

lemma cmdTable_sadd: "cmdTable E ''sadd'' = Some \<lparr>cmd_executor = execSAdd, cmd_prepare = writeFirstKey,
    cmd_undo = Some undoSetChange, cmd_arity = - 3, cmd_flags = flagWrite\<rparr>"
  by (simp add: lookup_defs)

lemma cmdTable_zadd: "cmdTable E ''zadd'' = Some \<lparr>cmd_executor = execZAdd E, cmd_prepare = writeFirstKey,
    cmd_undo = Some (undoZAdd E), cmd_arity = - 4, cmd_flags = flagWrite\<rparr>"
  by (simp add: lookup_defs)

lemma cmdTable_del: "cmdTable E ''del'' = Some \<lparr>cmd_executor = execDel, cmd_prepare = writeAllKeys,
    cmd_undo = Some (undoDel E), cmd_arity = - 2, cmd_flags = flagWrite\<rparr>"
  by (simp add: lookup_defs)

lemma cmdTable_pexpireat: "cmdTable E ''pexpireat'' = Some \<lparr>cmd_executor = execPExpireAt, cmd_prepare = writeFirstKey,
    cmd_undo = Some undoExpire, cmd_arity = 3, cmd_flags = flagWrite\<rparr>"
  by (simp add: lookup_defs)

lemma cmdTable_persist: "cmdTable E ''persist'' = Some \<lparr>cmd_executor = execPersist, cmd_prepare = writeFirstKey,
    cmd_undo = Some undoExpire, cmd_arity = 2, cmd_flags = flagWrite\<rparr>"
  by (simp add: lookup_defs)

lemma cmdTable_get: "cmdTable E ''get'' = Some \<lparr>cmd_executor = execGet, cmd_prepare = readFirstKey,
    cmd_undo = None, cmd_arity = 2, cmd_flags = flagReadOnly\<rparr>"
  by (simp add: lookup_defs)

subsection \<open>Running a command\<close>

lemma outcome_within: "outcome K db0 db \<Longrightarrow> within K db0 db"
  by (auto simp: outcome_def intro: within_any)

lemma addVersion_sel [simp]:
  "data (addVersion ks db) = data db" "ttlMap (addVersion ks db) = ttlMap db" "clock (addVersion ks db) = clock db"
  "out (addVersion ks db) = out db"
  by (induction ks arbitrary: db) simp_all

lemma addVersion_live [simp]: "live (addVersion ks db) = live db"
  by (rule ext, rule live_cong) simp_all

lemma addVersion_inv: "CD_inv (versionMap db) \<Longrightarrow> CD_inv (versionMap (addVersion ks db))"
  by (induction ks arbitrary: db) simp_all

lemma DB_ok_addVersion [simp]: "DB_ok db \<Longrightarrow> DB_ok (addVersion ks db)"
  using addVersion_inv [of db ks] by (simp add: DB_ok_def del: DB_okD)

text \<open>What a handler of the table does, called with a line that has passed the arity check.\<close>

lemma handler_effect:
  fixes E :: "('f :: {linorder, zero}) env"
  assumes "DB_ok db" and "\<not> renames_self (c # args)" and "cmdTable E (ToLower (str c)) = Some cmd"
    and "validateArity (cmd_arity cmd) (c # args)"
  shows "within (may_change (ToLower (str c)) cmd args) db (fst (cmd_executor cmd db args))"
    and "ToLower (str c) \<notin> set silent \<longrightarrow> outcome (may_change (ToLower (str c)) cmd args) db (fst (cmd_executor cmd db args))"
proof -
  have a: "validateArity (cmd_arity cmd) (Some (ToLower (str c)) # args)" using assms(4) by (simp add: validateArity_def)
  have n: "ToLower (str c) = ''rename'' \<longrightarrow> str (args ! 0) \<noteq> str (args ! 1)"
  proof
    assume r: "ToLower (str c) = ''rename''"
    have "cmd_arity cmd = 3" using cmdTable_ok [OF assms(3)] r by (simp add: entry_ok_def)
    with assms(4) have "length args = 2" by (simp add: validateArity_def)
    with assms(2) r show "str (args ! 0) \<noteq> str (args ! 1)" by (auto simp: renames_self_def numeral_2_eq_2 length_Suc_conv)
  qed
  show "within (may_change (ToLower (str c)) cmd args) db (fst (cmd_executor cmd db args))"
    "ToLower (str c) \<notin> set silent \<longrightarrow> outcome (may_change (ToLower (str c)) cmd args) db (fst (cmd_executor cmd db args))"
    using cmdTable_ok [OF assms(3)] assms(1) a n outcome_within unfolding entry_ok_def prod.case by (meson+)
qed

text \<open>A command either does nothing, or runs its handler after the versions of the keys it writes went up.\<close>

lemma execNormalCommand_cases:
  fixes E :: "('f :: {linorder, zero}) env"
  assumes "DB_ok db" and "\<not> renames_self cmdLine"
  obtains "fst (execNormalCommand (cmdTable E) db cmdLine) = db"
  | name cmd args where "name = ToLower (str (hd cmdLine))" "cmdTable E name = Some cmd"
    "GetRelatedKeys (cmdTable E) cmdLine = cmd_prepare cmd args"
    "within (may_change name cmd args) (addVersion (fst (cmd_prepare cmd args)) db) (fst (execNormalCommand (cmdTable E) db cmdLine))"
    "name \<notin> set silent \<longrightarrow> outcome (may_change name cmd args) (addVersion (fst (cmd_prepare cmd args)) db) (fst (execNormalCommand (cmdTable E) db cmdLine))"
proof (cases "\<exists>c args cmd. cmdLine = c # args \<and> cmdTable E (ToLower (str c)) = Some cmd \<and> validateArity (cmd_arity cmd) cmdLine")
  case True
  then obtain c args cmd where c: "cmdLine = c # args" "cmdTable E (ToLower (str c)) = Some cmd" "validateArity (cmd_arity cmd) (c # args)"
    by auto
  have "execNormalCommand (cmdTable E) db cmdLine = cmd_executor cmd (addVersion (fst (cmd_prepare cmd args)) db) args"
    using c by (simp add: execNormalCommand_def Let_def case_prod_beta)
  with handler_effect [OF DB_ok_addVersion [OF assms(1)] _ c(2,3)] assms(2) c show ?thesis
    using that(2) [of "ToLower (str c)" cmd args] by (simp add: GetRelatedKeys_def)
next
  case False
  then have "fst (execNormalCommand (cmdTable E) db cmdLine) = db" by (auto simp: execNormalCommand_def Let_def split: list.split option.split)
  then show ?thesis by (rule that(1))
qed

text \<open>Within a transaction a command runs without a change of versions.\<close>

lemma execWithLock_cases:
  fixes E :: "('f :: {linorder, zero}) env"
  assumes "DB_ok db" and "\<not> renames_self cmdLine"
  obtains "fst (execWithLock (cmdTable E) db cmdLine) = db"
  | name cmd args where "name = ToLower (str (hd cmdLine))" "cmdTable E name = Some cmd"
    "GetRelatedKeys (cmdTable E) cmdLine = cmd_prepare cmd args"
    "within (may_change name cmd args) db (fst (execWithLock (cmdTable E) db cmdLine))"
proof (cases "\<exists>c args cmd. cmdLine = c # args \<and> cmdTable E (ToLower (str c)) = Some cmd \<and> validateArity (cmd_arity cmd) cmdLine")
  case True
  then obtain c args cmd where c: "cmdLine = c # args" "cmdTable E (ToLower (str c)) = Some cmd" "validateArity (cmd_arity cmd) (c # args)"
    by auto
  then have "execWithLock (cmdTable E) db cmdLine = cmd_executor cmd db args" by (simp add: execWithLock_def Let_def)
  with handler_effect(1) [OF assms(1) _ c(2,3)] assms(2) c show ?thesis
    using that(2) [of "ToLower (str c)" cmd args] by (simp add: GetRelatedKeys_def)
next
  case False
  then have "fst (execWithLock (cmdTable E) db cmdLine) = db" by (auto simp: execWithLock_def Let_def split: list.split option.split)
  then show ?thesis by (rule that(1))
qed

lemma execWithLock_within:
  assumes "DB_ok db" and "\<not> renames_self cmdLine"
  shows "\<exists>K. within K db (fst (execWithLock (cmdTable E) db cmdLine))"
  using assms
proof (rule execWithLock_cases [where E = E])
  assume "fst (execWithLock (cmdTable E) db cmdLine) = db"
  with within_refl [OF assms(1)] show ?thesis by auto
qed blast

subsection \<open>Properties of all commands\<close>





text \<open>
  C16: A command that is registered as read-only changes nothing that a client can see; the commands
  with the wrong flag (\<^verbatim>\<open>GETEX\<close>, \<^verbatim>\<open>RENAME\<close>, \<^verbatim>\<open>RENAMENX\<close>) are left out.
\<close>

theorem readonly_commands_change_nothing:
  assumes "DB_ok db" and "isReadOnlyCommand (cmdTable E) (str (hd cmdLine))"
    and "ToLower (str (hd cmdLine)) \<notin> {''getex'', ''rename'', ''renamenx''}"
  shows "live (fst (execNormalCommand (cmdTable E) db cmdLine)) = live db"
proof -
  have "\<not> renames_self cmdLine" using assms(3) by (auto simp: renames_self_def split: list.split)
  with assms(1) show ?thesis
  proof (rule execNormalCommand_cases [where E = E])
    assume "fst (execNormalCommand (cmdTable E) db cmdLine) = db"
    then show ?thesis by simp
  next
    fix name cmd args
    assume n: "name = ToLower (str (hd cmdLine))" "cmdTable E name = Some cmd"
      and r: "within (may_change name cmd args) (addVersion (fst (cmd_prepare cmd args)) db) (fst (execNormalCommand (cmdTable E) db cmdLine))"
    have "may_change name cmd args = {}" using assms(2,3) n by (simp add: may_change_def isReadOnlyCommand_def)
    with r show ?thesis by (simp add: within_def fun_eq_iff)
  qed
qed

theorem readonly_commands_change_nothing_witness:
  "live (fst (execNormalCommand (cmdTable int_env) (tinyDB 0) [Some ''get'', Some ''a''])) = live (tinyDB 0)"
proof (rule readonly_commands_change_nothing)
  have "ToLower ''get'' = ''get''" by code_simp
  then show "isReadOnlyCommand (cmdTable int_env) (str (hd [Some ''get'', Some ''a'']))"
      "ToLower (str (hd [Some ''get'', Some ''a''])) \<notin> {''getex'', ''rename'', ''renamenx''}"
    by (simp_all add: isReadOnlyCommand_def cmdTable_get flagReadOnly_def)
qed simp



end
