(* ===== verification/Restore.thy ===== *)
theory Restore
  imports CmdTable
begin

text \<open>
  Restoring values by commands: the line that \<^verbatim>\<open>aof.EntityToCmd\<close> writes for a value builds an equal
  value when it is run on a database without the key, and the line for the expiration time brings
  it back to the millisecond. The rollback of transactions, the rewriting of the append-only file
  and the transfer of keys between nodes of a cluster all rest on this.
\<close>

section \<open>Values as clients see them\<close>

datatype 'f content =
    VString string
  | VList "string list"
  | VHash "string \<Rightarrow> string option"
  | VSet "string set"
  | VZSet "string \<Rightarrow> 'f option"

text \<open>Nil and empty byte slices look the same on the wire.\<close>

fun value_of :: "'f entity \<Rightarrow> 'f content" where
  "value_of (EString b) = VString (str b)"
| "value_of (EList l) = VList (map str (QL_abs l))"
| "value_of (EHash d) = VHash (\<lambda>field. map_option str (map_of (sd_m d) field))"
| "value_of (ESet d) = VSet (fst ` set (sd_m d))"
| "value_of (EZSet z) = VZSet (\<lambda>member. map_option Score (map_of (ss_dict z) member))"

text \<open>
  Collections that hold something. The commands that build collections need at least one
  element, so that an emptied collection cannot be restored.
\<close>

fun filled :: "'f entity \<Rightarrow> bool" where
  "filled (EString b) \<longleftrightarrow> True"
| "filled (EList l) \<longleftrightarrow> QL_abs l \<noteq> []"
| "filled (EHash d) \<longleftrightarrow> sd_m d \<noteq> []"
| "filled (ESet d) \<longleftrightarrow> sd_m d \<noteq> []"
| "filled (EZSet z) \<longleftrightarrow> ss_dict z \<noteq> []"

text \<open>What \<^verbatim>\<open>strconv\<close> documents of the shortest format: parsing gives the number back.\<close>

definition floats_parse :: "'f env \<Rightarrow> bool" where
  "floats_parse E \<longleftrightarrow> (\<forall>x. parseFloat E (formatFloat E x) = Some x)"

abbreviation same_words :: "cmdline \<Rightarrow> cmdline \<Rightarrow> bool" where
  "same_words l l' \<equiv> map str l = map str l'"

text \<open>A line that ran without an error, and the client's view after it.\<close>

definition runs_to :: "('f :: {linorder, zero}) env \<Rightarrow> 'f DB \<Rightarrow> cmdline \<Rightarrow> (string \<Rightarrow> ('f entity \<times> int option) option) \<Rightarrow> bool" where
  "runs_to E db line view \<longleftrightarrow> (\<exists>db' r. execWithLock (cmdTable E) db line = (db', Some r) \<and> IsErrorReply r = Some False \<and>
     DB_ok db' \<and> clock db' = clock db \<and> live db' = view)"

text \<open>
  Expiration times are written in whole milliseconds, so that a restored key expires up to a
  millisecond early, or at once when less than that was left.
\<close>

definition whole_ms :: "int \<Rightarrow> int" where
  "whole_ms t = quot t (10 ^ 6) * 10 ^ 6"

fun rounded :: "int \<Rightarrow> ('f entity \<times> int option) option \<Rightarrow> ('f content \<times> int option) option" where
  "rounded now None = None"
| "rounded now (Some (e, None)) = Some (value_of e, None)"
| "rounded now (Some (e, Some t)) = (if now > whole_ms t then None else Some (value_of e, Some (whole_ms t)))"

definition seen :: "'f DB \<Rightarrow> string \<Rightarrow> ('f content \<times> int option) option" where
  "seen db k = map_option (map_prod value_of id) (live db k)"

text \<open>Values that the commands can restore, with an expiration time that \<^verbatim>\<open>UnixNano\<close> can return.\<close>

definition restorable :: "('f entity \<times> int option) option \<Rightarrow> bool" where
  "restorable x \<longleftrightarrow> (case x of None \<Rightarrow> True | Some (e, t) \<Rightarrow> filled e \<and> (case t of None \<Rightarrow> True | Some t \<Rightarrow> int64_range t))"

text \<open>The loop of \<^verbatim>\<open>ExecMulti\<close> over the undo lines of a command: their replies are not looked at.\<close>

fun run_lines :: "'f table \<Rightarrow> 'f DB \<Rightarrow> cmdline list \<Rightarrow> 'f DB \<times> unit option" where
  "run_lines tab db [] = (db, Some ())"
| "run_lines tab db (line # ls) =
     (case execWithLock tab db line of
        (db, None) \<Rightarrow> (db, None)
      | (db, Some reply) \<Rightarrow> run_lines tab db ls)"

text \<open>An instance of the environment that keeps this promise: numbers are written in unary.\<close>

definition unary_env :: "int env" where
  "unary_env = int_env\<lparr>formatFloat := \<lambda>x. (if x < 0 then ''-'' else ''+'') @ replicate (nat \<bar>x\<bar>) CHR ''1'',
     parseFloat := \<lambda>s. Some (if hd s = CHR ''-'' then - int (length s - 1) else int (length s - 1))\<rparr>"

section \<open>Lemmas\<close>

subsection \<open>Running one line\<close>

lemma not_error_simps [simp]: "IsErrorReply OkReply = Some False" "IsErrorReply (IntReply n) = Some False"
  by (simp_all add: IsErrorReply_def)

lemma restore_names [simp]: "ToLower ''SET'' = ''set''" "ToLower ''RPUSH'' = ''rpush''" "ToLower ''SADD'' = ''sadd''"
  "ToLower ''HMSET'' = ''hmset''" "ToLower ''ZADD'' = ''zadd''" "ToLower ''DEL'' = ''del''" "ToLower ''PEXPIREAT'' = ''pexpireat''"
  "ToLower ''PERSIST'' = ''persist''"
  by code_simp+

lemma runs_toI:
  fixes E :: "('f :: {linorder, zero}) env"
  assumes "DB_ok db" and "cmdTable E (ToLower (str c)) = Some cmd" and "validateArity (cmd_arity cmd) (c # args)"
    and "ToLower (str c) \<noteq> ''rename''" and "snd (cmd_executor cmd db args) = Some r" and "IsErrorReply r = Some False"
    and "live (fst (cmd_executor cmd db args)) = view"
  shows "runs_to E db (c # args) view"
proof -
  have w: "within (may_change (ToLower (str c)) cmd args) db (fst (cmd_executor cmd db args))"
    using assms(4) by (intro handler_effect(1) [OF assms(1) _ assms(2,3)]) (auto simp: renames_self_def split: list.split)
  have "execWithLock (cmdTable E) db (c # args) = (fst (cmd_executor cmd db args), Some r)"
    using assms(2,3,5) by (simp add: execWithLock_def Let_def prod_eq_iff)
  then show ?thesis
    unfolding runs_to_def using w assms(6,7) by (intro exI conjI) (auto simp: within_def)
qed

lemma unary_env_parses: "floats_parse unary_env"
  by (simp add: floats_parse_def unary_env_def)

lemma same_words_Cons: "same_words line (a # l) \<longleftrightarrow> (\<exists>a' l'. line = a' # l' \<and> str a' = str a \<and> same_words l' l)"
  by (cases line) auto

subsection \<open>Strings, lists and sets\<close>

lemma restore_string:
  assumes "DB_ok db" and "same_words line (stringToCmd key b)"
  shows "\<exists>b'. str b' = str b \<and> runs_to E db line ((live db)(key \<mapsto> (EString b', None)))"
proof -
  obtain c k v where l: "line = [c, k, v]" "str c = ''SET''" "str k = key" "str v = str b"
    using assms(2) by (auto simp: stringToCmd_def same_words_Cons)
  have o: "set_options [] upsertPolicy unlimitedTTL = Inr (upsertPolicy, unlimitedTTL)" by simp
  show ?thesis
    using execSet_upsert [OF assms(1) o, of k v] l assms(1)
    by (intro exI [of _ v] conjI) (auto simp: cmdTable_set validateArity_def intro!: runs_toI)
qed

lemma restore_list:
  assumes "DB_ok db" and "QL_inv l" and "QL_abs l \<noteq> []" and "live db key = None" and "listToCmd key l = Some line0" and "same_words line line0"
  shows "\<exists>l'. map str (QL_abs l') = map str (QL_abs l) \<and> runs_to E db line ((live db)(key \<mapsto> (EList l', None)))"
proof -
  obtain c k vs where l: "line = c # k # vs" "str c = ''RPUSH''" "str k = key" "map str vs = map str (QL_abs l)"
    using assms(5,6) by (auto simp: listToCmd_eq [OF assms(2)] same_words_Cons)
  have p: "pushes_to db (str k) NewQuickList None" using assms(4) l(3) by (simp add: pushes_to_def)
  have "vs \<noteq> []" using l(4) assms(3) by auto
  then obtain v vs' where "vs = v # vs'" by (cases vs) auto
  then have "runs_to E db line ((live db)(key \<mapsto> (EList (foldl QL_Add NewQuickList vs), None)))"
    using execRPush_live [OF assms(1) p, of vs] l assms(1) by (auto simp: cmdTable_rpush validateArity_def intro!: runs_toI)
  then show ?thesis
    using l(4) QL_Adds_abs [of NewQuickList vs] by (intro exI [of _ "foldl QL_Add NewQuickList vs"]) (simp add: QL_New)
qed

lemma restore_set:
  assumes "DB_ok db" and "sd_m s \<noteq> []" and "live db key = None" and "same_words line (setToCmd key s)"
  shows "\<exists>s'. fst ` set (sd_m s') = fst ` set (sd_m s) \<and> runs_to E db line ((live db)(key \<mapsto> (ESet s', None)))"
proof -
  obtain c k ms where l: "line = c # k # ms" "str c = ''SADD''" "str k = key" "map str ms = map fst (sd_m s)"
    using assms(4) by (auto simp: setToCmd_eq same_words_Cons)
  let ?s = "fst (sadd_loop (map str ms) (Set_Make []) 0)"
  have "ms \<noteq> []" using l(4) assms(2) by auto
  then obtain m ms' where m: "ms = m # ms'" by (cases ms) auto
  have "snd (execSAdd db (k # ms)) = Some (IntReply (snd (sadd_loop (map str ms) (Set_Make []) 0)))"
    using assms(1,3) l(3) by (simp add: execSAdd_def onLookup_def getOrInitSet_def lookups case_prod_beta)
  then have "runs_to E db line ((live db)(key \<mapsto> (ESet ?s, None)))"
    using execSAdd_live(2) [OF assms(1), of k "Set_Make []" None ms] l assms(1,3) m
    by (auto simp: cmdTable_sadd validateArity_def simp del: sadd_loop.simps intro!: runs_toI)
  moreover have "fst ` set (sd_m ?s) = fst ` set (sd_m s)"
    using sadd_loop_elems [of "map str ms" "Set_Make []" 0] l(4) arg_cong [OF l(4), of set] by (simp add: Set_Make_def MakeSimple_def elems_def)
  ultimately show ?thesis by blast
qed

subsection \<open>Hashes\<close>

lemma pairs_concat: "pairs (concat (map (\<lambda>x. [f x, g x]) xs)) = map (\<lambda>x. (f x, g x)) xs"
  by (induction xs) auto

lemma pairs_map: "pairs (map f xs) = map (\<lambda>(a, b). (f a, f b)) (pairs xs)"
  by (induction xs rule: pairs.induct) auto

lemma length_concat_pairs [simp]: "length (concat (map (\<lambda>x. [f x, g x]) xs)) = 2 * length xs"
  by (induction xs) auto

lemma hput_all_content:
  "(\<lambda>field. map_option str (map_of (sd_m (hput_all d fvs)) field))
   = (\<lambda>field. map_option str (map_of (sd_m d) field)) ++ map_of (rev (map (\<lambda>(f, v). (str f, str v)) fvs))"
proof (induction fvs arbitrary: d)
  case (Cons fv fvs)
  obtain f v where fv: "fv = (f, v)" by force
  have "(\<lambda>field. map_option str (map_of (sd_m (fst (SD_Put d (str f) v))) field))
      = (\<lambda>field. map_option str (map_of (sd_m d) field))(str f \<mapsto> str v)"
    by (auto simp: SD_Put_def Let_def)
  with Cons.IH [of "fst (SD_Put d (str f) v)"] show ?case
    by (simp add: fv hput_all_def)
qed (simp add: hput_all_def)

lemma map_of_rev_distinct: "distinct (map fst xs) \<Longrightarrow> map_of (rev xs) = map_of xs"
  by (rule map_of_inject_set [THEN iffD2]) (auto simp: rev_map [symmetric])

lemma restore_hash:
  assumes "DB_ok db" and "SD_inv h" and "sd_m h \<noteq> []" and "live db key = None" and "same_words line (hashToCmd key h)"
  shows "\<exists>h'. (\<lambda>field. map_option str (map_of (sd_m h') field)) = (\<lambda>field. map_option str (map_of (sd_m h) field)) \<and>
    runs_to E db line ((live db)(key \<mapsto> (EHash h', None)))"
proof -
  obtain c k args where l: "line = c # k # args" "str c = ''HMSET''" "str k = key"
    "map str args = concat (map (\<lambda>x. [fst x, str (snd x)]) (sd_m h))"
    using assms(5) by (auto simp: hashToCmd_eq same_words_Cons map_concat comp_def case_prod_beta)
  let ?h = "hput_all MakeSimple (pairs args)"
  have len: "length args = 2 * length (sd_m h)" using arg_cong [OF l(4), of length] by simp
  have e: "execHMSet db (k # args) = (addAof (ToCmdLine3 ''hmset'' (k # args)) (store key (EHash ?h)
      (fst (PutEntity key (EHash MakeSimple) (touch key db)))), Some OkReply)"
    using assms(1,4) l(3) len by (simp add: execHMSet_def onLookup_def getOrInitDict_def lookups mod_Suc)
  have "runs_to E db line ((live db)(key \<mapsto> (EHash ?h, None)))"
    using assms(1,3,4) l(1-3) len live_put_touch [OF assms(1), of key "EHash MakeSimple"]
      live_store [of "fst (PutEntity key (EHash MakeSimple) (touch key db))" key "EHash MakeSimple" None "EHash ?h"]
    by (auto simp: cmdTable_hmset validateArity_def e DB_ok_PutEntity Suc_le_eq intro!: runs_toI)
  moreover have "map_of (rev (map (\<lambda>(f, v). (str f, str v)) (pairs args))) = (\<lambda>field. map_option str (map_of (sd_m h) field))"
  proof -
    have "map (\<lambda>(f, v). (str f, str v)) (pairs args) = map (\<lambda>x. (fst x, str (snd x))) (sd_m h)"
      using pairs_map [of str args] l(4) by (simp add: pairs_concat)
    moreover have "map_of (rev (map (\<lambda>x. (fst x, str (snd x))) (sd_m h))) = map_of (map (\<lambda>x. (fst x, str (snd x))) (sd_m h))"
      using assms(2) by (intro map_of_rev_distinct) (simp add: SD_inv_def map_ok_def comp_def)
    ultimately show ?thesis by (auto simp: map_of_map [unfolded case_prod_beta'] case_prod_beta)
  qed
  ultimately show ?thesis
    using hput_all_content [of MakeSimple "pairs args"] by (intro exI [of _ ?h]) (simp add: MakeSimple_def map_add_def)
qed

subsection \<open>Sorted sets\<close>

lemma zadd_elements_words:
  assumes "floats_parse E" and "map str args = concat (map (\<lambda>e. [formatFloat E (Score e), Member e]) es)"
  shows "zadd_elements E args = Some es"
  using assms(2)
proof (induction es arbitrary: args)
  case (Cons e es)
  obtain a b rest where "args = a # b # rest" "str a = formatFloat E (Score e)" "str b = Member e"
    "map str rest = concat (map (\<lambda>e. [formatFloat E (Score e), Member e]) es)"
    using Cons.prems by (auto simp: map_eq_Cons_conv)
  with Cons.IH [of rest] assms(1) show ?case by (simp add: floats_parse_def)
qed simp

lemma execZAdd_reply:
  fixes E :: "('f :: {linorder, zero}) env"
  assumes "DB_ok db" and "zadd_elements E args = Some els" and "even (length args)" and "live db (str k) = None"
  shows "\<exists>n. snd (execZAdd E db (k # args)) = Some (IntReply n)"
proof -
  let ?db = "fst (PutEntity (str k) (EZSet SS_Make) (touch (str k) db))"
  obtain z n where "zadd_loop els SS_Make 0 ?db = (?db\<lparr>drawn := drawn ?db + length els\<rparr>, Some (z, n))"
    using zadd_loop_rep [OF SS_Make_rep, of els 0 ?db] by blast
  then show ?thesis
    using assms by (simp add: execZAdd_def Let_def onLookup_def onValue_def getOrInitSortedSet_def lookups
        even_iff_mod_2_eq_zero mod_Suc)
qed

lemma scores_of_rep:
  assumes "SS_rep z es"
  shows "(\<lambda>m. map_option Score (map_of (ss_dict z) m)) = map_of (map (\<lambda>e. (Member e, Score e)) es)"
proof (rule ext)
  fix m
  show "map_option Score (map_of (ss_dict z) m) = map_of (map (\<lambda>e. (Member e, Score e)) es) m"
  proof (cases "map_of (ss_dict z) m")
    case None
    then have "m \<notin> fst ` set (map (\<lambda>e. (Member e, Score e)) es)" using SS_rep_dict_None [OF assms, of m] by (simp add: image_image)
    then have "map_of (map (\<lambda>e. (Member e, Score e)) es) m = None" by (simp only: map_of_eq_None_iff) simp
    with None show ?thesis by simp
  next
    case (Some e)
    have "distinct (map fst (map (\<lambda>e. (Member e, Score e)) es))" using SS_rep_members [OF assms] by (simp add: comp_def)
    with Some show ?thesis using SS_rep_dict [OF assms, of m e] by (auto simp: eq_commute [of "Some _"] map_of_eq_Some_iff)
  qed
qed

lemma restore_zset:
  fixes E :: "('f :: {linorder, zero}) env"
  assumes "DB_ok db" and z: "SS_rep z es" and "es \<noteq> []" and "live db key = None" and "floats_parse E"
    and "zSetToCmd E key z = Some line0" and "same_words line line0"
  shows "\<exists>z'. SS_rep z' es \<and> runs_to E db line ((live db)(key \<mapsto> (EZSet z', None)))"
proof -
  obtain c k args where l: "line = c # k # args" "str c = ''ZADD''" "str k = key"
    "map str args = concat (map (\<lambda>e. [formatFloat E (Score e), Member e]) (rev es))"
    using assms(6,7) by (auto simp: zSetToCmd_eq [OF z assms(3)] same_words_Cons map_concat comp_def)
  have len: "length args = 2 * length es" using arg_cong [OF l(4), of length] by simp
  note els = zadd_elements_words [OF assms(5) l(4)]
  obtain z' where z': "SS_rep z' (add_elements [] (rev es))" "live (fst (execZAdd E db (k # args))) = (live db)(str k \<mapsto> (EZSet z', None))"
    using execZAdd_live [OF assms(1) els, of k "[]" None] assms(4) l(3) len by auto
  obtain n where n: "snd (execZAdd E db (k # args)) = Some (IntReply n)"
    using execZAdd_reply [OF assms(1) els] assms(4) l(3) len by auto
  have "e \<in> set (add_elements [] (rev es)) \<longleftrightarrow> e \<in> set es" for e
  proof -
    have "e \<in> set (add_elements [] (rev es)) \<longleftrightarrow> map_of (map (\<lambda>x. (Member x, Score x)) es) (Member e) = Some (Score e)"
      unfolding add_elements_set rev_rev_ident by (auto split: option.split)
    also have "\<dots> \<longleftrightarrow> (\<exists>x. map_of (ss_dict z) (Member e) = Some x \<and> Score x = Score e)"
      unfolding scores_of_rep [OF z, symmetric] by auto
    also have "\<dots> \<longleftrightarrow> e \<in> set es"
      unfolding SS_rep_dict [OF z] by (metis Element.surjective old.unit.exhaust)
    finally show ?thesis .
  qed
  then have "add_elements [] (rev es) = es"
    using SS_rep_sorted [OF z'(1)] SS_rep_sorted [OF z] by (intro sorted_elt_unique) auto
  moreover have "runs_to E db line ((live db)(key \<mapsto> (EZSet z', None)))"
    using assms(1,3) l(1-3) len z'(2) n by (auto simp: cmdTable_zadd validateArity_def Suc_le_eq intro!: runs_toI)
  ultimately show ?thesis using z'(1) by auto
qed

subsection \<open>Values of every kind\<close>

lemma runs_to_entity_ok: "runs_to E db line view \<Longrightarrow> view key = Some (e, t) \<Longrightarrow> entity_ok e"
  unfolding runs_to_def by (auto intro: live_entity_ok)

lemma EntityToCmd_restores:
  fixes E :: "('f :: {linorder, zero}) env"
  assumes "DB_ok db" and "entity_ok e" and "filled e" and "floats_parse E" and "live db key = None"
    and "EntityToCmd E key e = Some line0" and "same_words line line0"
  shows "\<exists>e'. value_of e' = value_of e \<and> runs_to E db line ((live db)(key \<mapsto> (e', None)))"
proof (cases e)
  case (EString b)
  then obtain b' where "str b' = str b" "runs_to E db line ((live db)(key \<mapsto> (EString b', None)))"
    using restore_string [OF assms(1), of line key b E] assms(6,7) by auto
  then show ?thesis using EString by (intro exI [of _ "EString b'"]) simp
next
  case (EList l)
  then obtain l' where "map str (QL_abs l') = map str (QL_abs l)" "runs_to E db line ((live db)(key \<mapsto> (EList l', None)))"
    using restore_list [OF assms(1), of l key line0 line E] assms(2,3,5-7) by auto
  then show ?thesis using EList by (intro exI [of _ "EList l'"]) simp
next
  case (EHash h)
  then obtain h' where "(\<lambda>field. map_option str (map_of (sd_m h') field)) = (\<lambda>field. map_option str (map_of (sd_m h) field))"
    "runs_to E db line ((live db)(key \<mapsto> (EHash h', None)))"
    using restore_hash [OF assms(1), of h key line E] assms(2,3,5-7) by auto
  then show ?thesis using EHash by (intro exI [of _ "EHash h'"]) simp
next
  case (ESet s)
  then obtain s' where "fst ` set (sd_m s') = fst ` set (sd_m s)" "runs_to E db line ((live db)(key \<mapsto> (ESet s', None)))"
    using restore_set [OF assms(1), of s key line E] assms(3,5-7) by auto
  then show ?thesis using ESet by (intro exI [of _ "ESet s'"]) simp
next
  case (EZSet z)
  then obtain es where z: "SS_rep z es" using assms(2) by auto
  have "es \<noteq> []" using assms(3) EZSet SS_rep_length [OF z] by auto
  with EZSet obtain z' where "SS_rep z' es" "runs_to E db line ((live db)(key \<mapsto> (EZSet z', None)))"
    using restore_zset [OF assms(1) z, of key E line0 line] assms(4-7) by auto
  then show ?thesis using EZSet scores_of_rep [OF z] scores_of_rep [of z' es] by (intro exI [of _ "EZSet z'"]) simp
qed

subsection \<open>Expiration times and removal\<close>

lemma quot_ms: "quot (quot t 1000) 1000 = quot t (10 ^ 6)"
  by (simp add: quot_def zdiv_zmult2_eq [symmetric] sgn_if abs_if div_int_pos_iff pos_imp_zdiv_neg_iff)

lemma whole_ms_bounds:
  assumes "int64_range t"
  shows "int64_range (quot t (10 ^ 6))" "wrap64 (quot t (10 ^ 6) * 10 ^ 6) = whole_ms t"
proof -
  define q where "q = \<bar>t\<bar> div 10 ^ 6"
  have "0 \<le> q" "q * 10 ^ 6 \<le> \<bar>t\<bar>" unfolding q_def by (simp_all add: minus_mod_eq_div_mult [symmetric] pos_imp_zdiv_nonneg_iff)
  moreover have "quot t (10 ^ 6) = sgn t * q" by (simp add: quot_def q_def)
  ultimately have "int64_range (quot t (10 ^ 6)) \<and> int64_range (quot t (10 ^ 6) * 10 ^ 6)"
    using assms by (auto simp: int64_range_def sgn_if abs_if split: if_splits)
  then show "int64_range (quot t (10 ^ 6))" "wrap64 (quot t (10 ^ 6) * 10 ^ 6) = whole_ms t"
    by (simp_all add: whole_ms_def)
qed

lemma live_Removes:
  assumes "DB_ok db"
  shows "live (fst (Removes [key] db)) = (live db)(key := None)"
  using assms by (auto simp: live_Remove fun_eq_iff live_def split: option.split)

lemma runs_DEL:
  assumes "DB_ok db" and "same_words line (ToCmdLine [''DEL'', key])"
  shows "runs_to E db line ((live db)(key := None))"
proof -
  obtain c k where l: "line = [c, k]" "str c = ''DEL''" "str k = key"
    using assms(2) by (auto simp: ToCmdLine_def same_words_Cons)
  show ?thesis
    using l live_Removes [OF assms(1), of key] assms(1)
    by (auto simp: cmdTable_del validateArity_def execDel_def case_prod_beta simp del: Removes.simps intro!: runs_toI)
qed

lemma runs_PERSIST:
  assumes "DB_ok db" and "same_words line (ToCmdLine [''PERSIST'', key])" and "live db key = Some (e, t)"
  shows "runs_to E db line ((live db)(key \<mapsto> (e, None)))"
proof -
  obtain c k where l: "line = [c, k]" "str c = ''PERSIST''" "str k = key"
    using assms(2) by (auto simp: ToCmdLine_def same_words_Cons)
  have "CD_Get (data db) key = Some e" "CD_Get (ttlMap db) key = t" using assms(3) by (auto simp: live_Some)
  then show ?thesis
    using l assms(1,3) live_Persist [of "touch key db" key]
    by (cases t) (auto simp: cmdTable_persist validateArity_def execPersist_def Let_def data_touch ttl_touch intro!: runs_toI)
qed

lemma runs_PEXPIREAT:
  assumes "DB_ok db" and "same_words line (ToCmdLine [''PEXPIREAT'', key, FormatInt (quot t (10 ^ 6))])" and "live db key = Some (e, t0)"
    and "int64_range t"
  shows "runs_to E db line ((live db)(key := (if clock db > whole_ms t then None else Some (e, Some (whole_ms t)))))"
proof -
  obtain c k n where l: "line = [c, k, n]" "str c = ''PEXPIREAT''" "str k = key" "str n = FormatInt (quot t (10 ^ 6))"
    using assms(2) by (auto simp: ToCmdLine_def same_words_Cons)
  have "execPExpireAt db [k, n] = (addAof (MakeExpireCmd key (whole_ms t)) (Expire key (whole_ms t) (touch key db)), Some (IntReply 1))"
    using assms(1,3) l(3,4) whole_ms_bounds [OF assms(4)]
    by (simp add: execPExpireAt_def onInt_def expire_at_def)
  moreover have "live (Expire key (whole_ms t) (touch key db)) =
      (live db)(key := (if clock db > whole_ms t then None else Some (e, Some (whole_ms t))))"
    using live_Expire [of "touch key db" key "whole_ms t"] assms(1,3) by (simp add: data_touch)
  ultimately show ?thesis
    using l assms(1) by (auto simp: cmdTable_pexpireat validateArity_def intro!: runs_toI)
qed

text \<open>The lines that restore one key.\<close>

lemma run_lines_step:
  assumes "runs_to E db line view"
  obtains db' where "DB_ok db'" "clock db' = clock db" "live db' = view"
    "\<And>ls. run_lines (cmdTable E) db (line # ls) = run_lines (cmdTable E) db' ls"
  using assms unfolding runs_to_def by auto

lemma runs_toTTLCmd:
  assumes "DB_ok db'" and "live db' key = Some (e, None)" and "CD_Get (ttlMap db) key = t" and "restorable (Some (e0, t))"
    and "value_of e = value_of e0"
  shows "\<exists>x. map_option (map_prod value_of id) x = rounded (clock db') (Some (e0, t)) \<and>
    runs_to E db' (toTTLCmd db key) ((live db')(key := x))"
proof (cases t)
  case None
  with runs_PERSIST [OF assms(1) refl assms(2), where E = E] assms(3,5) show ?thesis
    by (intro exI [of _ "Some (e, None)"]) (simp add: toTTLCmd_def)
next
  case (Some t')
  with assms(4) have r: "int64_range t'" by (simp add: restorable_def)
  show ?thesis
    using runs_PEXPIREAT [OF assms(1) refl assms(2) r, where E = E] Some assms(3,5) r
    by (intro exI [of _ "if clock db' > whole_ms t' then None else Some (e, Some (whole_ms t'))"])
      (simp add: toTTLCmd_def quot_ms UnixNano_def)
qed

subsection \<open>Rolling back keys\<close>

text \<open>The lines of a rollback change only their key, whatever they find there.\<close>

lemma key_line_within:
  fixes E :: "('f :: {linorder, zero}) env"
  assumes "DB_ok db" and "line = c # Some key # args"
    and "ToLower (str c) \<in> {''set'', ''rpush'', ''hmset'', ''sadd'', ''zadd'', ''pexpireat'', ''persist''}"
  shows "within {key} db (fst (execWithLock (cmdTable E) db line))"
proof -
  have "\<not> renames_self line" using assms(2,3) by (auto simp: renames_self_def split: list.split)
  with assms(1) show ?thesis
  proof (rule execWithLock_cases [where E = E])
    assume "fst (execWithLock (cmdTable E) db line) = db"
    with assms(1) show ?thesis by (simp add: within_refl)
  next
    fix name cmd args'
    assume n: "name = ToLower (str (hd line))" "cmdTable E name = Some cmd" "GetRelatedKeys (cmdTable E) line = cmd_prepare cmd args'"
      and w: "within (may_change name cmd args') db (fst (execWithLock (cmdTable E) db line))"
    have "cmd_prepare cmd = writeFirstKey" using assms(2,3) n(1,2)
      by (auto simp: cmdTable_set cmdTable_rpush cmdTable_hmset cmdTable_sadd cmdTable_zadd cmdTable_pexpireat cmdTable_persist)
    then have "may_change name cmd args' \<subseteq> {key}"
      using n assms(2,3) by (auto simp: may_change_def GetRelatedKeys_def writeFirstKey_def writes_read_keys_def)
    with w show ?thesis by (auto simp: within_def)
  qed
qed

lemma EntityToCmd_key: "EntityToCmd E key e = Some line \<Longrightarrow> entity_ok e \<Longrightarrow>
    \<exists>c args. line = Some c # Some key # args \<and> c \<in> {''SET'', ''RPUSH'', ''HMSET'', ''SADD'', ''ZADD''}"
proof (cases e)
  case (EZSet z)
  assume *: "EntityToCmd E key e = Some line" "entity_ok e"
  with EZSet obtain es where z: "SS_rep z es" by auto
  have "es \<noteq> []" using * EZSet SS_rep_length [OF z] by (auto simp: zSetToCmd_def SS_ForEachByRank_def SS_Len_def Let_def)
  with * EZSet show ?thesis by (auto simp: zSetToCmd_eq [OF z])
qed (auto simp: stringToCmd_def listToCmd_eq hashToCmd_eq setToCmd_eq)

lemma run_lines_Cons:
  "run_lines tab db (line # ls) = (db', Some ()) \<Longrightarrow> run_lines tab (fst (execWithLock tab db line)) ls = (db', Some ())"
  by (simp split: prod.splits option.splits)

lemma restore_key:
  fixes E :: "('f :: {linorder, zero}) env"
  assumes ok: "DB_ok db" "DB_ok db'" and l: "live db key = Some (e, t)" and cmd: "EntityToCmd E key e = Some cmd" and "floats_parse E"
    and r: "run_lines (cmdTable E) db' (ToCmdLine [''DEL'', key] # cmd # toTTLCmd db key # ls) = (db'', Some ())"
  shows "\<exists>db1. run_lines (cmdTable E) db1 ls = (db'', Some ()) \<and> within {key} db' db1 \<and>
    (restorable (live db key) \<longrightarrow> seen db1 key = rounded (clock db') (live db key))"
proof -
  have eo: "entity_ok e" using live_entity_ok [OF ok(1) l] .
  let ?T = "cmdTable E" and ?del = "ToCmdLine [''DEL'', key]" and ?ttl = "toTTLCmd db key"
  let ?db1 = "fst (execWithLock ?T db' ?del)"
  let ?db2 = "fst (execWithLock ?T ?db1 cmd)"
  let ?db3 = "fst (execWithLock ?T ?db2 ?ttl)"
  have d: "DB_ok ?db1" "clock ?db1 = clock db'" "live ?db1 = (live db')(key := None)"
    using runs_DEL [OF ok(2) refl, where key = key and E = E] by (auto simp: runs_to_def)
  have t: "CD_Get (ttlMap db) key = t" using l by (simp add: live_Some)
  obtain c args where c: "cmd = Some c # Some key # args" "c \<in> {''SET'', ''RPUSH'', ''HMSET'', ''SADD'', ''ZADD''}"
    using EntityToCmd_key [OF cmd eo] by auto
  have w1: "within {key} db' ?db1"
  proof -
    have "\<not> renames_self ?del" by (simp add: renames_self_def ToCmdLine_def)
    with ok(2) obtain K where "within K db' ?db1" using execWithLock_within by blast
    with d show ?thesis by (auto simp: within_def)
  qed
  have w2: "within {key} ?db1 ?db2" using key_line_within [OF d(1) c(1), of E] c(2) by auto
  have w3: "within {key} ?db2 ?db3"
    using key_line_within [OF within_ok [OF w2], of ?ttl _ key _ E] by (auto simp: toTTLCmd_def ToCmdLine_def split: option.split)
  have "run_lines ?T ?db3 ls = (db'', Some ())" using run_lines_Cons [OF run_lines_Cons [OF run_lines_Cons [OF r]]] .
  moreover have "within {key} db' ?db3" using within_trans [OF within_trans [OF w1 w2] w3] by simp
  moreover have "seen ?db3 key = rounded (clock db') (live db key)" if re: "restorable (live db key)"
  proof -
    have fe: "filled e" using re l by (simp add: restorable_def)
    obtain e' where e': "value_of e' = value_of e" "live ?db2 = (live ?db1)(key \<mapsto> (e', None))" "clock ?db2 = clock ?db1"
      using EntityToCmd_restores [OF d(1) eo fe assms(5) _ cmd refl] d(3) by (auto simp: runs_to_def)
    show ?thesis
      using runs_toTTLCmd [OF within_ok [OF w2] _ t, of e' e E] e' d(2) re l by (auto simp: runs_to_def seen_def)
  qed
  ultimately show ?thesis by blast
qed

lemma restore_missing:
  fixes E :: "('f :: {linorder, zero}) env"
  assumes "DB_ok db'" and "run_lines (cmdTable E) db' (ToCmdLine [''DEL'', key] # ls) = (db'', Some ())"
  shows "\<exists>db1. run_lines (cmdTable E) db1 ls = (db'', Some ()) \<and> within {key} db' db1 \<and> seen db1 key = None"
proof -
  let ?db1 = "fst (execWithLock (cmdTable E) db' (ToCmdLine [''DEL'', key]))"
  have d: "live ?db1 = (live db')(key := None)"
    using runs_DEL [OF assms(1) refl, where key = key and E = E] by (auto simp: runs_to_def)
  have "\<not> renames_self (ToCmdLine [''DEL'', key])" by (simp add: renames_self_def ToCmdLine_def)
  with assms(1) obtain K where "within K db' ?db1" using execWithLock_within by blast
  with d have "within {key} db' ?db1" by (auto simp: within_def)
  with d show ?thesis using run_lines_Cons [OF assms(2)] by (auto simp: seen_def)
qed

lemma rollbackGivenKeys_restores:
  fixes E :: "('f :: {linorder, zero}) env"
  assumes "DB_ok db" and "DB_ok db'" and "floats_parse E" and "rollbackGivenKeys E db keys = (db0, Some ls)"
    and "run_lines (cmdTable E) db' ls = (db'', Some ())"
  shows "within (set keys) db' db'' \<and>
    (\<forall>k \<in> set keys. restorable (live db k) \<longrightarrow> seen db'' k = rounded (clock db') (live db k))"
  using assms(1,2,4,5)
proof (induction keys arbitrary: db db' ls)
  case (Cons key keys)
  note ok = Cons.prems(1,2)
  obtain ls' db1 where ls': "rollbackGivenKeys E (touch key db) keys = (db0, Some ls')"
    "run_lines (cmdTable E) db1 ls' = (db'', Some ())" "within {key} db' db1"
    "restorable (live db key) \<longrightarrow> seen db1 key = rounded (clock db') (live db key)"
  proof (cases "live db key")
    case None
    then obtain ls' where "rollbackGivenKeys E (touch key db) keys = (db0, Some ls')" "ls = ToCmdLine [''DEL'', key] # ls'"
      using Cons.prems(1,3) by (auto split: prod.splits)
    with restore_missing [OF ok(2), of E key ls' db''] Cons.prems(4) None that show ?thesis by auto
  next
    case (Some p)
    then obtain e t where l: "live db key = Some (e, t)" by (cases p) auto
    obtain ls' cmd where c: "rollbackGivenKeys E (touch key db) keys = (db0, Some ls')" "EntityToCmd E key e = Some cmd"
      "ls = ToCmdLine [''DEL'', key] # cmd # toTTLCmd (touch key db) key # ls'"
      using Cons.prems(1,3) l by (auto simp: Let_def split: prod.splits option.splits)
    have lt: "live (touch key db) key = Some (e, t)" using l ok(1) by simp
    have "DB_ok (touch key db)" using ok(1) by simp
    from restore_key [OF this ok(2) lt c(2) assms(3) Cons.prems(4) [unfolded c(3)], unfolded lt] l c(1) that show ?thesis by auto
  qed
  have ok1: "DB_ok (touch key db)" "DB_ok db1" "live (touch key db) = live db" using ok within_ok [OF ls'(3)] by auto
  have c1: "clock db1 = clock db'" using ls'(3) by (simp add: within_def)
  from Cons.IH [OF ok1(1,2) ls'(1,2)] have IH: "within (set keys) db1 db''"
    "\<forall>k \<in> set keys. restorable (live db k) \<longrightarrow> seen db'' k = rounded (clock db') (live db k)" by (simp_all add: ok1(3) c1)
  have "within (set (key # keys)) db' db''"
    by (rule within_trans [OF within_mono [OF ls'(3)] within_mono [OF IH(1)]]) auto
  moreover have "seen db'' key = seen db1 key" if "key \<notin> set keys" using that IH(1) by (simp add: within_def seen_def)
  ultimately show ?case using IH(2) ls'(4) by auto
qed (simp add: within_refl)

lemma rollbackGivenKeys_touches: "DB_ok db \<Longrightarrow> within {} db (fst (rollbackGivenKeys E db keys))"
proof (induction keys arbitrary: db)
  case (Cons key keys)
  have t: "within {} db (touch key db)" using Cons.prems by (intro within_touch within_refl)
  from Cons.IH [OF within_ok [OF this]] within_trans [OF t] t show ?case
    using Cons.prems by (auto simp: Let_def case_prod_beta split: option.split)
qed (simp add: within_refl)

end
