(* ===== verification/Connection.thy ===== *)
theory Connection
  imports Protocol "HOL-Library.Word"
begin

text \<open>
  \<^verbatim>\<open>redis/connection/conn.go\<close>: the state the server keeps for a client, and what of it survives when
  the connection is closed and its record is taken from the pool for another client.
\<close>

unbundle bit_operations_syntax

definition flagSlave :: "64 word" where "flagSlave = push_bit 0 1"

definition flagMaster :: "64 word" where "flagMaster = push_bit 1 1"

definition flagMulti :: "64 word" where "flagMulti = push_bit 2 1"

text \<open>
  \<open>sent\<close> is what has been written to the socket. A nil map reads as an empty one and is replaced
  before it is written, so that the maps are association lists without a nil.
\<close>

record Connection =
  sent :: string
  flags :: "64 word"
  subs :: "(string, bool) gomap"
  password :: string
  queue :: "cmdline list"
  watching :: "(string, 32 word) gomap"
  txErrors :: "reply list"
  selectedDB :: int

definition newConnection :: Connection where
  "newConnection = \<lparr>sent = [], flags = 0, subs = [], password = [], queue = [], watching = [], txErrors = [], selectedDB = 0\<rparr>"

text \<open>The fields that are reset before the record goes back to the pool; the flags are not among them.\<close>

definition Conn_Close :: "Connection \<Rightarrow> Connection" where
  "Conn_Close c = c\<lparr>subs := [], password := [], queue := [], watching := [], txErrors := [], selectedDB := 0\<rparr>"

text \<open>\<open>pooled\<close> is the record that the pool hands out, if it has one. The socket is a new one.\<close>

definition NewConn :: "Connection option \<Rightarrow> Connection" where
  "NewConn pooled = (case pooled of None \<Rightarrow> newConnection | Some c \<Rightarrow> c)\<lparr>sent := []\<rparr>"

definition Conn_Write :: "string \<Rightarrow> Connection \<Rightarrow> Connection" where
  "Conn_Write b c = (if b = [] then c else c\<lparr>sent := sent c @ b\<rparr>)"

definition Conn_Subscribe :: "string \<Rightarrow> Connection \<Rightarrow> Connection" where
  "Conn_Subscribe channel c = c\<lparr>subs := map_put channel True (subs c)\<rparr>"

definition Conn_UnSubscribe :: "string \<Rightarrow> Connection \<Rightarrow> Connection" where
  "Conn_UnSubscribe channel c = (if length (subs c) = 0 then c else c\<lparr>subs := map_del channel (subs c)\<rparr>)"

definition SubsCount :: "Connection \<Rightarrow> int" where
  "SubsCount c = int (length (subs c))"

definition GetChannels :: "Connection \<Rightarrow> string list" where
  "GetChannels c = map fst (subs c)"

definition InMultiState :: "Connection \<Rightarrow> bool" where
  "InMultiState c \<longleftrightarrow> flags c AND flagMulti > 0"

definition SetMultiState :: "bool \<Rightarrow> Connection \<Rightarrow> Connection" where
  "SetMultiState state c =
     (if \<not> state then c\<lparr>watching := [], queue := [], flags := flags c AND NOT flagMulti\<rparr>
      else c\<lparr>flags := flags c OR flagMulti\<rparr>)"

definition Conn_EnqueueCmd :: "cmdline \<Rightarrow> Connection \<Rightarrow> Connection" where
  "Conn_EnqueueCmd cmdLine c = c\<lparr>queue := queue c @ [cmdLine]\<rparr>"

definition AddTxError :: "reply \<Rightarrow> Connection \<Rightarrow> Connection" where
  "AddTxError err c = c\<lparr>txErrors := txErrors c @ [err]\<rparr>"

definition ClearQueuedCmds :: "Connection \<Rightarrow> Connection" where
  "ClearQueuedCmds c = c\<lparr>queue := []\<rparr>"

definition SelectDB :: "int \<Rightarrow> Connection \<Rightarrow> Connection" where
  "SelectDB dbNum c = c\<lparr>selectedDB := dbNum\<rparr>"

definition SetPassword :: "string \<Rightarrow> Connection \<Rightarrow> Connection" where
  "SetPassword pw c = c\<lparr>password := pw\<rparr>"

definition SetSlave :: "Connection \<Rightarrow> Connection" where
  "SetSlave c = c\<lparr>flags := flags c OR flagSlave\<rparr>"

definition IsSlave :: "Connection \<Rightarrow> bool" where
  "IsSlave c \<longleftrightarrow> flags c AND flagSlave > 0"

definition SetMaster :: "Connection \<Rightarrow> Connection" where
  "SetMaster c = c\<lparr>flags := flags c OR flagMaster\<rparr>"

definition IsMaster :: "Connection \<Rightarrow> bool" where
  "IsMaster c \<longleftrightarrow> flags c AND flagMaster > 0"

section \<open>Lemmas\<close>

lemma flag_values: "flagSlave = 1" "flagMaster = 2" "flagMulti = 4"
  by (simp_all add: flagSlave_def flagMaster_def flagMulti_def push_bit_eq_mult)

text \<open>Each of the three flags is a bit of its own.\<close>

lemma flag_bits:
  "IsSlave c \<longleftrightarrow> bit (flags c) 0" "IsMaster c \<longleftrightarrow> bit (flags c) 1" "InMultiState c \<longleftrightarrow> bit (flags c) 2"
  using and_exp_eq_0_iff_not_bit [of "flags c" 0] and_exp_eq_0_iff_not_bit [of "flags c" 1] and_exp_eq_0_iff_not_bit [of "flags c" 2]
  by (simp_all add: IsSlave_def IsMaster_def InMultiState_def flag_values word_gt_0)

lemma SetMultiState_bits [simp]:
  "InMultiState (SetMultiState b c) = b" "IsSlave (SetMultiState b c) = IsSlave c" "IsMaster (SetMultiState b c) = IsMaster c"
  by (simp_all add: flag_bits SetMultiState_def flag_values bit_simps)

text \<open>A record that was closed within a transaction starts its next connection within one.\<close>

lemma NewConn_keeps_MULTI: "InMultiState (NewConn (Some (Conn_Close c))) = InMultiState c"
  by (simp add: NewConn_def Conn_Close_def InMultiState_def)

end
