(* ===== verification/Transaction.thy ===== *)
theory Transaction
  imports Restore Connection
begin

text \<open>
  \<^verbatim>\<open>database/transaction.go\<close> and the dispatch of \<^verbatim>\<open>DB.Exec\<close>: \<^verbatim>\<open>MULTI\<close>, \<^verbatim>\<open>EXEC\<close>, \<^verbatim>\<open>DISCARD\<close> and \<^verbatim>\<open>WATCH\<close>. A
  transaction runs its queued commands in order, and the undo lines of those that have run when one
  of them fails. The locks a transaction takes are those of the theory \<open>LockMap\<close>; here it runs alone.
\<close>

definition execAbort :: reply where
  "execAbort = StandardErrReply ''EXECABORT Transaction discarded because of previous errors.''"

fun watch_keys :: "'f DB \<Rightarrow> cmdline \<Rightarrow> (string, 32 word) gomap \<Rightarrow> (string, 32 word) gomap" where
  "watch_keys db [] w = w"
| "watch_keys db (key # keys) w = watch_keys db keys (map_put (str key) (GetVersion db (str key)) w)"

definition Watch :: "'f DB \<Rightarrow> Connection \<Rightarrow> cmdline \<Rightarrow> Connection \<times> reply option" where
  "Watch db c args = (c\<lparr>watching := watch_keys db args (watching c)\<rparr>, Some OkReply)"

definition isWatchingChanged :: "'f DB \<Rightarrow> (string, 32 word) gomap \<Rightarrow> bool" where
  "isWatchingChanged db w \<longleftrightarrow> list_ex (\<lambda>(key, ver). ver \<noteq> GetVersion db key) w"

definition StartMulti :: "Connection \<Rightarrow> Connection \<times> reply option" where
  "StartMulti c =
     (if InMultiState c then (c, Some (StandardErrReply ''ERR MULTI calls can not be nested''))
      else (SetMultiState True c, Some OkReply))"

text \<open>A command without a prepare function is one registered as special.\<close>

definition no_prepare :: "'f command \<Rightarrow> bool" where
  "no_prepare cmd \<longleftrightarrow> cmd_flags cmd div 2 mod 2 = 1"

definition quoted :: "string \<Rightarrow> string" where
  "quoted s = [CHR 0x27] @ s @ [CHR 0x27]"

definition EnqueueCmd :: "'f table \<Rightarrow> Connection \<Rightarrow> cmdline \<Rightarrow> Connection \<times> reply option" where
  "EnqueueCmd tab c cmdLine =
     (case cmdLine of
        [] \<Rightarrow> (c, None)
      | a # args \<Rightarrow>
          let cmdName = ToLower (str a) in
          case tab cmdName of
            None \<Rightarrow> let err = unknown_command cmdName in (AddTxError err c, Some err)
          | Some cmd \<Rightarrow>
              if no_prepare cmd then
                let err = StandardErrReply (''ERR command '' @ quoted cmdName @ '' cannot be used in MULTI'') in (AddTxError err c, Some err)
              else if \<not> validateArity (cmd_arity cmd) cmdLine then
                let err = ArgNumErrReply cmdName in (AddTxError err c, Some err)
              else (Conn_EnqueueCmd cmdLine c, Some QueuedReply))"

definition GetUndoLogs :: "'f table \<Rightarrow> 'f DB \<Rightarrow> cmdline \<Rightarrow> 'f DB \<times> cmdline list option" where
  "GetUndoLogs tab db cmdLine =
     (case cmdLine of
        [] \<Rightarrow> (db, None)
      | c # args \<Rightarrow>
          (case tab (ToLower (str c)) of
             None \<Rightarrow> (db, Some [])
           | Some cmd \<Rightarrow> (case cmd_undo cmd of None \<Rightarrow> (db, Some []) | Some undo \<Rightarrow> undo db args)))"

text \<open>The keys of all queued commands; a missing command or prepare function is a panic.\<close>

fun related_keys :: "'f table \<Rightarrow> cmdline list \<Rightarrow> (string list \<times> string list) option" where
  "related_keys tab [] = Some ([], [])"
| "related_keys tab ([] # ls) = None"
| "related_keys tab ((c # args) # ls) = do {
     cmd \<leftarrow> tab (ToLower (str c));
     if no_prepare cmd then None
     else do {
       (writeKeys, readKeys) \<leftarrow> related_keys tab ls;
       Some (fst (cmd_prepare cmd args) @ writeKeys, snd (cmd_prepare cmd args) @ readKeys)
     }
   }"

text \<open>
  The loop over the queued commands: whether it was left because of an error, the undo lines of the
  commands that succeeded, and their replies.
\<close>

fun exec_queue :: "'f table \<Rightarrow> 'f DB \<Rightarrow> cmdline list \<Rightarrow> cmdline list list \<Rightarrow> reply list
    \<Rightarrow> 'f DB \<times> (bool \<times> cmdline list list \<times> reply list) option" where
  "exec_queue tab db [] undoCmdLines results = (db, Some (False, undoCmdLines, results))"
| "exec_queue tab db (cmdLine # ls) undoCmdLines results =
     (case GetUndoLogs tab db cmdLine of
        (db, None) \<Rightarrow> (db, None)
      | (db, Some undo) \<Rightarrow>
          (case execWithLock tab db cmdLine of
             (db, None) \<Rightarrow> (db, None)
           | (db, Some result) \<Rightarrow>
               (case IsErrorReply result of
                  None \<Rightarrow> (db, None)
                | Some True \<Rightarrow> (db, Some (True, undoCmdLines, results))
                | Some False \<Rightarrow> exec_queue tab db ls (undoCmdLines @ [undo]) (results @ [result]))))"

text \<open>The last command is undone first.\<close>

fun run_undo :: "'f table \<Rightarrow> 'f DB \<Rightarrow> cmdline list list \<Rightarrow> 'f DB \<times> unit option" where
  "run_undo tab db [] = (db, Some ())"
| "run_undo tab db (u # us) =
     (case run_lines tab db u of
        (db, None) \<Rightarrow> (db, None)
      | (db, Some _) \<Rightarrow> run_undo tab db us)"

definition ExecMulti :: "'f table \<Rightarrow> 'f DB \<Rightarrow> (string, 32 word) gomap \<Rightarrow> cmdline list \<Rightarrow> 'f DB \<times> reply option" where
  "ExecMulti tab db w cmdLines =
     (case related_keys tab cmdLines of
        None \<Rightarrow> (db, None)
      | Some (writeKeys, readKeys) \<Rightarrow>
          if isWatchingChanged db w then (db, Some EmptyMultiBulkReply)
          else
            (case exec_queue tab db cmdLines [] [] of
               (db, None) \<Rightarrow> (db, None)
             | (db, Some (aborted, undoCmdLines, results)) \<Rightarrow>
                 if \<not> aborted then (addVersion writeKeys db, Some (MultiRawReply results))
                 else
                   (case run_undo tab db (rev undoCmdLines) of
                      (db, None) \<Rightarrow> (db, None)
                    | (db, Some _) \<Rightarrow> (db, Some execAbort))))"

text \<open>The deferred \<^verbatim>\<open>SetMultiState\<close> runs on every way out, panics included.\<close>

definition execMulti :: "'f table \<Rightarrow> 'f DB \<Rightarrow> Connection \<Rightarrow> 'f DB \<times> Connection \<times> reply option" where
  "execMulti tab db c =
     (if \<not> InMultiState c then (db, c, Some (StandardErrReply ''ERR EXEC without MULTI''))
      else if length (txErrors c) > 0 then (db, SetMultiState False c, Some execAbort)
      else (case ExecMulti tab db (watching c) (queue c) of (db, r) \<Rightarrow> (db, SetMultiState False c, r)))"

definition DiscardMulti :: "Connection \<Rightarrow> Connection \<times> reply option" where
  "DiscardMulti c =
     (if \<not> InMultiState c then (c, Some (StandardErrReply ''ERR DISCARD without MULTI''))
      else (SetMultiState False (ClearQueuedCmds c), Some OkReply))"

text \<open>\<^verbatim>\<open>Exec\<close> of one database. The connection is there: \<^verbatim>\<open>Server.Exec\<close> has asked it for its database.\<close>

definition DB_Exec :: "'f table \<Rightarrow> 'f DB \<Rightarrow> Connection \<Rightarrow> cmdline \<Rightarrow> 'f DB \<times> Connection \<times> reply option" where
  "DB_Exec tab db c cmdLine =
     (case cmdLine of
        [] \<Rightarrow> (db, c, None)
      | a # args \<Rightarrow>
          let cmdName = ToLower (str a) in
          if cmdName = ''multi'' then
            (if length cmdLine \<noteq> 1 then (db, c, Some (ArgNumErrReply cmdName)) else (db, StartMulti c))
          else if cmdName = ''discard'' then
            (if length cmdLine \<noteq> 1 then (db, c, Some (ArgNumErrReply cmdName)) else (db, DiscardMulti c))
          else if cmdName = ''exec'' then
            (if length cmdLine \<noteq> 1 then (db, c, Some (ArgNumErrReply cmdName)) else execMulti tab db c)
          else if cmdName = ''watch'' then
            (if \<not> validateArity (- 2) cmdLine then (db, c, Some (ArgNumErrReply cmdName)) else (db, Watch db c args))
          else if InMultiState c then (db, EnqueueCmd tab c cmdLine)
          else (case execNormalCommand tab db cmdLine of (db, r) \<Rightarrow> (db, c, r)))"

section \<open>Specification\<close>

text \<open>
  The commands that are undone by restoring every key they may change, as opposed to those that
  undo the single change (\<^verbatim>\<open>LPUSH\<close> by \<^verbatim>\<open>LPOP\<close>, and so on).
\<close>

definition whole_key :: "string list" where
  "whole_key = [''set'', ''setnx'', ''setex'', ''psetex'', ''mset'', ''msetnx'', ''getset'', ''getdel'', ''incr'', ''incrby'',
     ''incrbyfloat'', ''decr'', ''decrby'', ''append'', ''setrange'', ''setbit'', ''del'', ''rename'', ''renamenx'', ''lrem'',
     ''ltrim'', ''linsert'', ''sinterstore'', ''sunionstore'', ''sdiffstore'', ''zpopmin'', ''zremrangebyscore'',
     ''zremrangebyrank'', ''zremrangebylex'']"

definition undone :: "('f :: {linorder, zero}) env \<Rightarrow> cmdline \<Rightarrow> bool" where
  "undone E cmdLine \<longleftrightarrow> \<not> renames_self cmdLine \<and> (ToLower (str (hd cmdLine)) \<in> set whole_key \<or>
     isReadOnlyCommand (cmdTable E) (str (hd cmdLine)) \<and> ToLower (str (hd cmdLine)) \<noteq> ''getex'')"

text \<open>A handler that changes nothing when it answers with an error.\<close>

definition clean :: "'f DB \<Rightarrow> 'f DB \<times> reply option \<Rightarrow> bool" where
  "clean db0 res \<longleftrightarrow> (case snd res of None \<Rightarrow> True | Some r \<Rightarrow> IsErrorReply r = Some True \<longrightarrow> live (fst res) = live db0)"

text \<open>
  A command undone by whole keys: its errors are clean, and its undo function restores the keys
  \<open>undo_keys\<close>, among which is all that it may change. A read-only command has nothing to undo.
\<close>

definition undo_keys :: "string \<Rightarrow> cmdline \<Rightarrow> string list" where
  "undo_keys name args =
     (if name = ''del'' then map str args
      else if name = ''rename'' \<or> name = ''renamenx'' then [str (args ! 0), str (args ! 1)]
      else if name = ''mset'' \<or> name = ''msetnx'' then fst (prepareMSet args)
      else [str (args ! 0)])"

definition undo_ok :: "('f :: {linorder, zero}) env \<Rightarrow> string \<times> 'f command \<Rightarrow> bool" where
  "undo_ok E e \<longleftrightarrow> (case e of (name, cmd) \<Rightarrow> name \<in> set whole_key \<longrightarrow> (\<forall>db args. DB_ok db \<longrightarrow> clean db (cmd_executor cmd db args)) \<and>
     (\<exists>undo. cmd_undo cmd = Some undo \<and> (\<forall>db args. undo db args = rollbackGivenKeys E db (undo_keys name args))) \<and>
     (\<forall>args. may_change name cmd args \<subseteq> set (undo_keys name args)) ) \<and>
   (case e of (name, cmd) \<Rightarrow> name \<notin> set whole_key \<longrightarrow> name \<noteq> ''getex'' \<longrightarrow> cmd_flags cmd mod 2 = 1 \<longrightarrow>
     cmd_undo cmd \<in> {None, Some (undoDel E)})"

text \<open>
  A key that can be restored has its old value in the other database, and its old expiration time
  or the one in whole milliseconds.
\<close>

definition restored :: "'f DB \<Rightarrow> 'f DB \<Rightarrow> bool" where
  "restored db d \<longleftrightarrow> (\<forall>k. restorable (live db k) \<longrightarrow> seen d k \<in> {seen db k, rounded (clock db) (live db k)})"

text \<open>Commands of other clients between \<^verbatim>\<open>WATCH\<close> and \<^verbatim>\<open>EXEC\<close>, and how often they count up the version of a key.\<close>

definition run_commands :: "'f table \<Rightarrow> 'f DB \<Rightarrow> cmdline list \<Rightarrow> 'f DB" where
  "run_commands tab db ls = foldl (\<lambda>db line. fst (execNormalCommand tab db line)) db ls"

definition bumps :: "'f table \<Rightarrow> string \<Rightarrow> cmdline list \<Rightarrow> nat" where
  "bumps tab k ls = sum_list (map (\<lambda>line. count_list (fst (GetRelatedKeys tab line)) k) ls)"

section \<open>Lemmas\<close>

subsection \<open>Errors without effects\<close>

named_theorems cleans

lemma error_reply [simp]: "r \<noteq> NoReply \<Longrightarrow> IsErrorReply r = Some (Error r \<noteq> None)"
  by (simp add: IsErrorReply_hd hd_ToBytes_error)

lemma clean_same [cleans]: "live db = live db0 \<Longrightarrow> clean db0 (db, r)"
  by (simp add: clean_def split: option.split)

lemma clean_reply [cleans]: "clean db0 (db, Some OkReply)" "clean db0 (db, Some (IntReply n))" "clean db0 (db, Some NullBulkReply)"
  "clean db0 (db, Some (BulkReply b))" "clean db0 (db, Some EmptyMultiBulkReply)" "clean db0 (db, Some (MultiBulkReply bs))"
  "clean db0 (db, None)"
  by (simp_all add: clean_def)

lemma clean_onInt [cleans]: "(\<And>n. clean db0 (k n)) \<Longrightarrow> live db = live db0 \<Longrightarrow> clean db0 (onInt err a db k)"
  by (simp add: onInt_def clean_same split: option.split)

lemma clean_onValue [cleans]: "(\<And>x. v = Some x \<Longrightarrow> clean db0 (k x)) \<Longrightarrow> clean db0 (onValue v db k)"
  by (simp add: onValue_def clean_reply split: option.split)

lemma clean_onLookup:
  assumes "live (fst l) = live db0" and "\<And>db v. l = (db, Inr v) \<Longrightarrow> clean db0 (k db v)"
  shows "clean db0 (onLookup l k)"
  using assms by (cases l) (auto simp: onLookup_def clean_same split: sum.split)

lemma clean_lookups [cleans]:
  assumes "DB_ok db0"
  shows "(\<And>v. clean db0 (k1 (touch key db0) v)) \<Longrightarrow> clean db0 (onLookup (getAsString db0 key) k1)"
    and "(\<And>v. clean db0 (k2 (touch key db0) v)) \<Longrightarrow> clean db0 (onLookup (getAsList db0 key) k2)"
    and "(\<And>v. clean db0 (k3 (touch key db0) v)) \<Longrightarrow> clean db0 (onLookup (getAsSortedSet db0 key) k3)"
  using assms by (auto simp: lookups intro!: clean_onLookup)

lemma clean_strings:
  assumes "DB_ok db"
  shows "clean db (execSet db args)" "clean db (execSetNX db args)" "clean db (execSetEX db args)" "clean db (execPSetEX db args)"
    "clean db (execMSet db args)" "clean db (execMSetNX db args)" "clean db (execGetSet db args)" "clean db (execGetDel db args)"
    "clean db (execIncr db args)" "clean db (execIncrBy db args)" "clean db (execIncrByFloat E db args)" "clean db (execDecr db args)"
    "clean db (execDecrBy db args)" "clean db (execAppend db args)" "clean db (execSetRange E db args)" "clean db (execSetBit db args)"
  using assms
  by (auto simp: execSet_def execSetNX_def execSetEX_def execPSetEX_def execMSet_def execMSetNX_def execGetSet_def execGetDel_def
      execIncr_def execIncrBy_def execIncrByFloat_def execDecr_def execDecrBy_def execAppend_def execSetRange_def execSetBit_def Let_def
      case_prod_beta intro!: cleans split: sum.split option.split prod.split bool.split)

lemma clean_keys:
  assumes "DB_ok db"
  shows "clean db (execDel db args)" "clean db (execRename db args)" "clean db (execRenameNx db args)"
  using assms by (auto simp: execDel_def execRename_def execRenameNx_def Let_def case_prod_beta intro!: cleans split: option.split)

lemma clean_lists:
  assumes "DB_ok db"
  shows "clean db (execLRem db args)" "clean db (execLTrim db args)" "clean db (execLInsert db args)"
  using assms by (auto simp: execLRem_def execLTrim_def execLInsert_def Let_def case_prod_beta intro!: cleans split: option.split)

lemma clean_onBorder [cleans]: "(\<And>x. clean db0 (k x)) \<Longrightarrow> live db = live db0 \<Longrightarrow> clean db0 (onBorder b db k)"
  by (auto simp: onBorder_def intro!: cleans split: sum.split)

lemma clean_removing [cleans]:
  assumes "DB_ok db0" and "\<And>z z' b r. f z = Some (z', b, r) \<Longrightarrow> IsErrorReply r = Some False"
  shows "clean db0 (removing db0 key missing line f)"
proof -
  have "clean db0 (db, Some r)" if "f z = Some (z', b, r)" for db z z' b r
    using assms(2) [OF that] by (simp add: clean_def)
  with assms(1) show ?thesis
    unfolding removing_def
    by (intro clean_lookups(3)) (auto simp: Let_def intro!: clean_onValue intro: clean_same split: option.split)
qed

lemma clean_zsets:
  assumes "DB_ok db"
  shows "clean db (execZPopMin E db args)" "clean db (execZRemRangeByScore E db args)" "clean db (execZRemRangeByRank db args)"
    "clean db (execZRemRangeByLex db args)"
  using assms by (auto simp: execZPopMin_def execZRemRangeByScore_def execZRemRangeByRank_def execZRemRangeByLex_def elements_reply_def Let_def
      case_prod_beta intro!: cleans split: option.splits bind_splits)

lemma clean_sets:
  assumes "DB_ok db"
  shows "clean db (execSInterStore db args)" "clean db (execSUnionStore db args)" "clean db (execSDiffStore db args)"
proof -
  have "live (fst (lookup_sets r keys db)) = live db" for r keys
    using lookup_sets_within [OF within_refl [OF assms]] by (auto simp: within_def)
  then show "clean db (execSInterStore db args)" "clean db (execSUnionStore db args)" "clean db (execSDiffStore db args)"
    by (auto simp: execSInterStore_def execSUnionStore_def execSDiffStore_def Let_def intro!: clean_onLookup cleans)
qed

subsection \<open>The entries of the table\<close>

lemma undo_ok_first:
  assumes "\<And>db args. DB_ok db \<Longrightarrow> clean db (executor db args)" and "\<And>args. fst (prepare args) = [str (args ! 0)]"
    and "ToLower n \<notin> {''del'', ''rename'', ''renamenx'', ''mset'', ''msetnx'', ''renamefrom''}" and "ToLower n \<in> set whole_key"
  shows "undo_ok E (registerCommand n executor prepare (Some (rollbackFirstKey E)) arity fl)"
  using assms by (simp add: undo_ok_def registerCommand_def undo_keys_def rollbackFirstKey_def may_change_def writes_read_keys_def)

lemma undo_ok_other:
  "ToLower n \<notin> set whole_key \<Longrightarrow> ToLower n = ''getex'' \<or> fl = 0 \<or> undo \<in> {None, Some (undoDel E)} \<Longrightarrow>
     undo_ok E (registerCommand n executor prepare undo arity fl)"
  "ToLower n \<notin> set whole_key \<Longrightarrow> undo_ok E (registerSpecialCommand n arity fl)"
  by (auto simp: undo_ok_def registerCommand_def registerSpecialCommand_def)

lemma undo_ok_keys:
  "undo_ok E (registerCommand ''Del'' execDel writeAllKeys (Some (undoDel E)) (- 2) flagWrite)"
  "undo_ok E (registerCommand ''Rename'' execRename prepareRename (Some (undoRename E)) 3 flagReadOnly)"
  "undo_ok E (registerCommand ''RenameNx'' execRenameNx prepareRename (Some (undoRename E)) 3 flagReadOnly)"
  "undo_ok E (registerCommand ''MSet'' execMSet prepareMSet (Some (undoMSet E)) (- 3) flagWrite)"
  "undo_ok E (registerCommand ''MSetNX'' execMSetNX prepareMSet (Some (undoMSet E)) (- 3) flagWrite)"
  by (simp_all add: undo_ok_def registerCommand_def undo_keys_def whole_key_def may_change_def writes_read_keys_def writeAllKeys_def prepareRename_def
      undoDel_def undoRename_def undoMSet_def clean_keys clean_strings)

lemmas undo_oks = flagWrite_def undo_ok_keys [unfolded flagWrite_def] undo_ok_first undo_ok_other whole_key_def writeFirstKey_def prepareSetCalculateStore_def

lemma string_init_undo: "list_all (undo_ok E) (string_init E)"
  by (simp add: string_init_def undo_oks clean_strings)

lemma keys_init_undo: "list_all (undo_ok E) (keys_init E)"
  by (simp add: keys_init_def undo_oks)

lemma list_init_undo: "list_all (undo_ok E) (list_init E)"
  by (simp add: list_init_def undo_oks clean_lists)

lemma set_init_undo: "list_all (undo_ok E) (set_init E)"
  by (simp add: set_init_def undo_oks clean_sets)

lemma sortedset_init_undo: "list_all (undo_ok E) (sortedset_init E)"
  by (simp add: sortedset_init_def undo_oks clean_zsets)

lemma other_init_undo: "list_all (undo_ok E) (hash_init E)" "list_all (undo_ok E) (cluster_helper_init E)"
  "list_all (undo_ok E) (commandinfo_init E)" "list_all (undo_ok E) (transaction_init E)"
  by (simp_all add: hash_init_def cluster_helper_init_def commandinfo_init_def transaction_init_def undo_oks)

lemma cmdTable_undo: "cmdTable E name = Some cmd \<Longrightarrow> undo_ok E (name, cmd)"
  using foldl_update_in [of "\<lambda>_. None" "registered E" name cmd] string_init_undo [of E] keys_init_undo [of E] list_init_undo [of E]
    set_init_undo [of E] sortedset_init_undo [of E] other_init_undo [of E]
  by (auto simp: cmdTable_def registered_def list_all_iff)

subsection \<open>Undoing a transaction\<close>

text \<open>A command of a transaction that has run, with its undo lines.\<close>

lemma undone_step:
  fixes E :: "('f :: {linorder, zero}) env"
  assumes ok: "DB_ok db" and "undone E cmdLine" and u: "GetUndoLogs (cmdTable E) db cmdLine = (db1, Some u)"
  defines "res \<equiv> execWithLock (cmdTable E) db1 cmdLine"
  shows "\<exists>keys. rollbackGivenKeys E db keys = (db1, Some u) \<and> within (set keys) db1 (fst res) \<and> clean db1 res"
proof -
  obtain c args where l: "cmdLine = c # args" using u by (cases cmdLine) (auto simp: GetUndoLogs_def)
  let ?name = "ToLower (str c)"
  have ns: "\<not> renames_self cmdLine" using assms(2) by (simp add: undone_def)
  consider (known) cmd where "cmdTable E ?name = Some cmd"
    "?name \<in> set whole_key \<or> cmd_flags cmd mod 2 = 1 \<and> ?name \<notin> set whole_key \<and> ?name \<noteq> ''getex''"
  | (unknown) "res = (db, Some (unknown_command ?name))" "rollbackGivenKeys E db [] = (db1, Some u)"
    using assms(2) u l by (cases "cmdTable E ?name")
      (auto simp: undone_def isReadOnlyCommand_def res_def GetUndoLogs_def execWithLock_def split: option.splits)
  then show ?thesis
  proof cases
    case 1: known
    note o = cmdTable_undo [OF 1(1), unfolded undo_ok_def prod.case]
    have g: "(case cmd_undo cmd of None \<Rightarrow> (db, Some []) | Some undo \<Rightarrow> undo db args) = (db1, Some u)"
      using u 1(1) l by (simp add: GetUndoLogs_def)
    obtain keys where k: "rollbackGivenKeys E db keys = (db1, Some u)" "may_change ?name cmd args \<subseteq> set keys"
      "?name \<in> set whole_key \<or> may_change ?name cmd args = {}"
    proof (cases "?name \<in> set whole_key")
      case True
      then show ?thesis using o g that [of "undo_keys ?name args"] by auto
    next
      case False
      with 1(2) have "may_change ?name cmd args = {}" by (auto simp: may_change_def whole_key_def)
      moreover have "rollbackGivenKeys E db (if cmd_undo cmd = None then [] else map str args) = (db1, Some u)"
        using o g 1(2) False by (auto simp: undoDel_def split: option.splits)
      ultimately show ?thesis using that by blast
    qed
    have ok1: "DB_ok db1" using rollbackGivenKeys_touches [OF ok, of E keys] k(1) by (auto dest: within_ok)
    have w: "within (may_change ?name cmd args) db1 (fst res)"
      using handler_effect(1) [OF ok1 _ 1(1)] ns l 1(1) ok1
      by (auto simp: res_def execWithLock_def Let_def within_refl split: option.split)
    have "clean db1 res"
    proof (cases "?name \<in> set whole_key")
      case True
      then show ?thesis using o ok1 l 1(1) by (auto simp: res_def execWithLock_def Let_def clean_same)
    next
      case False
      with k(3) w show ?thesis by (auto simp: clean_def within_def fun_eq_iff split: option.split)
    qed
    with k(1,2) w show ?thesis by (blast intro: within_mono)
  next
    case 2: unknown
    then have "db1 = db" by simp
    with 2 ok show ?thesis by (intro exI [of _ "[]"]) (simp add: within_refl clean_same)
  qed
qed

lemma restored_refl: "live d = live db \<Longrightarrow> restored db d"
  by (simp add: restored_def seen_def)

lemma run_undo_append:
  "run_undo tab db (us @ vs) = (d, Some ()) \<longleftrightarrow> (\<exists>db'. run_undo tab db us = (db', Some ()) \<and> run_undo tab db' vs = (d, Some ()))"
  by (induction us arbitrary: db) (auto split: prod.splits option.splits)

text \<open>Running the undo lines of one command takes a database near the one after it to one near the one before it.\<close>

lemma restored_back:
  fixes E :: "('f :: {linorder, zero}) env"
  assumes "DB_ok db" and "DB_ok d" and "floats_parse E" and "rollbackGivenKeys E db keys = (db1, Some u)"
    and w: "within (set keys) db1 db2" and "restored db2 d" and "clock d = clock db" and "run_lines (cmdTable E) d u = (d', Some ())"
  shows "DB_ok d' \<and> clock d' = clock d \<and> restored db d'"
proof -
  have r: "within (set keys) d d'" "\<forall>k \<in> set keys. restorable (live db k) \<longrightarrow> seen d' k = rounded (clock d) (live db k)"
    using rollbackGivenKeys_restores [OF assms(1-4) assms(8)] by blast+
  have t: "within {} db db1" using rollbackGivenKeys_touches [OF assms(1), of E keys] assms(4) by simp
  have "seen d' k \<in> {seen db k, rounded (clock db) (live db k)}" if "restorable (live db k)" for k
  proof (cases "k \<in> set keys")
    case True
    with r(2) that assms(7) show ?thesis by simp
  next
    case False
    then have "live db2 k = live db k" "clock db2 = clock db" "seen d' k = seen d k"
      using t w r(1) by (simp_all add: within_def seen_def)
    with assms(6) that show ?thesis by (auto simp: restored_def seen_def dest: spec [of _ k])
  qed
  with r(1) show ?thesis by (simp add: restored_def within_def)
qed

lemma exec_queue_undo:
  fixes E :: "('f :: {linorder, zero}) env"
  assumes "DB_ok db" and "floats_parse E" and "\<And>l. l \<in> set ls \<Longrightarrow> undone E l"
    and "exec_queue (cmdTable E) db ls us rs = (db', Some (aborted, us', rs'))"
  shows "\<exists>vs. us' = us @ vs \<and> DB_ok db' \<and> clock db' = clock db \<and>
    (\<forall>d d'. DB_ok d \<longrightarrow> clock d = clock db \<longrightarrow> restored db' d \<longrightarrow> run_undo (cmdTable E) d (rev vs) = (d', Some ()) \<longrightarrow>
      DB_ok d' \<and> clock d' = clock db \<and> restored db d')"
  using assms(1,3,4)
proof (induction ls arbitrary: db us rs)
  case (Cons l ls)
  let ?T = "cmdTable E"
  obtain db1 u where u: "GetUndoLogs ?T db l = (db1, Some u)"
    using Cons.prems(3) by (auto split: prod.splits option.splits)
  obtain keys where keys: "rollbackGivenKeys E db keys = (db1, Some u)" "within (set keys) db1 (fst (execWithLock ?T db1 l))"
    "clean db1 (execWithLock ?T db1 l)"
    using undone_step [OF Cons.prems(1) _ u] Cons.prems(2) by auto
  obtain db2 r b where r: "execWithLock ?T db1 l = (db2, Some r)" "IsErrorReply r = Some b"
    using Cons.prems(3) u by (auto split: prod.splits option.splits)
  have t: "within {} db db1" using rollbackGivenKeys_touches [OF Cons.prems(1), of E keys] keys(1) by simp
  have c2: "DB_ok db2" "clock db2 = clock db" using keys(2) r(1) t by (auto simp: within_def)
  show ?case
  proof (cases b)
    case True
    then have "live db2 = live db" using keys(3) r t by (auto simp: clean_def within_def fun_eq_iff)
    with True Cons.prems(3) u r c2 show ?thesis
      by (auto simp del: error_reply simp: restored_def seen_def)
  next
    case False
    then have "exec_queue ?T db2 ls (us @ [u]) (rs @ [r]) = (db', Some (aborted, us', rs'))"
      using Cons.prems(3) u r by (simp del: error_reply)
    from Cons.IH [OF c2(1) Cons.prems(2) [OF list.set_intros(2)] this] obtain vs where
      vs: "us' = (us @ [u]) @ vs \<and> DB_ok db' \<and> clock db' = clock db2 \<and> (\<forall>d d'. DB_ok d \<longrightarrow> clock d = clock db2 \<longrightarrow>
        restored db' d \<longrightarrow> run_undo ?T d (rev vs) = (d', Some ()) \<longrightarrow> DB_ok d' \<and> clock d' = clock db2 \<and> restored db2 d')" ..
    note vs_back = vs [THEN conjunct2, THEN conjunct2, THEN conjunct2, rule_format]
    have "DB_ok d' \<and> clock d' = clock db \<and> restored db d'"
      if d: "DB_ok d" "clock d = clock db" "restored db' d" "run_undo ?T d (rev vs @ [u]) = (d', Some ())" for d d'
    proof -
      obtain d1 where d1: "run_undo ?T d (rev vs) = (d1, Some ())" "run_undo ?T d1 [u] = (d', Some ())"
        using d(4) by (auto simp: run_undo_append)
      have "run_lines ?T d1 u = (d', Some ())" using d1(2) by (simp split: prod.splits option.splits)
      moreover have "DB_ok d1" "clock d1 = clock db" "restored db2 d1" using vs_back [OF d(1) _ d(3) d1(1)] d(2) c2(2) by simp_all
      ultimately show ?thesis
        using restored_back [OF Cons.prems(1) _ assms(2) keys(1), of d1 db2 d'] keys(2) r(1) by simp
    qed
    then have "\<forall>d d'. DB_ok d \<longrightarrow> clock d = clock db \<longrightarrow> restored db' d \<longrightarrow> run_undo ?T d (rev (u # vs)) = (d', Some ()) \<longrightarrow>
        DB_ok d' \<and> clock d' = clock db \<and> restored db d'" by (simp only: rev.simps) blast
    moreover have "us' = us @ u # vs" "DB_ok db'" "clock db' = clock db"
      using vs [THEN conjunct1] vs [THEN conjunct2, THEN conjunct1] vs [THEN conjunct2, THEN conjunct2, THEN conjunct1] c2(2) by simp_all
    ultimately show ?thesis by blast
  qed
qed (auto simp: restored_def)

lemma cmdTable_rename: "cmdTable E ''rename'' = Some \<lparr>cmd_executor = execRename, cmd_prepare = prepareRename,
    cmd_undo = Some (undoRename E), cmd_arity = 3, cmd_flags = flagReadOnly\<rparr>"
  by (simp add: lookup_defs)

lemma exec_queue_results:
  "exec_queue tab db ls us rs = (db', Some (False, us', rs')) \<Longrightarrow>
   \<exists>xs. rs' = rs @ xs \<and> length xs = length ls \<and> (\<forall>x \<in> set xs. IsErrorReply x = Some False)"
proof (induction ls arbitrary: db us rs)
  case (Cons l ls)
  then obtain db2 u r where r: "exec_queue tab db2 ls (us @ [u]) (rs @ [r]) = (db', Some (False, us', rs'))" "IsErrorReply r = Some False"
    by (auto simp del: error_reply split: prod.splits option.splits bool.splits)
  from Cons.IH [OF r(1)] obtain xs where "rs' = (rs @ [r]) @ xs" "length xs = length ls" "\<forall>x \<in> set xs. IsErrorReply x = Some False" by blast
  with r(2) show ?case by (intro exI [of _ "r # xs"]) (simp del: error_reply)
qed simp



text \<open>
  Nothing clears the list of queueing errors: after one error, \<^verbatim>\<open>DISCARD\<close> and a new \<^verbatim>\<open>MULTI\<close> the next
  transaction fails too.
\<close>

lemma queueing_error_stays:
  assumes "InMultiState c" and "txErrors c \<noteq> []"
  shows "snd (snd (execMulti tab db (fst (StartMulti (fst (DiscardMulti c)))))) = Some execAbort"
proof -
  have "txErrors (fst (StartMulti (fst (DiscardMulti c)))) \<noteq> []"
    using assms(2) by (simp add: StartMulti_def DiscardMulti_def SetMultiState_def ClearQueuedCmds_def)
  moreover have "InMultiState (fst (StartMulti (fst (DiscardMulti c))))" using assms(1) by (simp add: StartMulti_def)
  ultimately show ?thesis by (simp add: execMulti_def)
qed

subsection \<open>Watched keys\<close>

lemma addVersion_version:
  "DB_ok db \<Longrightarrow> GetVersion (addVersion ks db) k = GetVersion db k + of_nat (count_list ks k)"
proof (induction ks arbitrary: db)
  case (Cons key ks)
  let ?db = "db\<lparr>versionMap := fst (CD_Put (versionMap db) key (GetVersion db key + 1))\<rparr>"
  have "DB_ok ?db" using DB_ok_addVersion [OF Cons.prems, of "[key]"] by simp
  moreover have "GetVersion ?db k = (if k = key then GetVersion db k + 1 else GetVersion db k)"
    using Cons.prems by (simp add: GetVersion_def split: option.split)
  ultimately show ?case using Cons.IH [of ?db] by simp
qed simp

text \<open>As long as its version has not been counted up, a key has not changed.\<close>

lemma command_version:
  fixes E :: "('f :: {linorder, zero}) env"
  assumes "DB_ok db" and "\<not> renames_self line" and "ToLower (str (hd line)) \<notin> set writes_read_keys"
  defines "db' \<equiv> fst (execNormalCommand (cmdTable E) db line)"
  shows "DB_ok db' \<and> (\<exists>m \<le> count_list (fst (GetRelatedKeys (cmdTable E) line)) k. GetVersion db' k = GetVersion db k + of_nat m \<and>
    (m = 0 \<longrightarrow> live db' k = live db k))"
  using assms(1,2)
proof (rule execNormalCommand_cases [where E = E])
  assume "fst (execNormalCommand (cmdTable E) db line) = db"
  with assms(1) show ?thesis by (intro conjI exI [of _ 0]) (simp_all add: db'_def)
next
  fix name cmd args
  assume n: "name = ToLower (str (hd line))" "GetRelatedKeys (cmdTable E) line = cmd_prepare cmd args"
    and w: "within (may_change name cmd args) (addVersion (fst (cmd_prepare cmd args)) db) (fst (execNormalCommand (cmdTable E) db line))"
  let ?m = "count_list (fst (cmd_prepare cmd args)) k"
  have "GetVersion db' k = GetVersion db k + of_nat ?m"
    using w addVersion_version [OF assms(1), of "fst (cmd_prepare cmd args)" k] by (simp add: db'_def within_def GetVersion_def)
  moreover have "live db' k = live db k" if "?m = 0"
  proof -
    have "k \<notin> may_change name cmd args" using that n(1) assms(3) by (auto simp: may_change_def count_list_0_iff)
    with w show ?thesis by (simp add: db'_def within_def)
  qed
  ultimately show ?thesis using w n(2) by (auto simp: db'_def dest: within_ok)
qed

lemma run_commands_version:
  fixes E :: "('f :: {linorder, zero}) env"
  assumes "DB_ok db" and "\<And>l. l \<in> set ls \<Longrightarrow> \<not> renames_self l \<and> ToLower (str (hd l)) \<notin> set writes_read_keys"
  shows "\<exists>m \<le> bumps (cmdTable E) k ls. GetVersion (run_commands (cmdTable E) db ls) k = GetVersion db k + of_nat m \<and>
    (m = 0 \<longrightarrow> live (run_commands (cmdTable E) db ls) k = live db k)"
  using assms
proof (induction ls arbitrary: db)
  case (Cons l ls)
  let ?db = "fst (execNormalCommand (cmdTable E) db l)"
  from command_version [OF Cons.prems(1), of l E k] Cons.prems(2) obtain m where m: "DB_ok ?db"
    "m \<le> count_list (fst (GetRelatedKeys (cmdTable E) l)) k" "GetVersion ?db k = GetVersion db k + of_nat m" "m = 0 \<longrightarrow> live ?db k = live db k"
    by auto
  from Cons.IH [OF m(1)] Cons.prems(2) obtain m' where "m' \<le> bumps (cmdTable E) k ls"
    "GetVersion (run_commands (cmdTable E) ?db ls) k = GetVersion ?db k + of_nat m'"
    "m' = 0 \<longrightarrow> live (run_commands (cmdTable E) ?db ls) k = live ?db k" by auto
  with m show ?case by (intro exI [of _ "m + m'"]) (auto simp: run_commands_def bumps_def)
qed (auto simp: run_commands_def bumps_def)

lemma watch_keys_map: "map_of (watch_keys db keys w) k = (if k \<in> str ` set keys then Some (GetVersion db k) else map_of w k)"
  by (induction keys arbitrary: w) auto



end
