(* ===== verification/LinkedList.thy ===== *)
theory LinkedList
  imports GoList
begin

text \<open>
  \<^verbatim>\<open>datastruct/list/linked.go\<close>: a doubly linked list. The nodes live in a store, a node's address is
  its position there; a node is allocated at the end of the store and stays in it after its removal.
  Following a nil pointer is a panic.
\<close>

record 'a node =
  node_val :: 'a
  node_prev :: "nat option"
  node_next :: "nat option"

record 'a LinkedList =
  ll_nodes :: "'a node list"
  ll_first :: "nat option"
  ll_last :: "nat option"
  ll_size :: int

definition LL_empty :: "'a LinkedList" where
  "LL_empty = \<lparr>ll_nodes = [], ll_first = None, ll_last = None, ll_size = 0\<rparr>"

definition set_next :: "nat \<Rightarrow> nat option \<Rightarrow> 'a LinkedList \<Rightarrow> 'a LinkedList" where
  "set_next a p l = l\<lparr>ll_nodes := (ll_nodes l)[a := (ll_nodes l ! a)\<lparr>node_next := p\<rparr>]\<rparr>"

definition set_prev :: "nat \<Rightarrow> nat option \<Rightarrow> 'a LinkedList \<Rightarrow> 'a LinkedList" where
  "set_prev a p l = l\<lparr>ll_nodes := (ll_nodes l)[a := (ll_nodes l ! a)\<lparr>node_prev := p\<rparr>]\<rparr>"

definition LL_Add :: "'a \<Rightarrow> 'a LinkedList \<Rightarrow> 'a LinkedList" where
  "LL_Add v l =
     (let n = length (ll_nodes l) in
      case ll_last l of
        None \<Rightarrow> l\<lparr>ll_nodes := ll_nodes l @ [\<lparr>node_val = v, node_prev = None, node_next = None\<rparr>],
                 ll_first := Some n, ll_last := Some n, ll_size := ll_size l + 1\<rparr>
      | Some z \<Rightarrow>
          let l = l\<lparr>ll_nodes := ll_nodes l @ [\<lparr>node_val = v, node_prev = Some z, node_next = None\<rparr>]\<rparr>
          in (set_next z (Some n) l)\<lparr>ll_last := Some n, ll_size := ll_size l + 1\<rparr>)"

fun walk_next :: "'a node list \<Rightarrow> nat \<Rightarrow> nat option \<Rightarrow> nat option option" where
  "walk_next ns 0 n = Some n"
| "walk_next ns (Suc k) n = (case n of None \<Rightarrow> None | Some a \<Rightarrow> walk_next ns k (node_next (ns ! a)))"

fun walk_prev :: "'a node list \<Rightarrow> nat \<Rightarrow> nat option \<Rightarrow> nat option option" where
  "walk_prev ns 0 n = Some n"
| "walk_prev ns (Suc k) n = (case n of None \<Rightarrow> None | Some a \<Rightarrow> walk_prev ns k (node_prev (ns ! a)))"

definition ll_find :: "'a LinkedList \<Rightarrow> int \<Rightarrow> nat option option" where
  "ll_find l index =
     (if index < quot (ll_size l) 2 then walk_next (ll_nodes l) (nat index) (ll_first l)
      else walk_prev (ll_nodes l) (nat (ll_size l - 1 - index)) (ll_last l))"

definition LL_Get :: "'a LinkedList \<Rightarrow> int \<Rightarrow> 'a option" where
  "LL_Get l index =
     (if index < 0 \<or> index \<ge> ll_size l then None
      else do { n \<leftarrow> ll_find l index; a \<leftarrow> n; Some (node_val (ll_nodes l ! a)) })"

definition LL_Set :: "'a LinkedList \<Rightarrow> int \<Rightarrow> 'a \<Rightarrow> 'a LinkedList option" where
  "LL_Set l index v =
     (if index < 0 \<or> index > ll_size l then None
      else do {
        n \<leftarrow> ll_find l index;
        a \<leftarrow> n;
        Some (l\<lparr>ll_nodes := (ll_nodes l)[a := (ll_nodes l ! a)\<lparr>node_val := v\<rparr>]\<rparr>)
      })"

definition LL_Insert :: "'a LinkedList \<Rightarrow> int \<Rightarrow> 'a \<Rightarrow> 'a LinkedList option" where
  "LL_Insert l index v =
     (if index < 0 \<or> index > ll_size l then None
      else if index = ll_size l then Some (LL_Add v l)
      else do {
        p \<leftarrow> ll_find l index;
        pivot \<leftarrow> p;
        let prev = node_prev (ll_nodes l ! pivot);
            n = length (ll_nodes l);
            l = l\<lparr>ll_nodes := ll_nodes l @ [\<lparr>node_val = v, node_prev = prev, node_next = Some pivot\<rparr>]\<rparr>;
            l = (case prev of None \<Rightarrow> l\<lparr>ll_first := Some n\<rparr> | Some b \<Rightarrow> set_next b (Some n) l);
            l = set_prev pivot (Some n) l
        in Some (l\<lparr>ll_size := ll_size l + 1\<rparr>)
      })"

definition ll_removeNode :: "nat \<Rightarrow> 'a LinkedList \<Rightarrow> 'a LinkedList" where
  "ll_removeNode n l =
     (let prev = node_prev (ll_nodes l ! n); nxt = node_next (ll_nodes l ! n);
          l = (case prev of None \<Rightarrow> l\<lparr>ll_first := nxt\<rparr> | Some b \<Rightarrow> set_next b nxt l);
          l = (case nxt of None \<Rightarrow> l\<lparr>ll_last := prev\<rparr> | Some b \<Rightarrow> set_prev b prev l);
          l = set_next n None (set_prev n None l)
      in l\<lparr>ll_size := ll_size l - 1\<rparr>)"

definition LL_Remove :: "'a LinkedList \<Rightarrow> int \<Rightarrow> ('a LinkedList \<times> 'a) option" where
  "LL_Remove l index =
     (if index < 0 \<or> index \<ge> ll_size l then None
      else do { n \<leftarrow> ll_find l index; a \<leftarrow> n; Some (ll_removeNode a l, node_val (ll_nodes l ! a)) })"

definition LL_RemoveLast :: "'a LinkedList \<Rightarrow> 'a LinkedList \<times> 'a option" where
  "LL_RemoveLast l =
     (case ll_last l of
        None \<Rightarrow> (l, None)
      | Some n \<Rightarrow> (ll_removeNode n l, Some (node_val (ll_nodes l ! n))))"

text \<open>The loops follow the pointers until nil; a loop that does not end has no value.\<close>

partial_function (option) unlinkAll_loop :: "('a \<Rightarrow> bool) \<Rightarrow> nat option \<Rightarrow> int \<Rightarrow> 'a LinkedList \<Rightarrow> ('a LinkedList \<times> int) option" where
  "unlinkAll_loop expected n removed l =
     (case n of
        None \<Rightarrow> Some (l, removed)
      | Some a \<Rightarrow>
          let nextNode = node_next (ll_nodes l ! a) in
          if expected (node_val (ll_nodes l ! a)) then unlinkAll_loop expected nextNode (removed + 1) (ll_removeNode a l)
          else unlinkAll_loop expected nextNode removed l)"

definition LL_RemoveAllByVal :: "('a \<Rightarrow> bool) \<Rightarrow> 'a LinkedList \<Rightarrow> ('a LinkedList \<times> int) option" where
  "LL_RemoveAllByVal expected l = unlinkAll_loop expected (ll_first l) 0 l"

partial_function (option) unlink_loop :: "('a node \<Rightarrow> nat option) \<Rightarrow> ('a \<Rightarrow> bool) \<Rightarrow> int \<Rightarrow> nat option \<Rightarrow> int \<Rightarrow> 'a LinkedList
    \<Rightarrow> ('a LinkedList \<times> int) option" where
  "unlink_loop dir expected cnt n removed l =
     (case n of
        None \<Rightarrow> Some (l, removed)
      | Some a \<Rightarrow>
          let following = dir (ll_nodes l ! a);
              (l, removed) = (if expected (node_val (ll_nodes l ! a)) then (ll_removeNode a l, removed + 1) else (l, removed))
          in if removed = cnt then Some (l, removed) else unlink_loop dir expected cnt following removed l)"

definition LL_RemoveByVal :: "('a \<Rightarrow> bool) \<Rightarrow> int \<Rightarrow> 'a LinkedList \<Rightarrow> ('a LinkedList \<times> int) option" where
  "LL_RemoveByVal expected cnt l = unlink_loop node_next expected cnt (ll_first l) 0 l"

definition LL_ReverseRemoveByVal :: "('a \<Rightarrow> bool) \<Rightarrow> int \<Rightarrow> 'a LinkedList \<Rightarrow> ('a LinkedList \<times> int) option" where
  "LL_ReverseRemoveByVal expected cnt l = unlink_loop node_prev expected cnt (ll_last l) 0 l"

definition LL_Len :: "'a LinkedList \<Rightarrow> int" where
  "LL_Len l = ll_size l"

partial_function (option) visit_loop :: "'a node list \<Rightarrow> ('s \<Rightarrow> int \<Rightarrow> 'a \<Rightarrow> bool \<times> 's) \<Rightarrow> nat option \<Rightarrow> int \<Rightarrow> 's \<Rightarrow> 's option" where
  "visit_loop ns consumer n i s =
     (case n of
        None \<Rightarrow> Some s
      | Some a \<Rightarrow>
          (case consumer s i (node_val (ns ! a)) of (goNext, s) \<Rightarrow>
             if \<not> goNext then Some s else visit_loop ns consumer (node_next (ns ! a)) (i + 1) s))"

definition LL_ForEach :: "'a LinkedList \<Rightarrow> ('s \<Rightarrow> int \<Rightarrow> 'a \<Rightarrow> bool \<times> 's) \<Rightarrow> 's \<Rightarrow> 's option" where
  "LL_ForEach l consumer s = visit_loop (ll_nodes l) consumer (ll_first l) 0 s"

definition LL_Contains :: "('a \<Rightarrow> bool) \<Rightarrow> 'a LinkedList \<Rightarrow> bool option" where
  "LL_Contains expected l = LL_ForEach l (\<lambda>found i actual. if expected actual then (False, True) else (True, found)) False"

partial_function (option) copy_loop :: "'a node list \<Rightarrow> int \<Rightarrow> int \<Rightarrow> nat option \<Rightarrow> int \<Rightarrow> 'a list \<Rightarrow> 'a list option" where
  "copy_loop ns start stop n i acc =
     (case n of
        None \<Rightarrow> Some acc
      | Some a \<Rightarrow>
          if i \<ge> stop then Some acc
          else copy_loop ns start stop (node_next (ns ! a)) (i + 1) (if i \<ge> start then acc @ [node_val (ns ! a)] else acc))"

text \<open>The slice has room for \<^verbatim>\<open>stop - start\<close> elements, which are the ones that are written.\<close>

definition LL_Range :: "'a LinkedList \<Rightarrow> int \<Rightarrow> int \<Rightarrow> 'a list option" where
  "LL_Range l start stop =
     (if start < 0 \<or> start \<ge> ll_size l then None
      else if stop < start \<or> stop > ll_size l then None
      else copy_loop (ll_nodes l) start stop (ll_first l) 0 [])"

definition LL_Make :: "'a list \<Rightarrow> 'a LinkedList" where
  "LL_Make vals = foldl (\<lambda>l v. LL_Add v l) LL_empty vals"

fun LL_exec :: "'a LinkedList \<Rightarrow> 'a list_op \<Rightarrow> ('a LinkedList \<times> 'a list_ans) option" where
  "LL_exec l (LAdd v) = Some (LL_Add v l, LUnit)"
| "LL_exec l (LGet i) = map_option (\<lambda>v. (l, LVal v)) (LL_Get l i)"
| "LL_exec l (LSet i v) = map_option (\<lambda>l. (l, LUnit)) (LL_Set l i v)"
| "LL_exec l (LInsert i v) = map_option (\<lambda>l. (l, LUnit)) (LL_Insert l i v)"
| "LL_exec l (LRemove i) = map_option (\<lambda>(l, v). (l, LVal v)) (LL_Remove l i)"
| "LL_exec l LRemoveLast = (case LL_RemoveLast l of (l, v) \<Rightarrow> Some (l, LOpt v))"
| "LL_exec l (LRemoveAllByVal f) = map_option (\<lambda>(l, n). (l, LNum n)) (LL_RemoveAllByVal f l)"
| "LL_exec l (LRemoveByVal f n) = map_option (\<lambda>(l, n). (l, LNum n)) (LL_RemoveByVal f n l)"
| "LL_exec l (LReverseRemoveByVal f n) = map_option (\<lambda>(l, n). (l, LNum n)) (LL_ReverseRemoveByVal f n l)"
| "LL_exec l LLen = Some (l, LNum (LL_Len l))"
| "LL_exec l (LContains f) = map_option (\<lambda>b. (l, LBool b)) (LL_Contains f l)"
| "LL_exec l (LRange a b) = map_option (\<lambda>vs. (l, LVals vs)) (LL_Range l a b)"

section \<open>Specification\<close>

text \<open>
  The nodes of the list in order: \<open>as\<close> are their addresses, \<open>xs\<close> their values, \<open>p\<close> and \<open>q\<close> what is before
  and after them.
\<close>

fun hdo :: "nat list \<Rightarrow> nat option \<Rightarrow> nat option" where
  "hdo [] q = q"
| "hdo (a # as) q = Some a"

fun lasto :: "nat list \<Rightarrow> nat option \<Rightarrow> nat option" where
  "lasto [] p = p"
| "lasto (a # as) p = lasto as (Some a)"

fun chain :: "'a node list \<Rightarrow> nat option \<Rightarrow> nat list \<Rightarrow> 'a list \<Rightarrow> nat option \<Rightarrow> bool" where
  "chain ns p [] [] q \<longleftrightarrow> True"
| "chain ns p (a # as) (x # xs) q \<longleftrightarrow>
     a < length ns \<and> ns ! a = \<lparr>node_val = x, node_prev = p, node_next = hdo as q\<rparr> \<and> chain ns (Some a) as xs q"
| "chain ns p _ _ q \<longleftrightarrow> False"

definition links :: "'a LinkedList \<Rightarrow> nat list \<Rightarrow> 'a list \<Rightarrow> bool" where
  "links l as xs \<longleftrightarrow> distinct as \<and> chain (ll_nodes l) None as xs None \<and> ll_size l = int (length xs) \<and>
     ll_first l = hdo as None \<and> ll_last l = lasto as None"

definition LL_rep :: "'a LinkedList \<Rightarrow> 'a list \<Rightarrow> bool" where
  "LL_rep l xs \<longleftrightarrow> (\<exists>as. links l as xs)"

text \<open>
  The calls that answer as the interface says. \<^verbatim>\<open>Set\<close> accepts the index after the last one, and then
  writes the last element; a count of 0 ends \<^verbatim>\<open>RemoveByVal\<close> at the first element that does not match; and
  the paged list panics on \<^verbatim>\<open>RemoveAllByVal\<close> of the empty list, where this one answers 0.
\<close>

fun LL_ok :: "'a list \<Rightarrow> 'a list_op \<Rightarrow> bool" where
  "LL_ok xs (LSet i v) \<longleftrightarrow> i \<noteq> int (length xs) \<or> xs = []"
| "LL_ok xs (LRemoveByVal f n) \<longleftrightarrow> n \<noteq> 0"
| "LL_ok xs (LReverseRemoveByVal f n) \<longleftrightarrow> n \<noteq> 0"
| "LL_ok xs (LRemoveAllByVal f) \<longleftrightarrow> xs \<noteq> []"
| "LL_ok xs _ \<longleftrightarrow> True"

section \<open>Lemmas\<close>

lemma hdo_conv: "hdo as q = (if as = [] then q else Some (hd as))"
  by (cases as) auto

lemma lasto_append [simp]: "lasto (as @ bs) p = lasto bs (lasto as p)"
  by (induction as arbitrary: p) auto

lemma lasto_conv: "lasto as p = (if as = [] then p else Some (last as))"
  by (cases as rule: rev_cases) auto

lemma hdo_append [simp]: "hdo (as @ bs) q = hdo as (hdo bs q)"
  by (cases as) auto

lemma chain_Nil [simp]: "chain ns p [] xs q \<longleftrightarrow> xs = []"
  by (cases xs) auto

lemma chain_length: "chain ns p as xs q \<Longrightarrow> length as = length xs"
  by (induction ns p as xs q rule: chain.induct) auto

lemma chain_bound: "chain ns p as xs q \<Longrightarrow> a \<in> set as \<Longrightarrow> a < length ns"
  by (induction ns p as xs q rule: chain.induct) auto

lemma chain_append: "length as = length xs \<Longrightarrow>
    chain ns p (as @ bs) (xs @ ys) q \<longleftrightarrow> chain ns p as xs (hdo bs q) \<and> chain ns (lasto as p) bs ys q"
  by (induction as xs arbitrary: p rule: list_induct2) auto

lemma chain_update [simp]: "b \<notin> set as \<Longrightarrow> chain (ns[b := n]) p as xs q = chain ns p as xs q"
  by (induction ns p as xs q rule: chain.induct) auto

lemma chain_alloc: "chain ns p as xs q \<Longrightarrow> chain (ns @ ms) p as xs q"
  by (induction ns p as xs q rule: chain.induct) (auto simp: nth_append)

lemma chain_nth:
  "chain ns p as xs q \<Longrightarrow> i < length as \<Longrightarrow>
   ns ! (as ! i) = \<lparr>node_val = xs ! i, node_prev = (if i = 0 then p else Some (as ! (i - 1))),
     node_next = (if Suc i < length as then Some (as ! Suc i) else q)\<rparr>"
proof (induction ns p as xs q arbitrary: i rule: chain.induct)
  case (2 ns p a as x xs q)
  then show ?case by (cases i) (auto simp: hdo_conv hd_conv_nth nth_Cons')
qed auto

lemma chain_last:
  assumes "chain ns p as xs q" and "distinct as" and "as \<noteq> []"
  shows "chain (ns[last as := (ns ! last as)\<lparr>node_next := q'\<rparr>]) p as xs q'"
proof -
  obtain bs b where as: "as = bs @ [b]" using assms(3) by (cases as rule: rev_cases) auto
  obtain ys y where xs: "xs = ys @ [y]" using chain_length [OF assms(1)] as by (cases xs rule: rev_cases) auto
  have "length bs = length ys" using chain_length [OF assms(1)] as xs by simp
  with assms as xs show ?thesis by (simp add: chain_append)
qed

lemma chain_first:
  assumes "chain ns p as xs q" and "distinct as" and "as \<noteq> []"
  shows "chain (ns[hd as := (ns ! hd as)\<lparr>node_prev := p'\<rparr>]) p' as xs q"
  using assms by (cases as; cases xs) auto

lemma linksD:
  assumes "links l as xs"
  shows "distinct as" "chain (ll_nodes l) None as xs None" "ll_size l = int (length xs)"
    "ll_first l = hdo as None" "ll_last l = lasto as None" "length as = length xs"
  using assms chain_length by (auto simp: links_def)

lemma LL_empty_rep: "LL_rep LL_empty []"
  by (auto simp: LL_rep_def links_def LL_empty_def intro!: exI [of _ "[]"])

subsection \<open>Finding a node\<close>

lemma walk_next_links:
  assumes "chain ns p as xs q" and "i + k < length as"
  shows "walk_next ns k (Some (as ! i)) = Some (Some (as ! (i + k)))"
  using assms(2)
proof (induction k arbitrary: i)
  case (Suc k)
  then show ?case using chain_nth [OF assms(1), of i] Suc.IH [of "Suc i"] by simp
qed simp

lemma walk_prev_links:
  assumes "chain ns p as xs q" and "k \<le> i" and "i < length as"
  shows "walk_prev ns k (Some (as ! i)) = Some (Some (as ! (i - k)))"
  using assms(2,3)
proof (induction k arbitrary: i)
  case (Suc k)
  then obtain j where "i = Suc j" "k \<le> j" by (cases i) auto
  with Suc show ?case using chain_nth [OF assms(1), of i] Suc.IH [of j] by simp
qed simp

lemma find_links:
  assumes "links l as xs" and "0 \<le> i" and "i < int (length xs)"
  shows "ll_find l i = Some (Some (as ! nat i))"
proof -
  note d = linksD [OF assms(1)]
  have n: "as \<noteq> []" "nat i < length as" using assms(2,3) d(6) by auto
  show ?thesis
  proof (cases "i < quot (ll_size l) 2")
    case True
    with n d(4) walk_next_links [OF d(2), of 0 "nat i"] show ?thesis by (simp add: ll_find_def hdo_conv hd_conv_nth)
  next
    case False
    have "nat (ll_size l - 1 - i) = length as - 1 - nat i" using d(3,6) assms(2) by simp
    with False n d(5) walk_prev_links [OF d(2), of "length as - 1 - nat i" "length as - 1"] show ?thesis
      by (simp add: ll_find_def lasto_conv last_conv_nth)
  qed
qed

subsection \<open>Changing the links\<close>

lemma links_Add: "links l as xs \<Longrightarrow> links (LL_Add v l) (as @ [length (ll_nodes l)]) (xs @ [v])"
proof -
  assume l: "links l as xs"
  note d = linksD [OF l]
  have new: "length (ll_nodes l) \<notin> set as" using chain_bound [OF d(2)] by auto
  show ?thesis
  proof (cases "as = []")
    case True
    with d show ?thesis by (auto simp: links_def LL_Add_def Let_def)
  next
    case False
    then have "last as < length (ll_nodes l)" using chain_bound [OF d(2)] by simp
    with chain_last [OF chain_alloc [OF d(2)] d(1) False] False new d show ?thesis
      by (simp add: links_def LL_Add_def Let_def set_next_def lasto_conv hdo_conv chain_append)
  qed
qed

text \<open>Removing a node from the middle.\<close>

lemma links_removeNode:
  assumes l: "links l (us @ a # vs) (xs @ x # ys)" and len: "length us = length xs"
  shows "links (ll_removeNode a l) (us @ vs) (xs @ ys)"
proof -
  note d = linksD [OF l]
  have c: "chain (ll_nodes l) None us xs (Some a)" "a < length (ll_nodes l)"
    "ll_nodes l ! a = \<lparr>node_val = x, node_prev = lasto us None, node_next = hdo vs None\<rparr>" "chain (ll_nodes l) (Some a) vs ys None"
    using d(2) len by (simp_all add: chain_append)
  have dis: "a \<notin> set us" "a \<notin> set vs" "distinct us" "distinct vs" "set us \<inter> set vs = {}" using d(1) by auto
  have hv: "vs \<noteq> [] \<Longrightarrow> hd vs \<notin> set us" using dis by (auto simp: disjoint_iff)
  define l1 where "l1 = (case lasto us None of None \<Rightarrow> l\<lparr>ll_first := hdo vs None\<rparr> | Some b \<Rightarrow> set_next b (hdo vs None) l)"
  define l2 where "l2 = (case hdo vs None of None \<Rightarrow> l1\<lparr>ll_last := lasto us None\<rparr> | Some b \<Rightarrow> set_prev b (lasto us None) l1)"
  have l1: "chain (ll_nodes l1) None us xs (hdo vs None)" "chain (ll_nodes l1) (Some a) vs ys None" "ll_first l1 = hdo (us @ vs) None"
    "ll_last l1 = ll_last l" "ll_size l1 = ll_size l"
    using c dis d(4) chain_last [OF c(1) dis(3)]
    by (auto simp: l1_def lasto_conv set_next_def hdo_conv [of us] disjoint_iff)
  have l2: "chain (ll_nodes l2) None us xs (hdo vs None)" "chain (ll_nodes l2) (lasto us None) vs ys None" "ll_first l2 = hdo (us @ vs) None"
    "ll_last l2 = lasto (us @ vs) None" "ll_size l2 = ll_size l"
    using l1 dis(1,2) hv d(5) chain_first [OF l1(2) dis(4)]
    by (auto simp: l2_def hdo_conv [of vs] set_prev_def lasto_conv)
  have "ll_removeNode a l = (set_next a None (set_prev a None l2))\<lparr>ll_size := ll_size l2 - 1\<rparr>"
    unfolding ll_removeNode_def Let_def c(3) node.simps l1_def [symmetric] l2_def [symmetric]
    by (simp add: set_next_def set_prev_def)
  with l2 dis d(1,3) len show ?thesis
    by (simp add: links_def set_next_def set_prev_def chain_append)
qed

lemma split_nth: "k < length xs \<Longrightarrow> xs = take k xs @ xs ! k # drop (Suc k) xs"
  by (rule id_take_nth_drop)

lemma links_Insert:
  assumes l: "links l as xs" and i: "0 \<le> i" "i < int (length xs)"
  shows "\<exists>l' as'. LL_Insert l i v = Some l' \<and> links l' as' (take (nat i) xs @ v # drop (nat i) xs)"
proof -
  note d = linksD [OF l]
  let ?k = "nat i" and ?n = "length (ll_nodes l)"
  have k: "?k < length as" using i d(6) by simp
  define us a vs where "us = take ?k as" and "a = as ! ?k" and "vs = drop (Suc ?k) as"
  have as: "as = us @ a # vs" unfolding us_def a_def vs_def by (rule split_nth [OF k])
  define ys zs where "ys = take ?k xs" and "zs = drop ?k xs"
  have xs: "xs = ys @ zs" "length us = length ys" "length (a # vs) = length zs" using k d(6) by (simp_all add: ys_def zs_def us_def vs_def)
  have c: "chain (ll_nodes l) None us ys (Some a)" "chain (ll_nodes l) (lasto us None) (a # vs) zs None"
    using d(2) as xs chain_append [OF xs(2), of "ll_nodes l" None "a # vs" zs None] by simp_all
  have dis: "a \<notin> set us" "a \<notin> set vs" "distinct us" "distinct vs" "set us \<inter> set vs = {}" using d(1) as by auto
  have new: "?n \<notin> set as" "a < ?n" using chain_bound [OF d(2)] as by auto
  have pv: "node_prev (ll_nodes l ! a) = lasto us None" using c(2) by (cases zs) auto
  define l1 where "l1 = l\<lparr>ll_nodes := ll_nodes l @ [\<lparr>node_val = v, node_prev = lasto us None, node_next = Some a\<rparr>]\<rparr>"
  define l2 where "l2 = (case lasto us None of None \<Rightarrow> l1\<lparr>ll_first := Some ?n\<rparr> | Some b \<Rightarrow> set_next b (Some ?n) l1)"
  have l1: "chain (ll_nodes l1) None us ys (Some a)" "chain (ll_nodes l1) (lasto us None) (a # vs) zs None"
    using chain_alloc [OF c(1)] chain_alloc [OF c(2)] by (simp_all add: l1_def)
  have ub: "us \<noteq> [] \<Longrightarrow> last us < ?n" using chain_bound [OF c(1)] by simp
  have uv: "us \<noteq> [] \<Longrightarrow> last us \<notin> set (a # vs)" using dis by (auto simp: disjoint_iff)
  have l2: "chain (ll_nodes l2) None us ys (Some ?n)" "chain (ll_nodes l2) (lasto us None) (a # vs) zs None"
    "ll_nodes l2 ! ?n = \<lparr>node_val = v, node_prev = lasto us None, node_next = Some a\<rparr>" "length (ll_nodes l2) = Suc ?n"
    "ll_first l2 = hdo (us @ [?n]) None" "ll_last l2 = ll_last l" "ll_size l2 = ll_size l"
    using l1 d(4) chain_last [OF l1(1) dis(3)] ub uv as xs(2) chain_update [of "last us" "a # vs"]
    by (auto simp: l2_def l1_def lasto_conv set_next_def hdo_conv [of us] nth_append nth_list_update simp del: chain.simps)
  have "LL_Insert l i v = Some ((set_prev a (Some ?n) l2)\<lparr>ll_size := ll_size l2 + 1\<rparr>)"
    using find_links [OF l i, folded a_def] i d(3) pv
    by (cases "lasto us None") (simp_all add: LL_Insert_def Let_def l1_def l2_def set_prev_def)
  moreover have "links ((set_prev a (Some ?n) l2)\<lparr>ll_size := ll_size l2 + 1\<rparr>) (us @ ?n # a # vs) (ys @ v # zs)"
    using l2 dis d(1,3,5) new chain_first [OF l2(2)] as xs
    by (auto simp: links_def set_prev_def chain_append)
  ultimately show ?thesis by (auto simp: ys_def zs_def)
qed

lemma links_Set:
  assumes l: "links l as xs" and i: "0 \<le> i" "i < int (length xs)"
  shows "\<exists>l'. LL_Set l i v = Some l' \<and> links l' as (xs[nat i := v])"
proof -
  note d = linksD [OF l]
  let ?k = "nat i"
  have k: "?k < length as" "?k < length xs" using i d(6) by simp_all
  define us a vs where "us = take ?k as" and "a = as ! ?k" and "vs = drop (Suc ?k) as"
  have as: "as = us @ a # vs" unfolding us_def a_def vs_def by (rule split_nth [OF k(1)])
  define ys x zs where "ys = take ?k xs" and "x = xs ! ?k" and "zs = drop (Suc ?k) xs"
  have xs: "xs = ys @ x # zs" unfolding ys_def x_def zs_def by (rule split_nth [OF k(2)])
  have len: "length us = length ys" "?k = length ys" using k by (simp_all add: us_def ys_def)
  have "LL_Set l i v = Some (l\<lparr>ll_nodes := (ll_nodes l)[a := (ll_nodes l ! a)\<lparr>node_val := v\<rparr>]\<rparr>)"
    using find_links [OF l i] i d(3) by (simp add: LL_Set_def a_def)
  moreover have "links (l\<lparr>ll_nodes := (ll_nodes l)[a := (ll_nodes l ! a)\<lparr>node_val := v\<rparr>]\<rparr>) as (ys @ v # zs)"
    using d len by (auto simp: links_def as xs chain_append)
  moreover have "xs[?k := v] = ys @ v # zs" using len(2) by (simp add: xs)
  ultimately show ?thesis by simp
qed

subsection \<open>The loops\<close>

text \<open>What a loop sees of the node it is at.\<close>

lemma links_node:
  assumes "links l (us @ a # vs) (xs @ x # ys)" and "length us = length xs"
  shows "ll_nodes l ! a = \<lparr>node_val = x, node_prev = lasto us None, node_next = hdo vs None\<rparr>"
  using linksD(2) [OF assms(1)] assms(2) by (simp add: chain_append)

lemma links_drop_lengths: "links l (us @ vs) (xs @ ys) \<Longrightarrow> length us = length xs \<Longrightarrow> length vs = length ys"
  using linksD(6) by fastforce

lemma unlinkAll_loop_links:
  "links l (us @ vs) (xs @ ys) \<Longrightarrow> length us = length xs \<Longrightarrow>
   \<exists>l' as. unlinkAll_loop f (hdo vs None) n l = Some (l', n + int (length (filter f ys))) \<and>
     links l' as (xs @ filter (\<lambda>x. \<not> f x) ys)"
proof (induction vs arbitrary: us xs ys l n)
  case Nil
  then have "ys = []" using links_drop_lengths [of l us "[]" xs ys] by simp
  with Nil show ?case by (subst unlinkAll_loop.simps) auto
next
  case (Cons a vs)
  obtain y ys' where ys: "ys = y # ys'" using links_drop_lengths [OF Cons.prems] by (cases ys) auto
  note n = links_node [OF Cons.prems(1) [unfolded ys] Cons.prems(2)]
  show ?case
  proof (cases "f y")
    case True
    have "links (ll_removeNode a l) (us @ vs) (xs @ ys')" by (rule links_removeNode [OF Cons.prems(1) [unfolded ys] Cons.prems(2)])
    from Cons.IH [OF this Cons.prems(2), of "n + 1"] True n show ?thesis
      by (subst unlinkAll_loop.simps) (simp add: ys Let_def algebra_simps)
  next
    case False
    have "links l ((us @ [a]) @ vs) ((xs @ [y]) @ ys')" using Cons.prems(1) ys by simp
    from Cons.IH [OF this, of n] Cons.prems(2) False n show ?thesis
      by (subst unlinkAll_loop.simps) (simp add: ys Let_def)
  qed
qed

lemma removeBy_next_links:
  "links l (us @ vs) (xs @ ys) \<Longrightarrow> length us = length xs \<Longrightarrow> n \<noteq> cnt \<Longrightarrow>
   \<exists>l' as. unlink_loop node_next f cnt (hdo vs None) n l =
       Some (l', n + int (length ys) - int (length (removeN f (cnt - n) ys))) \<and>
     links l' as (xs @ removeN f (cnt - n) ys)"
proof (induction vs arbitrary: us xs ys l n)
  case Nil
  then have "ys = []" using links_drop_lengths [of l us "[]" xs ys] by simp
  with Nil show ?case by (subst unlink_loop.simps) auto
next
  case (Cons a vs)
  obtain y ys' where ys: "ys = y # ys'" using links_drop_lengths [OF Cons.prems(1,2)] by (cases ys) auto
  note n = links_node [OF Cons.prems(1) [unfolded ys] Cons.prems(2)]
  show ?case
  proof (cases "f y")
    case True
    have l: "links (ll_removeNode a l) (us @ vs) (xs @ ys')" by (rule links_removeNode [OF Cons.prems(1) [unfolded ys] Cons.prems(2)])
    show ?thesis
    proof (cases "n + 1 = cnt")
      case c: True
      then have "cnt - n = 1" by simp
      with c True n l show ?thesis by (subst unlink_loop.simps) (auto simp: ys Let_def)
    next
      case c: False
      then have "cnt - n \<noteq> 1" "cnt - n - 1 = cnt - (n + 1)" by simp_all
      with Cons.IH [OF l Cons.prems(2), of "n + 1"] c True n show ?thesis
        by (subst unlink_loop.simps) (simp add: ys Let_def algebra_simps)
    qed
  next
    case False
    have "links l ((us @ [a]) @ vs) ((xs @ [y]) @ ys')" using Cons.prems(1) ys by simp
    from Cons.IH [OF this, of n] Cons.prems(2,3) False n show ?thesis
      by (subst unlink_loop.simps) (simp add: ys Let_def algebra_simps)
  qed
qed

lemma removeBy_prev_links:
  "links l (vs @ us) (ys @ xs) \<Longrightarrow> length us = length xs \<Longrightarrow> n \<noteq> cnt \<Longrightarrow>
   \<exists>l' as. unlink_loop node_prev f cnt (lasto vs None) n l =
       Some (l', n + int (length ys) - int (length (removeN f (cnt - n) (rev ys)))) \<and>
     links l' as (rev (removeN f (cnt - n) (rev ys)) @ xs)"
proof (induction vs arbitrary: us xs ys l n rule: rev_induct)
  case Nil
  then have "ys = []" using linksD(6) by fastforce
  with Nil show ?case by (subst unlink_loop.simps) auto
next
  case (snoc a vs)
  have "length (vs @ [a]) = length ys" using linksD(6) [OF snoc.prems(1)] snoc.prems(2) by simp
  then obtain y ys' where ys: "ys = ys' @ [y]" "length vs = length ys'" by (cases ys rule: rev_cases) auto
  have l0: "links l (vs @ a # us) (ys' @ y # xs)" using snoc.prems(1) ys by simp
  note n = links_node [OF l0 ys(2)]
  show ?case
  proof (cases "f y")
    case True
    have l: "links (ll_removeNode a l) (vs @ us) (ys' @ xs)" by (rule links_removeNode [OF l0 ys(2)])
    show ?thesis
    proof (cases "n + 1 = cnt")
      case c: True
      then have "cnt - n = 1" by simp
      with c True n l show ?thesis by (subst unlink_loop.simps) (auto simp: ys Let_def)
    next
      case c: False
      then have "cnt - n \<noteq> 1" "cnt - n - 1 = cnt - (n + 1)" by simp_all
      with snoc.IH [OF l snoc.prems(2), of "n + 1"] c True n show ?thesis
        by (subst unlink_loop.simps) (simp add: ys Let_def algebra_simps)
    qed
  next
    case False
    from snoc.IH [OF l0, of n] snoc.prems(2,3) False n show ?thesis
      by (subst unlink_loop.simps) (simp add: ys Let_def algebra_simps)
  qed
qed

lemma visit_loop_chain: "chain ns p as xs None \<Longrightarrow> visit_loop ns f (hdo as None) i s = Some (foreach f i xs s)"
proof (induction as arbitrary: p xs i s)
  case (Cons a as)
  then obtain x xs' where xs: "xs = x # xs'" by (cases xs) auto
  with Cons.prems Cons.IH [of "Some a" xs'] show ?case
    by (subst visit_loop.simps) (auto split: prod.split)
qed (simp add: visit_loop.simps)

lemma copy_loop_chain:
  "chain ns p as xs None \<Longrightarrow> start \<le> stop \<Longrightarrow>
   copy_loop ns start stop (hdo as None) i acc = Some (acc @ take (nat (stop - max i start)) (drop (nat (start - i)) xs))"
proof (induction as arbitrary: p xs i acc)
  case (Cons a as)
  then obtain x xs' where xs: "xs = x # xs'" by (cases xs) auto
  show ?case
  proof (cases "i \<ge> stop")
    case True
    then show ?thesis using Cons.prems(2) by (subst copy_loop.simps) simp
  next
    case False
    have "nat (start - i) = Suc (nat (start - (i + 1)))" if "i < start" using that by simp
    moreover have "nat (stop - i) = Suc (nat (stop - (i + 1)))" using False by simp
    ultimately show ?thesis
      using Cons.prems Cons.IH [of "Some a" xs' "i + 1"] False xs by (subst copy_loop.simps) (auto simp: max_def)
  qed
qed (simp add: copy_loop.simps)

lemma foreach_contains: "foreach (\<lambda>found i x. if f x then (False, True) else (True, found)) i xs b \<longleftrightarrow> b \<or> (\<exists>x \<in> set xs. f x)"
  by (induction xs arbitrary: i) auto

subsection \<open>Every call\<close>

lemma links_Remove:
  assumes l: "links l as xs" and i: "0 \<le> i" "i < int (length xs)"
  shows "\<exists>l' as'. LL_Remove l i = Some (l', xs ! nat i) \<and> links l' as' (take (nat i) xs @ drop (Suc (nat i)) xs)"
proof -
  note d = linksD [OF l]
  let ?k = "nat i"
  have k: "?k < length as" "?k < length xs" using i d(6) by simp_all
  have l': "links l (take ?k as @ as ! ?k # drop (Suc ?k) as) (take ?k xs @ xs ! ?k # drop (Suc ?k) xs)"
    using l split_nth [OF k(1)] split_nth [OF k(2)] by simp
  have len: "length (take ?k as) = length (take ?k xs)" using k by simp
  have "LL_Remove l i = Some (ll_removeNode (as ! ?k) l, xs ! ?k)"
    using find_links [OF l i] i d(3) links_node [OF l' len] by (simp add: LL_Remove_def)
  with links_removeNode [OF l' len] show ?thesis by blast
qed

lemma links_RemoveLast:
  assumes l: "links l as xs"
  shows "\<exists>l' as'. LL_RemoveLast l = (l', if xs = [] then None else Some (last xs)) \<and> links l' as' (butlast xs)"
proof (cases as rule: rev_cases)
  case Nil
  then have "xs = []" using linksD(6) [OF l] by simp
  with l linksD(5) [OF l] Nil show ?thesis by (auto simp: LL_RemoveLast_def)
next
  case (snoc us a)
  then obtain ys y where xs: "xs = ys @ [y]" "length us = length ys" using linksD(6) [OF l] by (cases xs rule: rev_cases) auto
  have l': "links l (us @ a # []) (ys @ y # [])" using l snoc xs by simp
  from links_removeNode [OF l' xs(2)] links_node [OF l' xs(2)] linksD(5) [OF l] snoc xs show ?thesis
    by (auto simp: LL_RemoveLast_def)
qed

abbreviation answers :: "'a LinkedList \<Rightarrow> 'a list \<Rightarrow> 'a list_op \<Rightarrow> bool" where
  "answers l xs c \<equiv> (case LL_exec l c of None \<Rightarrow> list_spec xs c = None
     | Some (l', a) \<Rightarrow> \<exists>ys. list_spec xs c = Some (ys, a) \<and> LL_rep l' ys)"

lemma answers_reads:
  assumes l: "links l as xs"
  shows "answers l xs (LGet i)" "answers l xs LLen" "answers l xs (LContains f)" "answers l xs (LRange a b)"
proof -
  note d = linksD [OF l]
  have r: "LL_rep l xs" using l by (auto simp: LL_rep_def)
  show "answers l xs (LGet i)"
    using r find_links [OF l, of i] d(3,6) chain_nth [OF d(2), of "nat i"] by (auto simp: LL_Get_def go_index_def)
  show "answers l xs LLen" using r d(3) by (auto simp: LL_Len_def)
  show "answers l xs (LContains f)"
    using r d(4) visit_loop_chain [OF d(2), of _ 0 False] by (auto simp: LL_Contains_def LL_ForEach_def foreach_contains)
  show "answers l xs (LRange a b)"
    using r d(3,4) copy_loop_chain [OF d(2), of a b 0 "[]"] by (auto simp: LL_Range_def max_def nat_diff_distrib)
qed

lemma answers_at:
  assumes l: "links l as xs"
  shows "LL_ok xs (LSet i v) \<Longrightarrow> answers l xs (LSet i v)" "answers l xs (LInsert i v)" "answers l xs (LRemove i)"
proof -
  note d = linksD [OF l]
  have "answers l xs (LSet i v) \<and> answers l xs (LInsert i v) \<and> answers l xs (LRemove i)" if "0 \<le> i" "i < int (length xs)"
    using that links_Set [OF l that, of v] links_Insert [OF l that, of v] links_Remove [OF l that]
    by (auto simp: LL_rep_def go_update_def go_insert_def go_index_def)
  moreover have "(LL_ok xs (LSet i v) \<longrightarrow> answers l xs (LSet i v)) \<and> answers l xs (LInsert i v) \<and> answers l xs (LRemove i)"
    if "\<not> (0 \<le> i \<and> i < int (length xs))"
    using that d(3,5,6) links_Add [OF l, of v]
    by (auto simp: LL_Set_def ll_find_def quot_def go_update_def LL_Insert_def go_insert_def LL_rep_def LL_Remove_def go_index_def)
  ultimately show "LL_ok xs (LSet i v) \<Longrightarrow> answers l xs (LSet i v)" "answers l xs (LInsert i v)" "answers l xs (LRemove i)"
    by blast+
qed

lemma answers_values:
  assumes l: "links l as xs"
  shows "answers l xs (LAdd v)" "answers l xs LRemoveLast" "xs \<noteq> [] \<Longrightarrow> answers l xs (LRemoveAllByVal f)"
    "n \<noteq> 0 \<Longrightarrow> answers l xs (LRemoveByVal f n)" "n \<noteq> 0 \<Longrightarrow> answers l xs (LReverseRemoveByVal f n)"
proof -
  note d = linksD [OF l]
  have l0: "links l ([] @ as) ([] @ xs)" "links l (as @ []) (xs @ [])" using l by simp_all
  show "answers l xs (LAdd v)" using links_Add [OF l, of v] by (auto simp: LL_rep_def)
  show "answers l xs LRemoveLast" using links_RemoveLast [OF l] by (auto simp: LL_rep_def)
  show "answers l xs (LRemoveAllByVal f)" if "xs \<noteq> []"
    using unlinkAll_loop_links [OF l0(1), of f 0] that d(4) by (auto simp: LL_rep_def LL_RemoveAllByVal_def)
  show "answers l xs (LRemoveByVal f n)" if "n \<noteq> 0"
    using removeBy_next_links [OF l0(1), of 0 n f] that d(4) by (auto simp: LL_rep_def LL_RemoveByVal_def Let_def)
  show "answers l xs (LReverseRemoveByVal f n)" if "n \<noteq> 0"
    using removeBy_prev_links [OF l0(2), of 0 n f] that d(5) by (auto simp: LL_rep_def LL_ReverseRemoveByVal_def Let_def)
qed

lemma LL_exec_law:
  assumes "LL_rep l xs" and "LL_ok xs c"
  shows "answers l xs c"
proof -
  obtain as where l: "links l as xs" using assms(1) by (auto simp: LL_rep_def)
  show ?thesis
    using assms(2) by (induction c)
      (simp_all only: answers_reads [OF l] answers_at [OF l] answers_values [OF l] LL_ok.simps simp_thms)
qed

interpretation ll: go_list LL_exec LL_rep LL_ok LL_empty
  by unfold_locales (rule LL_empty_rep, rule LL_exec_law)

text \<open>
  C12: A client that makes any sequence of calls on a linked list gets the answers that a plain list
  gives, panics included: the pointers in both directions, the two ends and the size always agree
  and every loop over them ends. Three cases are left out, in which the code differs from the paged
  list: writing at the index after the last, removing with a count of 0, and \<^verbatim>\<open>RemoveAllByVal\<close> on the
  empty list.
\<close>

theorem LinkedList_refines_list:
  "calls_ok LL_ok [] cs \<Longrightarrow> list_run LL_exec LL_empty cs = list_run list_spec [] cs"
  by (rule ll.fresh_run)

theorem LinkedList_refines_list_witness:
  "list_run LL_exec LL_empty [LAdd (1 :: int), LAdd 2, LInsert 1 3, LReverseRemoveByVal (\<lambda>x. x \<le> 2) 1, LGet 1, LRange 0 2]
   = Some [LUnit, LUnit, LUnit, LNum 1, LVal 3, LVals [1, 3]]"
  using LinkedList_refines_list [of "[LAdd (1 :: int), LAdd 2, LInsert 1 3, LReverseRemoveByVal (\<lambda>x. x \<le> 2) 1, LGet 1, LRange 0 2]"]
  by (simp add: go_insert_def go_index_def)

end
