(* ===== verification/PubSub.thy ===== *)
theory PubSub
  imports Database LinkedList Connection
begin

text \<open>
  \<^verbatim>\<open>pubsub/pubsub.go\<close> and \<^verbatim>\<open>hub.go\<close>: channels and their subscribers. A client is the address of its
  connection record. The calls run under the locks of their channels, one after the other here.
\<close>

record hub =
  hub_subs :: "nat LinkedList ConcurrentDict"
  conns :: "nat \<Rightarrow> Connection"

definition MakeHub :: "nat LinkedList ConcurrentDict" where
  "MakeHub = MakeConcurrent 4"

definition onConn :: "nat \<Rightarrow> (Connection \<Rightarrow> Connection) \<Rightarrow> hub \<Rightarrow> hub" where
  "onConn c f h = h\<lparr>conns := (conns h)(c := f (conns h c))\<rparr>"

definition makeMsg :: "string \<Rightarrow> string \<Rightarrow> int \<Rightarrow> string" where
  "makeMsg t channel code =
     ''*3'' @ CRLF @ ''$'' @ FormatInt (int (length t)) @ CRLF @ t @ CRLF @
     ''$'' @ FormatInt (int (length channel)) @ CRLF @ channel @ CRLF @
     '':'' @ FormatInt code @ CRLF"

definition unSubscribeNothing :: string where
  "unSubscribeNothing = ''*3'' @ CRLF @ ''$11'' @ CRLF @ ''unsubscribe'' @ CRLF @ ''$-1'' @ [CHR 0x0A] @ '':0'' @ CRLF"

text \<open>The list of a channel is changed in place: the dictionary keeps the pointer to it.\<close>

definition subscribe0 :: "string \<Rightarrow> nat \<Rightarrow> hub \<Rightarrow> (hub \<times> bool) option" where
  "subscribe0 channel client h =
     (let h = onConn client (Conn_Subscribe channel) h;
          (h, subscribers) = (case CD_Get (hub_subs h) channel of
              Some l \<Rightarrow> (h, l)
            | None \<Rightarrow> (h\<lparr>hub_subs := fst (CD_Put (hub_subs h) channel (LL_Make []))\<rparr>, LL_Make []))
      in do {
        found \<leftarrow> LL_Contains (\<lambda>a. a = client) subscribers;
        if found then Some (h, False)
        else Some (h\<lparr>hub_subs := fst (CD_Put (hub_subs h) channel (LL_Add client subscribers))\<rparr>, True)
      })"

definition unsubscribe0 :: "string \<Rightarrow> nat \<Rightarrow> hub \<Rightarrow> (hub \<times> bool) option" where
  "unsubscribe0 channel client h =
     (let h = onConn client (Conn_UnSubscribe channel) h in
      case CD_Get (hub_subs h) channel of
        None \<Rightarrow> Some (h, False)
      | Some l \<Rightarrow> do {
          (subscribers, removed) \<leftarrow> LL_RemoveAllByVal (\<lambda>a. a = client) l;
          if LL_Len subscribers = 0 then Some (h\<lparr>hub_subs := fst (CD_Remove (hub_subs h) channel)\<rparr>, True)
          else Some (h\<lparr>hub_subs := fst (CD_Put (hub_subs h) channel subscribers)\<rparr>, True)
        })"

fun subscribe_loop :: "nat \<Rightarrow> string list \<Rightarrow> hub \<Rightarrow> hub option" where
  "subscribe_loop c [] h = Some h"
| "subscribe_loop c (channel # channels) h = do {
     (h, new) \<leftarrow> subscribe0 channel c h;
     subscribe_loop c channels
       (if new then onConn c (Conn_Write (makeMsg ''subscribe'' channel (SubsCount (conns h c)))) h else h)
   }"

definition Subscribe :: "nat \<Rightarrow> cmdline \<Rightarrow> hub \<Rightarrow> (hub \<times> reply) option" where
  "Subscribe c args h = map_option (\<lambda>h. (h, NoReply)) (subscribe_loop c (map str args) h)"

fun leave_loop :: "nat \<Rightarrow> string list \<Rightarrow> hub \<Rightarrow> hub option" where
  "leave_loop c [] h = Some h"
| "leave_loop c (channel # channels) h = do { (h, done) \<leftarrow> unsubscribe0 channel c h; leave_loop c channels h }"

definition UnsubscribeAll :: "nat \<Rightarrow> hub \<Rightarrow> hub option" where
  "UnsubscribeAll c h = leave_loop c (GetChannels (conns h c)) h"

fun unsubscribe_loop :: "nat \<Rightarrow> string list \<Rightarrow> hub \<Rightarrow> hub option" where
  "unsubscribe_loop c [] h = Some h"
| "unsubscribe_loop c (channel # channels) h = do {
     (h, found) \<leftarrow> unsubscribe0 channel c h;
     unsubscribe_loop c channels
       (if found then onConn c (Conn_Write (makeMsg ''unsubscribe'' channel (SubsCount (conns h c)))) h else h)
   }"

definition UnSubscribe :: "nat \<Rightarrow> cmdline \<Rightarrow> hub \<Rightarrow> (hub \<times> reply) option" where
  "UnSubscribe c args h =
     (let channels = (if length args > 0 then map str args else GetChannels (conns h c)) in
      if length channels = 0 then Some (onConn c (Conn_Write unSubscribeNothing) h, NoReply)
      else map_option (\<lambda>h. (h, NoReply)) (unsubscribe_loop c channels h))"

definition message :: "string \<Rightarrow> bytes \<Rightarrow> string" where
  "message channel m = ToBytes (MultiBulkReply [Some ''message'', Some channel, m])"

definition Publish :: "cmdline \<Rightarrow> hub \<Rightarrow> (hub \<times> reply) option" where
  "Publish args h =
     (if length args \<noteq> 2 then Some (h, ArgNumErrReply ''publish'')
      else let channel = str (args ! 0) in
        case CD_Get (hub_subs h) channel of
          None \<Rightarrow> Some (h, IntReply 0)
        | Some subscribers \<Rightarrow> do {
            h \<leftarrow> LL_ForEach subscribers (\<lambda>h i client. (True, onConn client (Conn_Write (message channel (args ! 1))) h)) h;
            Some (h, IntReply (LL_Len subscribers))
          })"

text \<open>
  \<^verbatim>\<open>closeClient\<close> of \<^verbatim>\<open>redis/server/std/server.go\<close>, with \<^verbatim>\<open>AfterClientClose\<close>: the record is reset first, then
  its channels are left.
\<close>

definition closeClient :: "nat \<Rightarrow> hub \<Rightarrow> hub option" where
  "closeClient c h = UnsubscribeAll c (onConn c Conn_Close h)"

section \<open>Specification\<close>

text \<open>What clients do, and who is subscribed to what afterwards.\<close>

datatype ps_op = PSubscribe nat cmdline | PUnSubscribe nat cmdline | PLeave nat | PPublish cmdline

fun ps_exec :: "ps_op \<Rightarrow> hub \<Rightarrow> hub option" where
  "ps_exec (PSubscribe c args) h = map_option fst (Subscribe c args h)"
| "ps_exec (PUnSubscribe c args) h = map_option fst (UnSubscribe c args h)"
| "ps_exec (PLeave c) h = UnsubscribeAll c h"
| "ps_exec (PPublish args) h = map_option fst (Publish args h)"

fun ps_run :: "ps_op list \<Rightarrow> hub \<Rightarrow> hub option" where
  "ps_run [] h = Some h"
| "ps_run (op # ops) h = do { h \<leftarrow> ps_exec op h; ps_run ops h }"

fun ps_spec :: "ps_op \<Rightarrow> (nat \<Rightarrow> string set) \<Rightarrow> nat \<Rightarrow> string set" where
  "ps_spec (PSubscribe c args) S = S(c := S c \<union> str ` set args)"
| "ps_spec (PUnSubscribe c args) S = S(c := (if args = [] then {} else S c - str ` set args))"
| "ps_spec (PLeave c) S = S(c := {})"
| "ps_spec (PPublish args) S = S"

definition subscriptions :: "ps_op list \<Rightarrow> nat \<Rightarrow> string set" where
  "subscriptions ops = foldl (\<lambda>S op. ps_spec op S) (\<lambda>_. {}) ops"

definition channels_of :: "hub \<Rightarrow> nat \<Rightarrow> string set" where
  "channels_of h c = fst ` set (subs (conns h c))"

text \<open>The subscribers of a channel are the clients that have it among their channels, each once.\<close>

definition chan_ok :: "nat LinkedList option \<Rightarrow> nat set \<Rightarrow> bool" where
  "chan_ok l C \<longleftrightarrow> (case l of None \<Rightarrow> C = {} | Some l \<Rightarrow> \<exists>xs. LL_rep l xs \<and> distinct xs \<and> xs \<noteq> [] \<and> set xs = C)"

definition hub_ok :: "hub \<Rightarrow> bool" where
  "hub_ok h \<longleftrightarrow> CD_inv (hub_subs h) \<and>
     (\<forall>channel. chan_ok (CD_Get (hub_subs h) channel) {c. channel \<in> channels_of h c})"

definition freshHub :: hub where
  "freshHub = \<lparr>hub_subs = MakeHub, conns = \<lambda>_. newConnection\<rparr>"

section \<open>Lemmas\<close>

lemma onConn_sel [simp]: "hub_subs (onConn c f h) = hub_subs h" "conns (onConn c f h) c' = (if c' = c then f (conns h c) else conns h c')"
  by (simp_all add: onConn_def)

lemma subs_Write [simp]: "subs (Conn_Write b c) = subs c"
  by (simp add: Conn_Write_def)

lemma channels_of_hub [simp]: "channels_of (h\<lparr>hub_subs := d\<rparr>) = channels_of h"
  by (simp add: channels_of_def fun_eq_iff)

lemma channels_of_Write [simp]: "channels_of (onConn c (Conn_Write b) h) = channels_of h"
  by (simp add: channels_of_def fun_eq_iff)

lemma channels_of_Subscribe [simp]:
  "channels_of (onConn c (Conn_Subscribe ch) h) = (channels_of h)(c := insert ch (channels_of h c))"
  by (simp add: channels_of_def fun_eq_iff Conn_Subscribe_def fst_map_put)

lemma channels_of_UnSubscribe [simp]:
  "channels_of (onConn c (Conn_UnSubscribe ch) h) = (channels_of h)(c := channels_of h c - {ch})"
  by (auto simp: channels_of_def fun_eq_iff Conn_UnSubscribe_def map_del_def)

lemma hub_ok_Write [simp]: "hub_ok (onConn c (Conn_Write b) h) = hub_ok h"
  by (simp add: hub_ok_def)

subsection \<open>Lists of subscribers\<close>

lemma LL_Contains_rep: "LL_rep l xs \<Longrightarrow> LL_Contains f l = Some (\<exists>x \<in> set xs. f x)"
  using LL_exec_law [of l xs "LContains f"] by (auto split: option.splits)

lemma LL_Add_rep: "LL_rep l xs \<Longrightarrow> LL_rep (LL_Add v l) (xs @ [v])"
  using LL_exec_law [of l xs "LAdd v"] by simp

lemma LL_RemoveAll_rep:
  "LL_rep l xs \<Longrightarrow> xs \<noteq> [] \<Longrightarrow> \<exists>l' n. LL_RemoveAllByVal f l = Some (l', n) \<and> LL_rep l' (filter (\<lambda>x. \<not> f x) xs)"
  using LL_exec_law [of l xs "LRemoveAllByVal f"] by (auto split: option.splits)

lemma LL_Len_rep: "LL_rep l xs \<Longrightarrow> LL_Len l = int (length xs)"
  using LL_exec_law [of l xs LLen] by simp

lemma LL_ForEach_rep: "LL_rep l xs \<Longrightarrow> LL_ForEach l f s = Some (foreach f 0 xs s)"
  using linksD(2,4) visit_loop_chain by (fastforce simp: LL_rep_def LL_ForEach_def)

lemma LL_Make_rep: "LL_rep (LL_Make []) []"
  by (simp add: LL_Make_def LL_empty_rep)

lemma chan_ok_None: "chan_ok None C \<longleftrightarrow> C = {}"
  by (simp add: chan_ok_def)

lemma chan_okE:
  assumes "chan_ok (Some l) C"
  obtains xs where "LL_rep l xs" "distinct xs" "xs \<noteq> []" "set xs = C"
  using assms by (auto simp: chan_ok_def)

lemma chan_okI: "LL_rep l xs \<Longrightarrow> distinct xs \<Longrightarrow> xs \<noteq> [] \<Longrightarrow> set xs = C \<Longrightarrow> chan_ok (Some l) C"
  by (auto simp: chan_ok_def)

subsection \<open>Joining and leaving\<close>

lemma hub_ok_change:
  assumes "hub_ok h" and "\<And>ch. ch \<noteq> channel \<Longrightarrow> {c. ch \<in> S c} = {c. ch \<in> channels_of h c}"
    and "CD_inv d" and "\<And>ch. ch \<noteq> channel \<Longrightarrow> CD_Get d ch = CD_Get (hub_subs h) ch"
    and "chan_ok (CD_Get d channel) {c. channel \<in> S c}" and "hub_subs h' = d" and "channels_of h' = S"
  shows "hub_ok h'"
  unfolding hub_ok_def assms(6,7)
proof (intro conjI allI)
  fix ch show "chan_ok (CD_Get d ch) {c. ch \<in> S c}"
    using assms(1,2,4,5) by (cases "ch = channel") (simp_all add: hub_ok_def)
qed (rule assms(3))

lemma subscribe0_ok:
  assumes "hub_ok h"
  shows "\<exists>h' b. subscribe0 channel c h = Some (h', b) \<and> hub_ok h' \<and>
    channels_of h' = (channels_of h)(c := insert channel (channels_of h c))"
proof -
  let ?S = "(channels_of h)(c := insert channel (channels_of h c))"
  let ?h = "onConn c (Conn_Subscribe channel) h"
  have inv: "CD_inv (hub_subs h)" using assms by (simp add: hub_ok_def)
  have ch: "chan_ok (CD_Get (hub_subs h) channel) {c. channel \<in> channels_of h c}" using assms by (simp add: hub_ok_def)
  have C: "{c'. channel \<in> ?S c'} = insert c {c. channel \<in> channels_of h c}" by auto
  have other: "\<And>ch. ch \<noteq> channel \<Longrightarrow> {c'. ch \<in> ?S c'} = {c. ch \<in> channels_of h c}" by auto
  note change = hub_ok_change [where channel = channel and S = ?S, OF assms other]
  show ?thesis
  proof (cases "CD_Get (hub_subs h) channel")
    case None
    let ?l = "LL_Add c (LL_Make [])"
    let ?d = "fst (CD_Put (fst (CD_Put (hub_subs h) channel (LL_Make []))) channel ?l)"
    have e: "subscribe0 channel c h = Some (?h\<lparr>hub_subs := ?d\<rparr>, True)"
      using None by (simp add: subscribe0_def Let_def LL_Contains_rep [OF LL_Make_rep])
    have k: "chan_ok (Some ?l) {c'. channel \<in> ?S c'}"
      unfolding C using ch None LL_Add_rep [OF LL_Make_rep, of c] by (intro chan_okI) (auto simp: chan_ok_None)
    have "hub_ok (?h\<lparr>hub_subs := ?d\<rparr>)" by (rule change [where d = ?d]) (use inv k in simp_all)
    then show ?thesis by (intro exI) (rule conjI [OF e conjI], assumption, simp only: channels_of_hub channels_of_Subscribe channels_of_UnSubscribe)
  next
    case (Some l)
    obtain xs where xs: "LL_rep l xs" "distinct xs" "xs \<noteq> []" "set xs = {c. channel \<in> channels_of h c}"
      using ch [unfolded Some] by (rule chan_okE)
    show ?thesis
    proof (cases "c \<in> set xs")
      case True
      then have e: "subscribe0 channel c h = Some (?h, False)"
        using Some by (simp add: subscribe0_def LL_Contains_rep [OF xs(1)])
      have k: "chan_ok (CD_Get (hub_subs h) channel) {c'. channel \<in> ?S c'}"
      proof -
        have "insert c {c. channel \<in> channels_of h c} = {c. channel \<in> channels_of h c}" using True xs(4) by auto
        with ch show ?thesis unfolding C by (rule ssubst [rotated])
      qed
      have "hub_ok ?h" by (rule change [where d = "hub_subs h"]) (use inv k in simp_all)
      then show ?thesis by (intro exI) (rule conjI [OF e conjI], assumption, simp only: channels_of_hub channels_of_Subscribe channels_of_UnSubscribe)
    next
      case False
      let ?d = "fst (CD_Put (hub_subs h) channel (LL_Add c l))"
      have e: "subscribe0 channel c h = Some (?h\<lparr>hub_subs := ?d\<rparr>, True)"
        using Some False by (simp add: subscribe0_def LL_Contains_rep [OF xs(1)])
      have k: "chan_ok (Some (LL_Add c l)) {c'. channel \<in> ?S c'}"
        unfolding C xs(4) [symmetric] by (rule chan_okI [OF LL_Add_rep [OF xs(1)]]) (use xs(2) False in simp_all)
      have "hub_ok (?h\<lparr>hub_subs := ?d\<rparr>)" by (rule change [where d = ?d]) (use inv k in simp_all)
      then show ?thesis by (intro exI) (rule conjI [OF e conjI], assumption, simp only: channels_of_hub channels_of_Subscribe channels_of_UnSubscribe)
    qed
  qed
qed

lemma unsubscribe0_ok:
  assumes "hub_ok h"
  shows "\<exists>h' b. unsubscribe0 channel c h = Some (h', b) \<and> hub_ok h' \<and>
    channels_of h' = (channels_of h)(c := channels_of h c - {channel})"
proof -
  let ?S = "(channels_of h)(c := channels_of h c - {channel})"
  let ?h = "onConn c (Conn_UnSubscribe channel) h"
  have inv: "CD_inv (hub_subs h)" using assms by (simp add: hub_ok_def)
  have ch: "chan_ok (CD_Get (hub_subs h) channel) {c. channel \<in> channels_of h c}" using assms by (simp add: hub_ok_def)
  have C: "{c'. channel \<in> ?S c'} = {c. channel \<in> channels_of h c} - {c}" by auto
  have other: "\<And>ch. ch \<noteq> channel \<Longrightarrow> {c'. ch \<in> ?S c'} = {c. ch \<in> channels_of h c}" by auto
  note change = hub_ok_change [where channel = channel and S = ?S, OF assms other]
  show ?thesis
  proof (cases "CD_Get (hub_subs h) channel")
    case None
    then have e: "unsubscribe0 channel c h = Some (?h, False)" by (simp add: unsubscribe0_def)
    have k: "chan_ok (CD_Get (hub_subs h) channel) {c'. channel \<in> ?S c'}" unfolding C using ch None by (simp add: chan_ok_None)
    have "hub_ok ?h" by (rule change [where d = "hub_subs h"]) (use inv k in simp_all)
    then show ?thesis by (intro exI) (rule conjI [OF e conjI], assumption, simp only: channels_of_hub channels_of_Subscribe channels_of_UnSubscribe)
  next
    case (Some l)
    obtain xs where xs: "LL_rep l xs" "distinct xs" "xs \<noteq> []" "set xs = {c. channel \<in> channels_of h c}"
      using ch [unfolded Some] by (rule chan_okE)
    obtain l' n where l': "LL_RemoveAllByVal (\<lambda>a. a = c) l = Some (l', n)" "LL_rep l' (filter (\<lambda>x. x \<noteq> c) xs)"
      using LL_RemoveAll_rep [OF xs(1,3), of "\<lambda>a. a = c"] by auto
    let ?d = "if LL_Len l' = 0 then fst (CD_Remove (hub_subs h) channel) else fst (CD_Put (hub_subs h) channel l')"
    have e: "unsubscribe0 channel c h = Some (?h\<lparr>hub_subs := ?d\<rparr>, True)" using Some l' by (simp add: unsubscribe0_def)
    have k: "chan_ok (CD_Get ?d channel) {c'. channel \<in> ?S c'}"
    proof (cases "filter (\<lambda>x. x \<noteq> c) xs = []")
      case True
      then have "set xs - {c} = {}" by (auto simp: filter_empty_conv)
      with True inv LL_Len_rep [OF l'(2)] show ?thesis unfolding C xs(4) [symmetric] by (simp add: chan_ok_None)
    next
      case False
      have "chan_ok (Some l') ({c. channel \<in> channels_of h c} - {c})"
        unfolding xs(4) [symmetric] by (rule chan_okI [OF l'(2)]) (use xs(2) False in auto)
      with False inv LL_Len_rep [OF l'(2)] show ?thesis unfolding C by simp
    qed
    have "hub_ok (?h\<lparr>hub_subs := ?d\<rparr>)" by (rule change [where d = ?d]) (use inv k in simp_all)
    then show ?thesis by (intro exI) (rule conjI [OF e conjI], assumption, simp only: channels_of_hub channels_of_Subscribe channels_of_UnSubscribe)
  qed
qed

lemma subscribe_loop_ok:
  "hub_ok h \<Longrightarrow> \<exists>h'. subscribe_loop c channels h = Some h' \<and> hub_ok h' \<and>
     channels_of h' = (channels_of h)(c := channels_of h c \<union> set channels)"
proof (induction channels arbitrary: h)
  case (Cons ch channels)
  obtain h1 b where h1: "subscribe0 ch c h = Some (h1, b)" "hub_ok h1" "channels_of h1 = (channels_of h)(c := insert ch (channels_of h c))"
    using subscribe0_ok [OF Cons.prems] by blast
  let ?h = "if b then onConn c (Conn_Write (makeMsg ''subscribe'' ch (SubsCount (conns h1 c)))) h1 else h1"
  have "hub_ok ?h" "channels_of ?h = channels_of h1" using h1(2) by simp_all
  with Cons.IH [of ?h] h1 show ?case by (auto simp: fun_eq_iff)
qed (auto simp: fun_eq_iff)

lemma unsubscribe_loops_ok:
  "hub_ok h \<Longrightarrow> \<exists>h'. unsubscribe_loop c channels h = Some h' \<and> hub_ok h' \<and>
     channels_of h' = (channels_of h)(c := channels_of h c - set channels)" (is "_ \<Longrightarrow> ?A h")
  "hub_ok h \<Longrightarrow> \<exists>h'. leave_loop c channels h = Some h' \<and> hub_ok h' \<and>
     channels_of h' = (channels_of h)(c := channels_of h c - set channels)" (is "_ \<Longrightarrow> ?B h")
proof (induction channels arbitrary: h)
  case (Cons ch channels)
  { case 1
    obtain h1 b where h1: "unsubscribe0 ch c h = Some (h1, b)" "hub_ok h1" "channels_of h1 = (channels_of h)(c := channels_of h c - {ch})"
      using unsubscribe0_ok [OF 1] by blast
    let ?h = "if b then onConn c (Conn_Write (makeMsg ''unsubscribe'' ch (SubsCount (conns h1 c)))) h1 else h1"
    have "hub_ok ?h" "channels_of ?h = channels_of h1" using h1(2) by simp_all
    with Cons.IH(1) [of ?h] h1 show ?case by (auto simp: fun_eq_iff)
  next
    case 2
    obtain h1 b where h1: "unsubscribe0 ch c h = Some (h1, b)" "hub_ok h1" "channels_of h1 = (channels_of h)(c := channels_of h c - {ch})"
      using unsubscribe0_ok [OF 2] by blast
    with Cons.IH(2) [of h1] show ?case by (auto simp: fun_eq_iff) }
qed (auto simp: fun_eq_iff)

subsection \<open>Publishing\<close>

lemma publish_loop:
  "hub_subs (foreach (\<lambda>h i client. (True, onConn client (Conn_Write b) h)) n xs h) = hub_subs h"
  "channels_of (foreach (\<lambda>h i client. (True, onConn client (Conn_Write b) h)) n xs h) = channels_of h"
  "distinct xs \<Longrightarrow> b \<noteq> [] \<Longrightarrow> sent (conns (foreach (\<lambda>h i client. (True, onConn client (Conn_Write b) h)) n xs h) c)
     = sent (conns h c) @ (if c \<in> set xs then b else [])"
  by (induction xs arbitrary: n h) (auto simp: Conn_Write_def)

lemma message_nonempty: "message ch m \<noteq> []"
  by (simp add: message_def multi_bulk_bytes_def)

lemma Publish_ok:
  assumes "hub_ok h"
  shows "\<exists>h'. Publish [channel, m] h = Some (h', IntReply (int (card {c. str channel \<in> channels_of h c}))) \<and>
    hub_ok h' \<and> channels_of h' = channels_of h \<and>
    (\<forall>c. sent (conns h' c) = sent (conns h c) @ (if str channel \<in> channels_of h c then message (str channel) m else []))"
proof (cases "CD_Get (hub_subs h) (str channel)")
  case None
  then have e: "{c. str channel \<in> channels_of h c} = {}"
    using assms by (auto simp: hub_ok_def dest!: spec [of _ "str channel"] simp: chan_ok_None)
  then have "\<forall>c. str channel \<notin> channels_of h c" by auto
  with None e assms show ?thesis by (simp add: Publish_def)
next
  case (Some l)
  then have "chan_ok (Some l) {c. str channel \<in> channels_of h c}" using assms by (metis hub_ok_def)
  then obtain xs where xs: "LL_rep l xs" "distinct xs" "set xs = {c. str channel \<in> channels_of h c}"
    by (rule chan_okE)
  let ?h = "foreach (\<lambda>h i client. (True, onConn client (Conn_Write (message (str channel) m)) h)) 0 xs h"
  have "Publish [channel, m] h = Some (?h, IntReply (int (length xs)))"
    using Some by (simp add: Publish_def LL_ForEach_rep [OF xs(1)] LL_Len_rep [OF xs(1)])
  moreover have "length xs = card {c. str channel \<in> channels_of h c}" using xs distinct_card by metis
  moreover have "hub_ok ?h" using assms unfolding hub_ok_def publish_loop(1,2) .
  moreover have "c \<in> set xs \<longleftrightarrow> str channel \<in> channels_of h c" for c using xs(3) by simp
  ultimately show ?thesis using publish_loop(2,3) xs(2) message_nonempty by (intro exI [of _ ?h]) simp
qed

subsection \<open>Any sequence of calls\<close>

lemma ps_exec_ok:
  assumes "hub_ok h"
  shows "\<exists>h'. ps_exec op h = Some h' \<and> hub_ok h' \<and> channels_of h' = ps_spec op (channels_of h)"
proof (cases op)
  case (PSubscribe c args)
  then show ?thesis using subscribe_loop_ok [OF assms, of c "map str args"] by (auto simp: Subscribe_def)
next
  case (PUnSubscribe c args)
  have ch: "set (GetChannels (conns h c)) = channels_of h c" by (simp add: GetChannels_def channels_of_def)
  show ?thesis
  proof (cases "(if args = [] then GetChannels (conns h c) else map str args) = []")
    case True
    then have "args = []" "GetChannels (conns h c) = []" by (auto split: if_splits)
    with PUnSubscribe assms ch show ?thesis by (auto simp: UnSubscribe_def fun_eq_iff)
  next
    case False
    with PUnSubscribe ch show ?thesis
      using unsubscribe_loops_ok(1) [OF assms, of c "if args = [] then GetChannels (conns h c) else map str args"]
      by (auto simp: UnSubscribe_def Let_def)
  qed
next
  case (PLeave c)
  then show ?thesis
    using unsubscribe_loops_ok(2) [OF assms, of c "GetChannels (conns h c)"]
    by (auto simp: UnsubscribeAll_def GetChannels_def channels_of_def)
next
  case (PPublish args)
  show ?thesis
  proof (cases "length args = 2")
    case True
    then obtain a b where "args = [a, b]" by (auto simp: numeral_2_eq_2 length_Suc_conv)
    with PPublish Publish_ok [OF assms, of a b] show ?thesis by auto
  qed (use PPublish assms in \<open>simp add: Publish_def\<close>)
qed

lemma ps_run_ok:
  "hub_ok h \<Longrightarrow> \<exists>h'. ps_run ops h = Some h' \<and> hub_ok h' \<and> channels_of h' = foldl (\<lambda>S op. ps_spec op S) (channels_of h) ops"
proof (induction ops arbitrary: h)
  case (Cons op ops)
  then show ?case using ps_exec_ok [OF Cons.prems, of op] by fastforce
qed simp

lemma freshHub_ok: "hub_ok freshHub" "channels_of freshHub = (\<lambda>_. {})"
  by (auto simp: hub_ok_def freshHub_def MakeHub_def channels_of_def newConnection_def chan_ok_None CD_inv_Make)

text \<open>
  C13: A message reaches the subscribers and nobody else. After any sequence of calls in which clients
  subscribe, unsubscribe, leave all channels and publish, \<^verbatim>\<open>PUBLISH\<close> writes the message once to each
  client that is then subscribed to the channel, writes nothing to the others, and answers with
  their number; none of the calls panics or loops.
\<close>

theorem Publish_reaches_subscribers:
  "\<exists>h h'. ps_run ops freshHub = Some h \<and>
     Publish [channel, m] h = Some (h', IntReply (int (card {c. str channel \<in> subscriptions ops c}))) \<and>
     (\<forall>c. sent (conns h' c) = sent (conns h c) @ (if str channel \<in> subscriptions ops c then message (str channel) m else []))"
proof -
  obtain h where h: "ps_run ops freshHub = Some h" "hub_ok h" "channels_of h = subscriptions ops"
    using ps_run_ok [OF freshHub_ok(1), of ops] unfolding freshHub_ok(2) subscriptions_def by blast
  from Publish_ok [OF h(2), of channel m] h(1) show ?thesis unfolding h(3) by blast
qed



end
