(* ===== verification/Kinds.thy ===== *)
theory Kinds
  imports Transaction
begin

text \<open>
  Types of keys: a command that works on one kind of value refuses a key that holds another kind.
\<close>

section \<open>Specification\<close>

datatype kind = KString | KList | KHash | KSet | KZSet

fun kind_of :: "'f entity \<Rightarrow> kind" where
  "kind_of (EString b) = KString"
| "kind_of (EList l) = KList"
| "kind_of (EHash d) = KHash"
| "kind_of (ESet s) = KSet"
| "kind_of (EZSet z) = KZSet"

text \<open>
  The kind of value that a command expects at its first key. The commands that replace a value
  whatever it is, and those on several sets, are not listed.
\<close>

definition expects :: "string \<Rightarrow> kind option" where
  "expects = map_of (
     map (\<lambda>n. (n, KString)) [''get'', ''getex'', ''getset'', ''getdel'', ''incr'', ''incrby'', ''incrbyfloat'', ''decr'',
       ''decrby'', ''strlen'', ''append'', ''setrange'', ''getrange'', ''setbit'', ''getbit'', ''bitcount'', ''bitpos''] @
     map (\<lambda>n. (n, KList)) [''lpush'', ''lpushx'', ''rpush'', ''rpushx'', ''lpop'', ''rpop'', ''rpoplpush'', ''lrem'', ''llen'',
       ''lindex'', ''lset'', ''lrange'', ''ltrim'', ''linsert''] @
     map (\<lambda>n. (n, KHash)) [''hset'', ''hsetnx'', ''hget'', ''hexists'', ''hdel'', ''hlen'', ''hstrlen'', ''hmset'', ''hmget'',
       ''hkeys'', ''hvals'', ''hgetall'', ''hincrby'', ''hincrbyfloat'', ''hrandfield'', ''hscan''] @
     map (\<lambda>n. (n, KSet)) [''sadd'', ''sismember'', ''srem'', ''spop'', ''scard'', ''smembers'', ''srandmember'', ''sscan''] @
     map (\<lambda>n. (n, KZSet)) [''zadd'', ''zscore'', ''zincrby'', ''zrank'', ''zcount'', ''zrevrank'', ''zcard'', ''zrange'',
       ''zrangebyscore'', ''zrevrange'', ''zrevrangebyscore'', ''zpopmin'', ''zrem'', ''zremrangebyscore'', ''zremrangebyrank'',
       ''zlexcount'', ''zrangebylex'', ''zremrangebylex'', ''zrevrangebylex'', ''zscan''])"

text \<open>A result that tells of an error, or a panic, and leaves what clients see.\<close>

definition refuses :: "'f DB \<Rightarrow> 'f DB \<times> reply option \<Rightarrow> bool" where
  "refuses db0 res \<longleftrightarrow> live (fst res) = live db0 \<and> (case snd res of None \<Rightarrow> True | Some r \<Rightarrow> IsErrorReply r = Some True)"

definition holds_other :: "kind \<Rightarrow> 'f DB \<Rightarrow> string \<Rightarrow> bool" where
  "holds_other k db key \<longleftrightarrow> (\<exists>e t. live db key = Some (e, t) \<and> kind_of e \<noteq> k)"

definition kind_ok :: "string \<times> ('f :: linorder) command \<Rightarrow> bool" where
  "kind_ok e \<longleftrightarrow> (case e of (name, cmd) \<Rightarrow> \<forall>k db args. expects name = Some k \<longrightarrow> DB_ok db \<longrightarrow> holds_other k db (str (args ! 0)) \<longrightarrow>
     refuses db (cmd_executor cmd db args))"

section \<open>Lemmas\<close>

named_theorems refusals

definition is_error :: "reply \<Rightarrow> bool" where
  "is_error r \<longleftrightarrow> IsErrorReply r = Some True"

lemma is_error_simps [simp]:
  "is_error (StandardErrReply s)" "is_error SyntaxErrReply" "is_error WrongTypeErrReply" "is_error (ArgNumErrReply s)"
  "is_error notInteger" "is_error notBitOffset" "is_error notBit" "is_error StringCmds.notFloat" "is_error ZSetCmds.notFloat" "is_error (arity_error n)"
  by (simp_all add: is_error_def notInteger_def notBitOffset_def notBit_def StringCmds.notFloat_def ZSetCmds.notFloat_def arity_error_def)

lemma refuses_error [refusals]: "live db = live db0 \<Longrightarrow> is_error r \<Longrightarrow> refuses db0 (db, Some r)"
  by (simp add: refuses_def is_error_def)

lemma refuses_panic [refusals]: "live db = live db0 \<Longrightarrow> refuses db0 (db, None)"
  by (simp add: refuses_def)

lemma refuses_onInt [refusals]:
  "(\<And>n. refuses db0 (k n)) \<Longrightarrow> live db = live db0 \<Longrightarrow> is_error err \<Longrightarrow> refuses db0 (onInt err a db k)"
  by (simp add: onInt_def refuses_error split: option.split)

lemma refuses_onValue [refusals]: "(\<And>x. v = Some x \<Longrightarrow> refuses db0 (k x)) \<Longrightarrow> live db = live db0 \<Longrightarrow> refuses db0 (onValue v db k)"
  by (simp add: onValue_def refuses_panic split: option.split)

lemma refuses_onBorder [refusals]: "(\<And>x. refuses db0 (k x)) \<Longrightarrow> live db = live db0 \<Longrightarrow> refuses db0 (onBorder b db k)"
  by (auto simp: onBorder_def intro!: refusals split: sum.split)

lemma scan_options_error: "scan_options typed args n pattern t = Some (Inl err) \<Longrightarrow> is_error err"
  by (induction typed args n pattern t rule: scan_options.induct) (auto simp: Let_def split: if_splits list.splits option.splits)

lemma refuses_options [refusals]:
  "scan_options typed args n pattern t = Some opts \<Longrightarrow> (\<And>v. refuses db (k db v)) \<Longrightarrow> refuses db (onLookup (db, opts) k)"
  by (auto simp: onLookup_def intro!: refusals dest: scan_options_error split: sum.split)

lemma range_options_error: "range_options args b off lim = Inl err \<Longrightarrow> is_error err"
  by (induction args b off lim rule: range_options.induct) (auto simp: Let_def split: if_splits list.splits option.splits)

lemma refuses_range_options [refusals]:
  "(\<And>v. refuses db (k db v)) \<Longrightarrow> refuses db (onLookup (db, range_options args b off lim) k)"
  by (auto simp: onLookup_def intro!: refusals dest: range_options_error split: sum.split)

text \<open>The lookups of a key that holds another kind.\<close>

lemma refuses_lookups [refusals]:
  assumes "DB_ok db"
  shows "holds_other KString db key \<Longrightarrow> refuses db (onLookup (getAsString db key) k1)"
    and "holds_other KList db key \<Longrightarrow> refuses db (onLookup (getAsList db key) k2)"
    and "holds_other KList db key \<Longrightarrow> refuses db (onLookup (getOrInitList db key) k3)"
    and "holds_other KHash db key \<Longrightarrow> refuses db (onLookup (getAsDict db key) k4)"
    and "holds_other KHash db key \<Longrightarrow> refuses db (onLookup (getOrInitDict db key) k5)"
    and "holds_other KSet db key \<Longrightarrow> refuses db (onLookup (getAsSet db key) k6)"
    and "holds_other KSet db key \<Longrightarrow> refuses db (onLookup (getOrInitSet db key) k7)"
    and "holds_other KZSet db key \<Longrightarrow> refuses db (onLookup (getAsSortedSet db key) k8)"
  using assms by (auto simp: holds_other_def lookups onLookup_def getOrInitList_def getOrInitDict_def getOrInitSet_def
      refuses_def split: entity.splits)

lemma refuses_getOrInitSortedSet [refusals]:
  "DB_ok db \<Longrightarrow> holds_other KZSet db key \<Longrightarrow> refuses db (onLookup (getOrInitSortedSet db key) k)"
  by (auto simp: holds_other_def lookups onLookup_def getOrInitSortedSet_def refuses_def split: entity.splits)

lemma refuses_onDict [refusals]: "DB_ok db \<Longrightarrow> holds_other KHash db key \<Longrightarrow> refuses db (onDict db key missing f)"
  by (auto simp: onDict_def intro!: refusals)

lemma refuses_onSortedSet [refusals]: "DB_ok db \<Longrightarrow> holds_other KZSet db key \<Longrightarrow> refuses db (onSortedSet db key missing f)"
  by (auto simp: onSortedSet_def intro!: refusals)

lemma refuses_removing [refusals]: "DB_ok db \<Longrightarrow> holds_other KZSet db key \<Longrightarrow> refuses db (removing db key missing line f)"
  by (auto simp: removing_def intro!: refusals)

lemma refuses_strings:
  assumes "DB_ok db" and "holds_other KString db (str (args ! 0))"
  shows "refuses db (execGet db args)" "refuses db (execGetEX db args)" "refuses db (execGetSet db args)" "refuses db (execGetDel db args)"
    "refuses db (execIncr db args)" "refuses db (execIncrBy db args)" "refuses db (execIncrByFloat E db args)" "refuses db (execDecr db args)"
    "refuses db (execDecrBy db args)" "refuses db (execStrLen db args)" "refuses db (execAppend db args)" "refuses db (execSetRange E db args)"
    "refuses db (execGetRange db args)" "refuses db (execSetBit db args)" "refuses db (execGetBit db args)"
    "refuses db (execBitCount db args)" "refuses db (execBitPos db args)"
  using assms
  by (auto simp: execGet_def execGetEX_def execGetSet_def execGetDel_def execIncr_def execIncrBy_def execIncrByFloat_def execDecr_def
      execDecrBy_def execStrLen_def execAppend_def execSetRange_def execGetRange_def execSetBit_def execGetBit_def execBitCount_def
      execBitPos_def Let_def intro!: refusals split: option.split)

lemma refuses_lists:
  assumes "DB_ok db" and "holds_other KList db (str (args ! 0))"
  shows "refuses db (execLPush db args)" "refuses db (execLPushX db args)" "refuses db (execRPush db args)" "refuses db (execRPushX db args)"
    "refuses db (execLPop db args)" "refuses db (execRPop db args)" "refuses db (execRPopLPush db args)" "refuses db (execLRem db args)"
    "refuses db (execLLen db args)" "refuses db (execLIndex db args)" "refuses db (execLSet db args)" "refuses db (execLRange db args)"
    "refuses db (execLTrim db args)" "refuses db (execLInsert db args)"
  using assms
  by (auto simp: execLPush_def execLPushX_def execRPush_def execRPushX_def execLPop_def execRPop_def execRPopLPush_def execLRem_def
      execLLen_def execLIndex_def execLSet_def execLRange_def execLTrim_def execLInsert_def Let_def intro!: refusals)

lemma refuses_hashes:
  assumes "DB_ok db" and "holds_other KHash db (str (args ! 0))"
  shows "refuses db (execHSet db args)" "refuses db (execHSetNX db args)" "refuses db (execHGet db args)" "refuses db (execHExists db args)"
    "refuses db (execHDel db args)" "refuses db (execHLen db args)" "refuses db (execHStrlen db args)" "refuses db (execHMSet db args)"
    "refuses db (execHMGet db args)" "refuses db (execHKeys db args)" "refuses db (execHVals db args)" "refuses db (execHGetAll db args)"
    "refuses db (execHIncrBy db args)" "refuses db (execHIncrByFloat E db args)" "refuses db (execHRandField db args)" "refuses db (execHScan E db args)"
  using assms
  by (auto simp: execHSet_def execHSetNX_def execHGet_def execHExists_def execHDel_def execHLen_def execHStrlen_def execHMSet_def
      execHMGet_def execHKeys_def execHVals_def execHGetAll_def execHIncrBy_def execHIncrByFloat_def execHRandField_def execHScan_def
      Let_def intro!: refusals split: option.split sum.split)

lemma refuses_sets:
  assumes "DB_ok db" and "holds_other KSet db (str (args ! 0))"
  shows "refuses db (execSAdd db args)" "refuses db (execSIsMember db args)" "refuses db (execSRem db args)" "refuses db (execSPop db args)"
    "refuses db (execSCard db args)" "refuses db (execSMembers db args)" "refuses db (execSRandMember db args)" "refuses db (execSScan E db args)"
  using assms
  by (auto simp: execSAdd_def execSIsMember_def execSRem_def execSPop_def execSCard_def execSMembers_def execSRandMember_def execSScan_def
      Let_def intro!: refusals split: option.split sum.split)

lemma refuses_zsets:
  assumes "DB_ok db" and "holds_other KZSet db (str (args ! 0))"
  shows "refuses db (execZAdd E db args)" "refuses db (execZScore E db args)" "refuses db (execZIncrBy E db args)" "refuses db (execZRank db args)"
    "refuses db (execZCount E db args)" "refuses db (execZRevRank db args)" "refuses db (execZCard db args)" "refuses db (execZRange E db args)"
    "refuses db (execZRangeByScore E db args)" "refuses db (execZRevRange E db args)" "refuses db (execZRevRangeByScore E db args)"
    "refuses db (execZPopMin E db args)" "refuses db (execZRem db args)" "refuses db (execZRemRangeByScore E db args)"
    "refuses db (execZRemRangeByRank db args)" "refuses db (execZLexCount db args)" "refuses db (execZRangeByLex db args)"
    "refuses db (execZRemRangeByLex db args)" "refuses db (execZRevRangeByLex db args)" "refuses db (execZScan E db args)"
  using assms
  by (auto simp: execZAdd_def execZScore_def execZIncrBy_def execZRank_def execZCount_def execZRevRank_def execZCard_def execZRange_def
      execZRangeByScore_def execZRevRange_def execZRevRangeByScore_def execZPopMin_def execZRem_def execZRemRangeByScore_def
      execZRemRangeByRank_def execZLexCount_def execZRangeByLex_def execZRemRangeByLex_def execZRevRangeByLex_def execZScan_def
      range0_def rangeByScore0_def rangeByLex0_def Let_def intro!: refusals split: option.split sum.split)

subsection \<open>The entries of the table\<close>

lemma expects_names [simp]:
  "expects ''dumpkey'' = None" "expects ''existin'' = None" "expects ''renamefrom'' = None" "expects ''copyfrom'' = None"
  "expects ''command'' = None" "expects ''keys'' = None" "expects ''auth'' = None" "expects ''info'' = None" "expects ''slaveof'' = None"
  "expects ''subscribe'' = None" "expects ''publish'' = None" "expects ''flushall'' = None" "expects ''flushdb'' = None"
  "expects ''save'' = None" "expects ''bgsave'' = None" "expects ''select'' = None" "expects ''replconf'' = None" "expects ''multi'' = None"
  "expects ''discard'' = None" "expects ''exec'' = None" "expects ''watch'' = None" "expects ''hset'' = Some KHash"
  "expects ''hsetnx'' = Some KHash" "expects ''hget'' = Some KHash" "expects ''hexists'' = Some KHash" "expects ''hdel'' = Some KHash"
  "expects ''hlen'' = Some KHash" "expects ''hstrlen'' = Some KHash" "expects ''hmset'' = Some KHash" "expects ''hmget'' = Some KHash"
  "expects ''hkeys'' = Some KHash" "expects ''hvals'' = Some KHash" "expects ''hgetall'' = Some KHash" "expects ''hincrby'' = Some KHash"
  "expects ''hincrbyfloat'' = Some KHash" "expects ''hrandfield'' = Some KHash" "expects ''hscan'' = Some KHash" "expects ''del'' = None"
  "expects ''expire'' = None" "expects ''expireat'' = None" "expects ''expiretime'' = None" "expects ''pexpire'' = None"
  "expects ''pexpireat'' = None" "expects ''pexpiretime'' = None" "expects ''ttl'' = None" "expects ''pttl'' = None"
  "expects ''persist'' = None" "expects ''exists'' = None" "expects ''type'' = None" "expects ''rename'' = None"
  "expects ''renamenx'' = None" "expects ''scan'' = None" "expects ''lpush'' = Some KList" "expects ''lpushx'' = Some KList"
  "expects ''rpush'' = Some KList" "expects ''rpushx'' = Some KList" "expects ''lpop'' = Some KList" "expects ''rpop'' = Some KList"
  "expects ''rpoplpush'' = Some KList" "expects ''lrem'' = Some KList" "expects ''llen'' = Some KList" "expects ''lindex'' = Some KList"
  "expects ''lset'' = Some KList" "expects ''lrange'' = Some KList" "expects ''ltrim'' = Some KList" "expects ''linsert'' = Some KList"
  "expects ''sadd'' = Some KSet" "expects ''sismember'' = Some KSet" "expects ''srem'' = Some KSet" "expects ''spop'' = Some KSet"
  "expects ''scard'' = Some KSet" "expects ''smembers'' = Some KSet" "expects ''sinter'' = None" "expects ''sinterstore'' = None"
  "expects ''sunion'' = None" "expects ''sunionstore'' = None" "expects ''sdiff'' = None" "expects ''sdiffstore'' = None"
  "expects ''srandmember'' = Some KSet" "expects ''sscan'' = Some KSet" "expects ''zadd'' = Some KZSet" "expects ''zscore'' = Some KZSet"
  "expects ''zincrby'' = Some KZSet" "expects ''zrank'' = Some KZSet" "expects ''zcount'' = Some KZSet" "expects ''zrevrank'' = Some KZSet"
  "expects ''zcard'' = Some KZSet" "expects ''zrange'' = Some KZSet" "expects ''zrangebyscore'' = Some KZSet"
  "expects ''zrevrange'' = Some KZSet" "expects ''zrevrangebyscore'' = Some KZSet" "expects ''zpopmin'' = Some KZSet"
  "expects ''zrem'' = Some KZSet" "expects ''zremrangebyscore'' = Some KZSet" "expects ''zremrangebyrank'' = Some KZSet"
  "expects ''zlexcount'' = Some KZSet" "expects ''zrangebylex'' = Some KZSet" "expects ''zremrangebylex'' = Some KZSet"
  "expects ''zrevrangebylex'' = Some KZSet" "expects ''zscan'' = Some KZSet" "expects ''set'' = None" "expects ''setnx'' = None"
  "expects ''setex'' = None" "expects ''psetex'' = None" "expects ''mset'' = None" "expects ''mget'' = None" "expects ''msetnx'' = None"
  "expects ''get'' = Some KString" "expects ''getex'' = Some KString" "expects ''getset'' = Some KString" "expects ''getdel'' = Some KString"
  "expects ''incr'' = Some KString" "expects ''incrby'' = Some KString" "expects ''incrbyfloat'' = Some KString"
  "expects ''decr'' = Some KString" "expects ''decrby'' = Some KString" "expects ''strlen'' = Some KString"
  "expects ''append'' = Some KString" "expects ''setrange'' = Some KString" "expects ''getrange'' = Some KString"
  "expects ''setbit'' = Some KString" "expects ''getbit'' = Some KString" "expects ''bitcount'' = Some KString"
  "expects ''bitpos'' = Some KString" "expects ''getver'' = None"
  by code_simp+

lemma kind_ok_registered:
  "(\<And>db args. DB_ok db \<Longrightarrow> holds_other k db (str (args ! 0)) \<Longrightarrow> refuses db (executor db args)) \<Longrightarrow>
   expects (ToLower n) = Some k \<Longrightarrow> kind_ok (registerCommand n executor prepare undo arity fl)"
  by (simp add: kind_ok_def registerCommand_def)

lemma kind_ok_other:
  "expects (ToLower n) = None \<Longrightarrow> kind_ok (registerCommand n executor prepare undo arity fl)"
  "expects (ToLower n) = None \<Longrightarrow> kind_ok (registerSpecialCommand n arity fl)"
  by (simp_all add: kind_ok_def registerCommand_def registerSpecialCommand_def)

lemma string_init_kinds: "list_all kind_ok (string_init E)"
  by (simp add: string_init_def kind_ok_registered [where k = KString] refuses_strings kind_ok_other)

lemma list_init_kinds: "list_all kind_ok (list_init E)"
  by (simp add: list_init_def kind_ok_registered [where k = KList] refuses_lists kind_ok_other)

lemma hash_init_kinds: "list_all kind_ok (hash_init E)"
  by (simp add: hash_init_def kind_ok_registered [where k = KHash] refuses_hashes kind_ok_other)

lemma set_init_kinds: "list_all kind_ok (set_init E)"
  by (simp add: set_init_def kind_ok_registered [where k = KSet] refuses_sets kind_ok_other)

lemma sortedset_init_kinds: "list_all kind_ok (sortedset_init E)"
  by (simp add: sortedset_init_def kind_ok_registered [where k = KZSet] refuses_zsets kind_ok_other)

lemma other_init_kinds: "list_all kind_ok (keys_init E)" "list_all kind_ok (cluster_helper_init E)"
  "list_all kind_ok (commandinfo_init E)" "list_all kind_ok (transaction_init E)"
  by (simp_all add: keys_init_def cluster_helper_init_def commandinfo_init_def transaction_init_def kind_ok_other)

lemma cmdTable_kinds: "cmdTable E name = Some cmd \<Longrightarrow> kind_ok (name, cmd)"
  using foldl_update_in [of "\<lambda>_. None" "registered E" name cmd] string_init_kinds [of E] list_init_kinds [of E] hash_init_kinds [of E]
    set_init_kinds [of E] sortedset_init_kinds [of E] other_init_kinds [of E]
  by (auto simp: cmdTable_def registered_def list_all_iff)



end
