(* ===== verification/Spec2Isabelle.thy ===== *)
theory Spec2Isabelle
  imports LockMap RespParser SortedSetSpec Expiry Transaction PubSub Kinds
begin

text \<open>
  A verification library for godis, the Redis server in \<^verbatim>\<open>src/\<close>.

  \<^bold>\<open>The program.\<close> A connection handler (\<^verbatim>\<open>redis/server\<close>) reads requests in the RESP protocol
  (\<^verbatim>\<open>redis/parser\<close>), passes each command line to the database it selected
  (\<^verbatim>\<open>database/database.go\<close>, \<^verbatim>\<open>DB.Exec\<close>), and writes the reply back (\<^verbatim>\<open>redis/protocol\<close>). A database looks
  the command up in a table that the \<^verbatim>\<open>init\<close> functions fill (\<^verbatim>\<open>database/router.go\<close>), asks it for the
  keys it reads and writes, locks them (\<^verbatim>\<open>datastruct/lock\<close>), raises the versions of the written keys
  and runs the handler. Handlers work on a sharded dictionary of entities (\<^verbatim>\<open>datastruct/dict\<close>), which are
  strings, paged lists, hash tables, sets and sorted sets, keep expiration times in a second dictionary and pass
  what they changed on to the append-only file. MULTI queues commands and EXEC runs them with
  an undo log. Clients may also subscribe to channels (\<^verbatim>\<open>pubsub\<close>).

  \<^bold>\<open>Values.\<close> \<open>Godis_Prelude\<close> has the Go values: a string is a list of bytes, a byte slice is an optional
  one (\<^term>\<open>None\<close> is nil), an \<^verbatim>\<open>int64\<close> is an integer that arithmetic wraps (\<open>wrap64\<close>), a \<^verbatim>\<open>uint32\<close> is a
  32-bit word, a map is an association list without repeated keys whose order is the order of iteration, and an
  index, slice or \<^verbatim>\<open>make\<close> out of range is \<^term>\<open>None\<close>, a panic. \<open>Strconv\<close> has \<^verbatim>\<open>ParseInt\<close> and
  \<^verbatim>\<open>FormatInt\<close>. Pointers that the claims depend on (skip list nodes, pages, list nodes, connections) are indices into a
  store. Floating point numbers are values of a linear order: their parser, printer and addition are fields of the
  record \<open>env\<close>, with what a theorem needs of them as a hypothesis. The clock, the random numbers and
  the iteration order of a map are part of the state or arguments.

  \<^bold>\<open>Protocol.\<close>
  \<^item> \<open>Protocol\<close> (\<^verbatim>\<open>redis/protocol\<close>): the reply types, \<^verbatim>\<open>ToBytes\<close> and the tests for error replies.
  \<^item> \<open>RespParser\<close> (\<^verbatim>\<open>redis/parser/parser.go\<close>, \<^verbatim>\<open>parserv2.go\<close>): both parsers, on the bytes that arrive until the
    connection ends. Round trips with the printer, for pipelines of requests too.
  \<^item> \<open>Connection\<close> (\<^verbatim>\<open>redis/connection/conn.go\<close>): the state of a client and its methods, the flags as bits.

  \<^bold>\<open>Data structures.\<close> Each is modelled as written and refines an abstract value by a theorem on arbitrary
  sequences of calls.
  \<^item> \<open>Dict\<close> (\<^verbatim>\<open>datastruct/dict\<close>): \<^verbatim>\<open>SimpleDict\<close> and \<^verbatim>\<open>ConcurrentDict\<close> with its shards, hash function and counter.
    The locale \<open>dict\<close> is the contract of the \<^verbatim>\<open>Dict\<close> interface against a partial map; both implementations interpret it.
  \<^item> \<open>LockMap\<close> (\<^verbatim>\<open>datastruct/lock\<close>): the lock table and, as an inductive step relation, goroutines that take and
    release read and write locks in any interleaving: exclusion, no deadlock, and an end of every schedule.
  \<^item> \<open>GoList\<close>, \<open>QuickList\<close>, \<open>LinkedList\<close> (\<^verbatim>\<open>datastruct/list\<close>): the locale \<open>go_list\<close> states once that a run of
    calls is answered as by a list; the paged list and the doubly linked list interpret it.
  \<^item> \<open>SkipList\<close>, \<open>SortedSet\<close>, \<open>SortedSetSpec\<close> (\<^verbatim>\<open>datastruct/sortedset\<close>): the skip list with its spans over a node
    store, the sorted set above it, the borders, and the refinement to a sorted list for all random levels.
  \<^item> \<open>HashSet\<close> (\<^verbatim>\<open>datastruct/set\<close>), \<open>Bitmap\<close> (\<^verbatim>\<open>datastruct/bitmap\<close>).

  \<^bold>\<open>One database.\<close>
  \<^item> \<open>Database\<close> (\<^verbatim>\<open>database/database.go\<close>, \<^verbatim>\<open>router.go\<close>): the record \<open>DB\<close>, entities, expiration, versions, the log of
    the append-only file, \<^verbatim>\<open>execNormalCommand\<close> and \<^verbatim>\<open>execWithLock\<close>. A handler maps a database and arguments to a database
    and a reply, \<^term>\<open>None\<close> being a panic. \<open>DB_ok\<close> is the invariant and \<open>live\<close> is what clients see: for each key
    that has not expired its value and expiration time.
  \<^item> \<open>Utils\<close> (\<^verbatim>\<open>lib/utils/utils.go\<close>, the typed lookups), \<open>Expiry\<close> (timers and lazy removal), \<open>Scan\<close>
    (\<^verbatim>\<open>lib/wildcard\<close> and the cursors), \<open>Marshal\<close> (\<^verbatim>\<open>aof/marshal.go\<close>, \<^verbatim>\<open>database/tx_utils.go\<close>).
  \<^item> \<open>StringCmds\<close>, \<open>KeyCmds\<close>, \<open>ListCmds\<close>, \<open>HashCmds\<close>, \<open>SetCmds\<close>, \<open>ZSetCmds\<close>, \<open>ClusterHelper\<close>: one definition
    per handler of \<^verbatim>\<open>database/string.go\<close>, \<^verbatim>\<open>keys.go\<close>, \<^verbatim>\<open>list.go\<close>, \<^verbatim>\<open>hash.go\<close>, \<^verbatim>\<open>set.go\<close>, \<^verbatim>\<open>sortedset.go\<close> and
    \<^verbatim>\<open>cluster_helper.go\<close>, with the loops and undo logs they use, and round trips between them.
  \<^item> \<open>CmdTable\<close> (the \<^verbatim>\<open>init\<close> functions): the table. Theorems over all commands: the invariant is kept, only
    declared keys change, read-only commands change nothing, and changes are logged, with the exceptions listed.
  \<^item> \<open>Kinds\<close>: no command works on a key of another type.
  \<^item> \<open>Restore\<close>, \<open>Transaction\<close> (\<^verbatim>\<open>database/transaction.go\<close>, \<^verbatim>\<open>DB.Exec\<close>): \<open>Restore\<close> shows that the commands which
    \<^verbatim>\<open>EntityToCmd\<close> writes bring back a value, \<open>Transaction\<close> that EXEC is all or nothing and that WATCH guards it.
  \<^item> \<open>PubSub\<close> (\<^verbatim>\<open>pubsub\<close>, \<^verbatim>\<open>closeClient\<close>): subscriptions and delivery.

  \<^bold>\<open>Loops.\<close> Loops that end by the structure of their data are recursive functions with a termination proof. Loops
  that follow pointers are \<^theory_text>\<open>partial_function (option)\<close>, where \<^term>\<open>None\<close> is a loop that does not end or a nil pointer; the
  refinement theorems show that they return. There is no fuel. Bounds appear as hypotheses where the code has them:
  fewer than \<open>2 ^ 31\<close> entries for the 32-bit counter of a dictionary, fewer than \<open>2 ^ 32\<close> writes to a key between WATCH and
  EXEC for its version, and \<open>maxAlloc\<close> for the largest slice.

  \<^bold>\<open>Not modelled.\<close> Network and file input and output (\<^verbatim>\<open>tcp\<close>, \<^verbatim>\<open>redis/client\<close>, the read and write loops of \<^verbatim>\<open>redis/server\<close>,
  \<^verbatim>\<open>aof/aof.go\<close>, \<^verbatim>\<open>rewrite.go\<close>, \<^verbatim>\<open>rdb.go\<close>), replication and the cluster, which exchange messages through sockets and the
  raft library; the server that routes a command to one of several databases, the slow log and the system
  commands; configuration, logging, pools and identifiers; the geo commands, which compute with floating point
  trigonometry. Goroutines are modelled for the locks only: elsewhere handlers run one after the other, which the
  exclusion theorem of \<open>LockMap\<close> and the declared keys of \<open>CmdTable\<close> justify for commands on common keys.
\<close>

end
